(* ===== verification/Prelude.thy ===== *)
theory Prelude
  imports Main "HOL-Library.Word"
begin

text \<open>
  The shared layer of the development: the widths of the C++ integer types, the
  faults a C++ expression of the program can end in, the lemma collections, and
  the facts on words, lists and maps that more than one component uses.
\<close>

unbundle bit_operations_syntax

type_synonym u8 = "8 word"
type_synonym u16 = "16 word"
type_synonym u32 = "32 word"
type_synonym u64 = "64 word"

text \<open>\<open>std::byte\<close> is an octet; a \<open>std::vector<std::byte>\<close> is a list of them;
  \<open>size_t\<close> is 64 bits wide on the platforms the build files name.\<close>

type_synonym bytes = "u8 list"
type_synonym size_t = u64

text \<open>
  The ways in which a C++ expression of the program has no value: an access outside
  a vector (undefined behaviour), \<open>value()\<close> on an empty \<open>std::optional\<close>, \<open>at\<close> on a
  missing key, an integer division by zero, a standard-library conversion that throws,
  an empty \<open>std::function\<close>, a thrown \<open>std::runtime_error\<close>, and resuming a finished
  coroutine (undefined behaviour).
  A function that can end in one returns a sum, with the fault on the left.
\<close>

datatype fault =
    OutOfBounds
  | BadOptionalAccess
  | MapOutOfRange
  | DivisionByZero
  | InvalidArgument
  | ConversionOutOfRange
  | BadFunctionCall
  | RuntimeError
  | ResumedPastEnd

type_synonym 'a result = "fault + 'a"

text \<open>Sequencing of computations that can fault: the first fault is the result.\<close>

definition bind_result :: "'a result \<Rightarrow> ('a \<Rightarrow> 'b result) \<Rightarrow> 'b result" where
  "bind_result m f = (case m of Inl e \<Rightarrow> Inl e | Inr a \<Rightarrow> f a)"

named_theorems result_simps \<open>evaluation of computations that can fault\<close>
named_theorems wire_simps \<open>the byte layout of a packet\<close>
named_theorems seq_simps \<open>sequence numbers read as natural numbers\<close>
named_theorems frame_simps \<open>what an operation leaves unchanged\<close>
named_theorems inv_intros \<open>operations keep the invariant of their component\<close>

lemma bind_result_simps [simp, result_simps]:
  "bind_result (Inl e) f = Inl e"
  "bind_result (Inr a) f = f a"
  by (simp_all add: bind_result_def)

lemma bind_result_Inr_iff [result_simps]:
  "bind_result m f = Inr b \<longleftrightarrow> (\<exists>a. m = Inr a \<and> f a = Inr b)"
  by (cases m) auto

text \<open>\<open>std::unordered_map::emplace\<close> and \<open>std::map::emplace\<close> leave an existing entry alone.\<close>

definition map_emplace :: "('k \<rightharpoonup> 'v) \<Rightarrow> 'k \<Rightarrow> 'v \<Rightarrow> ('k \<rightharpoonup> 'v)" where
  "map_emplace m k v = (case m k of None \<Rightarrow> m(k \<mapsto> v) | Some _ \<Rightarrow> m)"

definition map_erase :: "('k \<rightharpoonup> 'v) \<Rightarrow> 'k \<Rightarrow> ('k \<rightharpoonup> 'v)" where
  "map_erase m k = m(k := None)"

lemma map_emplace_new [simp]: "m k = None \<Longrightarrow> map_emplace m k v = m(k \<mapsto> v)"
  by (simp add: map_emplace_def)

lemma map_emplace_old [simp]: "m k = Some w \<Longrightarrow> map_emplace m k v = m"
  by (simp add: map_emplace_def)

lemma map_emplace_apply:
  "map_emplace m k v x = (if x = k \<and> m k = None then Some v else m x)"
  by (simp add: map_emplace_def split: option.splits)

lemma dom_map_emplace [simp]: "dom (map_emplace m k v) = insert k (dom m)"
  by (auto simp: map_emplace_apply split: if_splits)

lemma map_erase_apply [simp]: "map_erase m k x = (if x = k then None else m x)"
  by (simp add: map_erase_def)

lemma dom_map_erase [simp]: "dom (map_erase m k) = dom m - {k}"
  by (auto simp: map_erase_def)

text \<open>Words as numbers.\<close>

lemma unat_u8_less [simp]: "unat (w :: u8) < 256"
  using unsigned_less [of w] by simp

lemma unat_u16_less [simp]: "unat (w :: u16) < 65536"
  using unsigned_less [of w] by simp

lemma unat_u32_less [simp]: "unat (w :: u32) < 4294967296"
  using unsigned_less [of w] by simp

lemma unat_u32_add:
  "unat (a :: u32) + unat b < 4294967296 \<Longrightarrow> unat (a + b) = unat a + unat b"
  by (simp add: unat_word_ariths)

lemma unat_ucast_small:
  "unat (w :: 'a::len word) < 2 ^ LENGTH('b) \<Longrightarrow> unat (ucast w :: 'b::len word) = unat w"
  by (simp add: unsigned_ucast_eq take_bit_nat_eq_self)

lemma unat_ucast_byte [simp]:
  "unat (ucast (b :: u8) :: u16) = unat b"
  "unat (ucast (b :: u8) :: u32) = unat b"
  "unat (ucast (b :: u8) :: u64) = unat b"
  using unat_u8_less [of b] by (simp_all add: unat_ucast_small del: unat_u8_less)

lemma unat_ucast_u16 [simp]: "unat (ucast (w :: u16) :: u32) = unat w"
  using unat_u16_less [of w] by (simp add: unat_ucast_small del: unat_u16_less)

lemma unat_and_FFFF: "unat ((w :: u32) AND 0xFFFF) = unat w mod 65536"
proof -
  have "w AND 0xFFFF = take_bit 16 w"
    by (simp add: take_bit_eq_mask mask_eq_exp_minus_1)
  then show ?thesis by (simp add: take_bit_eq_mod unat_mod)
qed

lemma unat_drop_bit_16: "unat (drop_bit 16 (w :: u32)) = unat w div 65536"
  by (simp add: drop_bit_eq_div unat_div)

text \<open>
  A 16-bit value read from two octets, low octet first, as
  \<open>static_cast<uint16_t>(lo) | (static_cast<uint16_t>(hi) << 8)\<close> does, and the two
  octets of a 16-bit value.
\<close>

definition le16 :: "u8 \<Rightarrow> u8 \<Rightarrow> u16" where
  "le16 lo hi = ucast lo OR push_bit 8 (ucast hi)"

lemma le16_word_cat: "le16 lo hi = word_cat hi lo"
proof -
  have "(word_cat hi lo :: u16) = push_bit LENGTH(8) (ucast hi) OR ucast lo"
    by (rule word_cat_eq_push_bit_or)
  then show ?thesis by (simp add: le16_def or.commute)
qed

lemma unat_le16: "unat (le16 lo hi) = unat lo + 256 * unat hi"
proof -
  have "le16 lo hi = push_bit LENGTH(8) (ucast hi) + ucast lo"
    unfolding le16_word_cat by (rule word_cat_eq)
  then have "le16 lo hi = ucast lo + 256 * ucast hi"
    by (simp add: push_bit_eq_mult)
  moreover have "unat lo + 256 * unat hi < 65536"
    using unat_u8_less [of lo] unat_u8_less [of hi] by linarith
  ultimately show ?thesis
    by (simp add: unat_word_ariths)
qed

lemma le16_split: "le16 (ucast (w AND 0xFF)) (ucast (drop_bit 8 w AND 0xFF)) = (w :: u16)"
proof (rule bit_word_eqI)
  have m: "(0xFF :: u16) = mask 8" by (simp add: mask_eq_exp_minus_1)
  fix n assume "n < LENGTH(16)"
  then show "bit (le16 (ucast (w AND 0xFF)) (ucast (drop_bit 8 w AND 0xFF))) n = bit w n"
    unfolding m by (auto simp: le16_def bit_simps)
qed

lemma case_Some_iff: "(case x of None \<Rightarrow> False | Some y \<Rightarrow> P y) \<longleftrightarrow> (\<exists>y. x = Some y \<and> P y)"
  by (cases x) simp_all

end
