(* ===== verification/ArgParser.thy ===== *)
theory ArgParser
  imports Prelude
begin

text \<open>
  The command-line parser of app/argparser.hpp. \<open>std::any\<close> is a sum of the types the program
  scans; the unordered maps are maps with the order of iteration as an argument; messages to
  \<open>std::cerr\<close> are left out. What the library makes of a decimal fraction is a parameter; the
  validator and callback of an argument are stored by the code but never called.
\<close>

text \<open>\<open>float\<close> and \<open>double\<close> are their bits; \<open>AnyEmpty\<close> is the empty \<open>std::any\<close>, \<open>TOther\<close> any type
  \<open>scan\<close> has no branch for.\<close>

datatype any =
    AnyString string | AnyInt int | AnySize size_t | AnyFloat u32 | AnyDouble u64 | AnyBool bool | AnyEmpty

datatype any_type = TString | TInt | TSize | TFloat | TDouble | TBool | TOther

fun any_has_type :: "any_type \<Rightarrow> any \<Rightarrow> bool" where
  "any_has_type TString (AnyString s) = True"
| "any_has_type TInt (AnyInt i) = True"
| "any_has_type TSize (AnySize n) = True"
| "any_has_type TFloat (AnyFloat x) = True"
| "any_has_type TDouble (AnyDouble x) = True"
| "any_has_type TBool (AnyBool b) = True"
| "any_has_type _ _ = False"

subsection \<open>Numbers in the standard library\<close>

definition is_space :: "char \<Rightarrow> bool" where
  "is_space c \<longleftrightarrow> of_char c = (32 :: nat) \<or> (9 :: nat) \<le> of_char c \<and> of_char c \<le> (13 :: nat)"

definition is_digit :: "char \<Rightarrow> bool" where
  "is_digit c \<longleftrightarrow> (48 :: nat) \<le> of_char c \<and> of_char c \<le> (57 :: nat)"

definition digit_value :: "char \<Rightarrow> nat" where
  "digit_value c = of_char c - 48"

definition digits_value :: "string \<Rightarrow> nat" where
  "digits_value ds = fold (\<lambda>d n. 10 * n + digit_value d) ds 0"

text \<open>The optional sign, true for minus, and the longest run of digits behind it.\<close>

definition scan_number :: "string \<Rightarrow> bool \<times> string" where
  "scan_number s =
     (case dropWhile is_space s of
        [] \<Rightarrow> (False, [])
      | c # cs \<Rightarrow>
          if c = CHR ''-'' then (True, takeWhile is_digit cs)
          else if c = CHR ''+'' then (False, takeWhile is_digit cs)
          else (False, takeWhile is_digit (c # cs)))"

definition INT_MAX_C :: int where "INT_MAX_C = 2147483647"

text \<open>\<open>std::stoi\<close>: the characters after the number are ignored.\<close>

definition stoi :: "string \<Rightarrow> int result" where
  "stoi s =
     (let (neg, ds) = scan_number s;
          n = (if neg then - int (digits_value ds) else int (digits_value ds))
      in if ds = [] then Inl InvalidArgument
         else if n < - INT_MAX_C - 1 \<or> INT_MAX_C < n then Inl ConversionOutOfRange
         else Inr n)"

text \<open>
  \<open>stringstream >> size_t\<close>. With nothing to read the variable keeps the value it had, which
  the code leaves uninitialised: it is the first argument. A failed conversion gives 0, an
  overflow the largest value, and a minus sign negates modulo the width.
\<close>

definition scan_size_t :: "size_t \<Rightarrow> string \<Rightarrow> size_t" where
  "scan_size_t init s =
     (let (neg, ds) = scan_number s
      in if dropWhile is_space s = [] then init
         else if ds = [] then 0
         else if 18446744073709551615 < digits_value ds then - 1
         else if neg then - of_nat (digits_value ds) else of_nat (digits_value ds))"

text \<open>What \<open>scan\<close> depends on: the uninitialised variable, and \<open>std::stof\<close> and \<open>std::stod\<close>, which throw
  or give the bits of the number.\<close>

record Scanners =
  uninit :: size_t
  std_stof :: "string \<Rightarrow> u32 result"
  std_stod :: "string \<Rightarrow> u64 result"

definition scan_as :: "Scanners \<Rightarrow> any_type \<Rightarrow> string \<Rightarrow> any result" where
  "scan_as sc ty s =
     (case ty of
        TString \<Rightarrow> Inr (AnyString s)
      | TInt \<Rightarrow> bind_result (stoi s) (\<lambda>i. Inr (AnyInt i))
      | TSize \<Rightarrow> Inr (AnySize (scan_size_t (uninit sc) s))
      | TFloat \<Rightarrow> bind_result (std_stof sc s) (\<lambda>x. Inr (AnyFloat x))
      | TDouble \<Rightarrow> bind_result (std_stod sc s) (\<lambda>x. Inr (AnyDouble x))
      | TBool \<Rightarrow> Inr (AnyBool (s = ''true''))
      | TOther \<Rightarrow> Inr AnyEmpty)"

subsection \<open>Arguments\<close>

text \<open>\<open>parser\<close> is the type given to \<open>scan\<close>, \<open>None\<close> for an empty function.\<close>

record Argument =
  arg_name :: string
  help_text :: string
  default_value :: "any option"
  arg_value :: "any option"
  arg_required :: bool
  arg_is_flag :: bool
  arg_parser :: "any_type option"
  arg_validator :: "(string \<Rightarrow> bool) option"
  arg_callback :: "(string \<Rightarrow> unit) option"

definition new_argument :: Argument where
  "new_argument =
     \<lparr>arg_name = [], help_text = [], default_value = None, arg_value = None,
      arg_required = False, arg_is_flag = False, arg_parser = None,
      arg_validator = None, arg_callback = None\<rparr>"

definition with_help_text :: "string \<Rightarrow> Argument \<Rightarrow> Argument" where
  "with_help_text t a = a\<lparr>help_text := t\<rparr>"

definition with_name :: "string \<Rightarrow> Argument \<Rightarrow> Argument" where
  "with_name nm a = a\<lparr>arg_name := nm\<rparr>"

definition with_validator :: "(string \<Rightarrow> bool) \<Rightarrow> Argument \<Rightarrow> Argument" where
  "with_validator f a = a\<lparr>arg_validator := Some f\<rparr>"

definition with_callback :: "(string \<Rightarrow> unit) \<Rightarrow> Argument \<Rightarrow> Argument" where
  "with_callback f a = a\<lparr>arg_callback := Some f\<rparr>"

definition with_default :: "any \<Rightarrow> Argument \<Rightarrow> Argument" where
  "with_default v a = a\<lparr>default_value := Some v\<rparr>"

definition with_scan :: "any_type \<Rightarrow> Argument \<Rightarrow> Argument" where
  "with_scan ty a = a\<lparr>arg_parser := Some ty\<rparr>"

definition with_required :: "bool \<Rightarrow> Argument \<Rightarrow> Argument" where
  "with_required b a = a\<lparr>arg_required := b\<rparr>"

definition with_is_flag :: "bool \<Rightarrow> Argument \<Rightarrow> Argument" where
  "with_is_flag b a = a\<lparr>arg_is_flag := b, default_value := Some (AnyBool False)\<rparr>"

type_synonym ArgumentParser = "string \<rightharpoonup> Argument"

text \<open>\<open>add_argument\<close> returns a reference to the entry; the calls chained on it are the function.\<close>

definition add_argument :: "string \<Rightarrow> (Argument \<Rightarrow> Argument) \<Rightarrow> ArgumentParser \<Rightarrow> ArgumentParser" where
  "add_argument nm f ps =
     (let ps = map_emplace ps nm new_argument
      in case ps nm of
           Some a \<Rightarrow> ps(nm \<mapsto> f (with_name nm a))
         | None \<Rightarrow> ps)"

text \<open>\<open>get\<close>: \<open>nullopt\<close> for an unknown name, an unset value or another type.\<close>

definition get_arg :: "any_type \<Rightarrow> string \<Rightarrow> ArgumentParser \<Rightarrow> any option" where
  "get_arg ty nm ps =
     (case ps nm of
        None \<Rightarrow> None
      | Some a \<Rightarrow>
          (case arg_value a of
             None \<Rightarrow> None
           | Some v \<Rightarrow> if any_has_type ty v then Some v else None))"

subsection \<open>parse\_args\<close>

text \<open>The first loop: one command-line argument. \<open>None\<close> is the early return of false.\<close>

definition parse_one ::
  "ArgumentParser \<Rightarrow> string \<Rightarrow> (string \<rightharpoonup> string) \<Rightarrow> (string \<rightharpoonup> string) option result" where
  "parse_one ps arg given =
     (if take 2 arg = ''--'' then
        let (nm, v) =
          (if CHR ''='' \<in> set arg
           then (drop 2 (takeWhile (\<lambda>c. c \<noteq> CHR ''='') arg), tl (dropWhile (\<lambda>c. c \<noteq> CHR ''='') arg))
           else (drop 2 arg, ''true''))
        in if nm \<in> dom ps then Inr (Some (given(nm \<mapsto> v))) else Inl MapOutOfRange
      else Inr None)"

fun parse_given ::
  "ArgumentParser \<Rightarrow> string list \<Rightarrow> (string \<rightharpoonup> string) \<Rightarrow> (string \<rightharpoonup> string) option result" where
  "parse_given ps [] given = Inr (Some given)"
| "parse_given ps (arg # args) given =
     bind_result (parse_one ps arg given) (\<lambda>r.
       case r of None \<Rightarrow> Inr None | Some given \<Rightarrow> parse_given ps args given)"

text \<open>The second loop: one entry of the map. The flag is false when a required one is missing.\<close>

definition assign_one ::
  "Scanners \<Rightarrow> (string \<rightharpoonup> string) \<Rightarrow> string \<Rightarrow> ArgumentParser \<Rightarrow> (bool \<times> ArgumentParser) result" where
  "assign_one sc given nm ps =
     (case ps nm of
        None \<Rightarrow> Inl MapOutOfRange
      | Some a \<Rightarrow>
          (case given nm of
             Some s \<Rightarrow>
               (case arg_parser a of
                  None \<Rightarrow> Inl BadFunctionCall
                | Some ty \<Rightarrow>
                    bind_result (scan_as sc ty s) (\<lambda>v. Inr (True, ps(nm \<mapsto> a\<lparr>arg_value := Some v\<rparr>))))
           | None \<Rightarrow>
               (case default_value a of
                  Some v \<Rightarrow> Inr (True, ps(nm \<mapsto> a\<lparr>arg_value := Some v\<rparr>))
                | None \<Rightarrow> Inr (\<not> arg_required a, ps))))"

fun assign_all ::
  "Scanners \<Rightarrow> (string \<rightharpoonup> string) \<Rightarrow> string list \<Rightarrow> ArgumentParser \<Rightarrow> (bool \<times> ArgumentParser) result" where
  "assign_all sc given [] ps = Inr (True, ps)"
| "assign_all sc given (nm # order) ps =
     bind_result (assign_one sc given nm ps) (\<lambda>(ok, ps).
       if ok then assign_all sc given order ps else Inr (False, ps))"

text \<open>The order lists the names of the arguments; \<open>args\<close> is \<open>argv\<close> without the program name.\<close>

definition parse_args ::
  "Scanners \<Rightarrow> string list \<Rightarrow> string list \<Rightarrow> ArgumentParser \<Rightarrow> (bool \<times> ArgumentParser) result" where
  "parse_args sc order args ps =
     bind_result (parse_given ps args Map.empty) (\<lambda>r.
       case r of
         None \<Rightarrow> Inr (False, ps)
       | Some given \<Rightarrow> assign_all sc given order ps)"

subsection \<open>What a parse does\<close>

text \<open>A run over the whole order leaves every argument with its given value, scanned, or its
  default; the order does not matter when no scanner fails.\<close>

definition settled :: "Scanners \<Rightarrow> (string \<rightharpoonup> string) \<Rightarrow> string \<Rightarrow> Argument \<Rightarrow> any option" where
  "settled sc given nm a =
     (case given nm of
        Some s \<Rightarrow>
          (case arg_parser a of
             None \<Rightarrow> None
           | Some ty \<Rightarrow> (case scan_as sc ty s of Inl e \<Rightarrow> None | Inr v \<Rightarrow> Some v))
      | None \<Rightarrow> default_value a)"

definition all_settled :: "Scanners \<Rightarrow> (string \<rightharpoonup> string) \<Rightarrow> ArgumentParser \<Rightarrow> bool" where
  "all_settled sc given ps \<longleftrightarrow> (\<forall>nm a. ps nm = Some a \<longrightarrow> settled sc given nm a \<noteq> None)"

lemma assign_one_settled:
  "ps nm = Some a \<Longrightarrow> settled sc given nm a = Some v \<Longrightarrow>
     assign_one sc given nm ps = Inr (True, ps(nm \<mapsto> a\<lparr>arg_value := Some v\<rparr>))"
  by (auto simp: assign_one_def settled_def split: option.splits sum.splits)

lemma assign_all_settled:
  assumes "distinct order" "set order \<subseteq> dom ps"
    and "\<forall>nm \<in> set order. settled sc given nm (the (ps nm)) \<noteq> None"
  shows "assign_all sc given order ps =
    Inr (True, \<lambda>nm. if nm \<in> set order
      then Some ((the (ps nm))\<lparr>arg_value := settled sc given nm (the (ps nm))\<rparr>) else ps nm)"
  using assms
proof (induction order arbitrary: ps)
  case (Cons nm order)
  then obtain a v where a: "ps nm = Some a" and v: "settled sc given nm a = Some v" by fastforce
  let ?ps = "ps(nm \<mapsto> a\<lparr>arg_value := Some v\<rparr>)"
  have "assign_all sc given order ?ps =
    Inr (True, \<lambda>nm. if nm \<in> set order
      then Some ((the (?ps nm))\<lparr>arg_value := settled sc given nm (the (?ps nm))\<rparr>) else ?ps nm)"
    using Cons.prems by (intro Cons.IH) auto
  with Cons.prems(1) a v show ?case
    by (auto simp: assign_one_settled fun_eq_iff)
qed simp

subsection \<open>Validators and callbacks\<close>

definition without_hooks :: "ArgumentParser \<Rightarrow> ArgumentParser" where
  "without_hooks ps nm = map_option (\<lambda>a. a\<lparr>arg_validator := None, arg_callback := None\<rparr>) (ps nm)"

definition hookless :: "(bool \<times> ArgumentParser) result \<Rightarrow> (bool \<times> ArgumentParser) result" where
  "hookless = map_sum id (apsnd without_hooks)"

lemma without_hooks_upd:
  "without_hooks (ps(nm \<mapsto> a)) = (without_hooks ps)(nm \<mapsto> a\<lparr>arg_validator := None, arg_callback := None\<rparr>)"
  by (auto simp: without_hooks_def fun_eq_iff)

lemma dom_without_hooks [simp]: "dom (without_hooks ps) = dom ps"
  by (auto simp: without_hooks_def)

lemma hookless_simps [simp]:
  "hookless (Inl e) = Inl e" "hookless (Inr (ok, ps)) = Inr (ok, without_hooks ps)"
  by (simp_all add: hookless_def)

lemma hookless_bind:
  "hookless (bind_result m f) = bind_result m (\<lambda>x. hookless (f x))"
  by (cases m) simp_all

lemma assign_one_hookless:
  "assign_one sc given nm (without_hooks ps) = hookless (assign_one sc given nm ps)"
proof (cases "ps nm")
  case None
  then show ?thesis by (simp add: assign_one_def without_hooks_def)
next
  case (Some a)
  then have w: "without_hooks ps nm = Some (a\<lparr>arg_validator := None, arg_callback := None\<rparr>)"
    by (simp add: without_hooks_def)
  have swap: "a\<lparr>arg_validator := None, arg_callback := None, arg_value := v\<rparr> =
      a\<lparr>arg_value := v, arg_validator := None, arg_callback := None\<rparr>" for v by (cases a) simp
  show ?thesis
    by (auto simp: assign_one_def Some w swap hookless_bind without_hooks_upd split: option.splits)
qed

lemma assign_all_hookless:
  "assign_all sc given order (without_hooks ps) = hookless (assign_all sc given order ps)"
proof (induction order arbitrary: ps)
  case (Cons nm order)
  show ?case
  proof (cases "assign_one sc given nm ps")
    case (Inr r)
    then show ?thesis by (cases r) (simp add: assign_one_hookless Cons.IH)
  qed (simp add: assign_one_hookless)
qed simp

lemma parse_one_hookless: "parse_one (without_hooks ps) arg given = parse_one ps arg given"
  by (simp add: parse_one_def)

lemma parse_given_hookless: "parse_given (without_hooks ps) args = parse_given ps args"
proof (induction args)
  case Nil
  show ?case by (rule ext) simp
next
  case (Cons arg args)
  show ?case by (rule ext) (simp add: parse_one_hookless Cons.IH)
qed

text \<open>Validators and callbacks are stored and never called: a parse goes the same way, with the
  same result, without them.\<close>

theorem hooks_never_called:
  "parse_args sc order args (without_hooks ps) = hookless (parse_args sc order args ps)"
  unfolding parse_args_def parse_given_hookless hookless_bind
  by (rule arg_cong [of _ _ "bind_result (parse_given ps args Map.empty)"])
    (auto simp: fun_eq_iff assign_all_hookless split: option.splits)

end
