(* ===== verification/SeqNum.thy ===== *)
theory SeqNum
  imports Prelude
begin

text \<open>
  The class \<open>SequenceNumber\<close> of packet.hpp: a 32-bit counter that wraps, compared as a
  plain unsigned number (there is no serial-number arithmetic). The comparison operators
  of the class are the instance of \<open>linorder\<close>, its \<open>operator+\<close> and \<open>operator-\<close> the
  instances of \<open>plus\<close> and \<open>minus\<close>; the proofs read a sequence number as the natural
  number \<open>sn\<close>.
\<close>

datatype SequenceNumber = SequenceNumber (get: u32)

text \<open>\<open>SequenceNumber()\<close>: the default constructor sets \<open>inner_\<close> to zero.\<close>

definition seq_default :: SequenceNumber where
  "seq_default = SequenceNumber 0"

text \<open>\<open>update\<close> increments, \<open>inv_update\<close> decrements; both wrap.\<close>

definition update_seq :: "SequenceNumber \<Rightarrow> SequenceNumber" where
  "update_seq s = SequenceNumber (get s + 1)"

definition inv_update_seq :: "SequenceNumber \<Rightarrow> SequenceNumber" where
  "inv_update_seq s = SequenceNumber (get s - 1)"

text \<open>\<open>std::hash<SequenceNumber>\<close> hashes the 32-bit value; the library's hash of an
  integer is a parameter.\<close>

definition seq_hash :: "(u32 \<Rightarrow> size_t) \<Rightarrow> SequenceNumber \<Rightarrow> size_t" where
  "seq_hash h s = h (get s)"

text \<open>The constructor from a 32-bit value. The relational operators compare the values
  of \<open>inner_\<close>; \<open>operator-\<close> and \<open>operator+\<close> compute on them and convert back.\<close>

definition seq_ctor :: "u32 \<Rightarrow> SequenceNumber" where
  "seq_ctor n = SequenceNumber n"

definition seq_eq :: "SequenceNumber \<Rightarrow> SequenceNumber \<Rightarrow> bool" where
  "seq_eq s t \<longleftrightarrow> get s = get t"

definition seq_ne :: "SequenceNumber \<Rightarrow> SequenceNumber \<Rightarrow> bool" where
  "seq_ne s t \<longleftrightarrow> get s \<noteq> get t"

definition seq_lt :: "SequenceNumber \<Rightarrow> SequenceNumber \<Rightarrow> bool" where
  "seq_lt s t \<longleftrightarrow> get s < get t"

definition seq_le :: "SequenceNumber \<Rightarrow> SequenceNumber \<Rightarrow> bool" where
  "seq_le s t \<longleftrightarrow> get s \<le> get t"

definition seq_gt :: "SequenceNumber \<Rightarrow> SequenceNumber \<Rightarrow> bool" where
  "seq_gt s t \<longleftrightarrow> get s > get t"

definition seq_ge :: "SequenceNumber \<Rightarrow> SequenceNumber \<Rightarrow> bool" where
  "seq_ge s t \<longleftrightarrow> get s \<ge> get t"

definition seq_minus :: "SequenceNumber \<Rightarrow> SequenceNumber \<Rightarrow> SequenceNumber" where
  "seq_minus s t = seq_ctor (get s - get t)"

definition seq_plus :: "SequenceNumber \<Rightarrow> SequenceNumber \<Rightarrow> SequenceNumber" where
  "seq_plus s t = seq_ctor (get s + get t)"

lemmas seq_op_defs = seq_ctor_def seq_eq_def seq_ne_def seq_lt_def seq_le_def seq_gt_def
  seq_ge_def seq_minus_def seq_plus_def

declare seq_op_defs [simp]

text \<open>The operators make the class a linear order with the arithmetic of the library's
  type classes.\<close>

instantiation SequenceNumber :: linorder
begin

definition less_eq_SequenceNumber :: "SequenceNumber \<Rightarrow> SequenceNumber \<Rightarrow> bool" where
  "s \<le> t \<longleftrightarrow> seq_le s t"

definition less_SequenceNumber :: "SequenceNumber \<Rightarrow> SequenceNumber \<Rightarrow> bool" where
  "s < t \<longleftrightarrow> seq_lt s t"

instance
  by standard
    (auto simp: less_eq_SequenceNumber_def less_SequenceNumber_def SequenceNumber.expand)

end

instantiation SequenceNumber :: "{plus, minus}"
begin

definition plus_SequenceNumber :: "SequenceNumber \<Rightarrow> SequenceNumber \<Rightarrow> SequenceNumber" where
  "s + t = seq_plus s t"

definition minus_SequenceNumber :: "SequenceNumber \<Rightarrow> SequenceNumber \<Rightarrow> SequenceNumber" where
  "s - t = seq_minus s t"

instance ..

end

instance SequenceNumber :: finite
proof
  have "(UNIV :: SequenceNumber set) = range SequenceNumber"
    by (metis SequenceNumber.exhaust surj_def)
  then show "finite (UNIV :: SequenceNumber set)"
    by (metis finite_imageI finite)
qed

subsection \<open>Sequence numbers as natural numbers\<close>

definition sn :: "SequenceNumber \<Rightarrow> nat" where
  "sn s = unat (get s)"

definition seq_of :: "nat \<Rightarrow> SequenceNumber" where
  "seq_of n = SequenceNumber (of_nat n)"

lemma sn_bound [simp]: "sn s < 4294967296"
  by (simp add: sn_def)

lemma seq_le_iff [seq_simps]: "s \<le> t \<longleftrightarrow> sn s \<le> sn t"
  by (simp add: less_eq_SequenceNumber_def sn_def word_le_nat_alt)

lemma seq_less_iff [seq_simps]: "s < t \<longleftrightarrow> sn s < sn t"
  by (simp add: less_SequenceNumber_def sn_def word_less_nat_alt)

lemma sn_inject [simp]: "sn s = sn t \<longleftrightarrow> s = t"
  by (cases s; cases t) (simp add: sn_def word_unat_eq_iff)

lemma seq_eq_iff: "s = t \<longleftrightarrow> sn s = sn t"
  by simp

text \<open>The six relational operators are those of one linear order.\<close>

lemma seq_relations:
  "seq_eq s t \<longleftrightarrow> s = t" "seq_ne s t \<longleftrightarrow> s \<noteq> t" "seq_lt s t \<longleftrightarrow> s < t"
  "seq_le s t \<longleftrightarrow> s \<le> t" "seq_gt s t \<longleftrightarrow> t < s" "seq_ge s t \<longleftrightarrow> t \<le> s"
  by (auto simp: less_eq_SequenceNumber_def less_SequenceNumber_def
      intro: SequenceNumber.expand)

lemma sn_seq_of: "n < 4294967296 \<Longrightarrow> sn (seq_of n) = n"
  by (simp add: sn_def seq_of_def unat_of_nat)

lemma seq_of_sn [simp]: "seq_of (sn s) = s"
  by (simp add: sn_def seq_of_def)

lemma sn_Min [simp]: "sn (SequenceNumber 0) = 0"
  by (simp add: sn_def)

lemma sn_update: "sn s < 4294967295 \<Longrightarrow> sn (update_seq s) = Suc (sn s)"
  by (simp add: sn_def update_seq_def unat_word_ariths)

lemma sn_update_wrap: "sn s = 4294967295 \<Longrightarrow> sn (update_seq s) = 0"
  by (simp add: sn_def update_seq_def unat_word_ariths)

lemma sn_update_mod: "sn (update_seq s) = Suc (sn s) mod 4294967296"
  by (simp add: sn_def update_seq_def unat_word_ariths)

lemma sn_update_less: "s < t \<Longrightarrow> sn (update_seq s) = Suc (sn s)"
  using sn_bound [of t] by (intro sn_update) (simp add: seq_less_iff del: sn_bound)

lemma update_seq_le_iff: "s < t \<Longrightarrow> update_seq s \<le> x \<longleftrightarrow> s < x"
  using sn_update_less [of s t] by (auto simp: seq_le_iff seq_less_iff)

text \<open>A non-empty interval is its first number and the rest.\<close>

lemma seq_interval_split:
  assumes "s < t"
  shows "{x. s \<le> x \<and> x < t} = insert s {x. update_seq s \<le> x \<and> x < t}"
  using assms unfolding update_seq_le_iff [OF assms] by (auto simp: order_le_less)

lemma sn_minus: "t \<le> s \<Longrightarrow> sn (s - t) = sn s - sn t"
  by (simp add: sn_def minus_SequenceNumber_def less_eq_SequenceNumber_def unat_sub)

lemma inv_update_update_seq [simp]: "inv_update_seq (update_seq s) = s"
  by (simp add: inv_update_seq_def update_seq_def)

lemma update_inv_update_seq [simp]: "update_seq (inv_update_seq s) = s"
  by (simp add: inv_update_seq_def update_seq_def)

lemma update_seq_neq [simp]: "update_seq s \<noteq> s"
  by (cases s) (simp add: update_seq_def)

end
