(* ===== verification/Packet.thy ===== *)
theory Packet
  imports SeqNum
begin

text \<open>
  The wire format: packet.hpp and packet.cpp. The packet kinds, the class \<open>Packet\<close>,
  the UDP-style checksum, \<open>to_bytes\<close> and \<open>from_bytes\<close>. The lemmas show that the checksum
  is the ones'-complement sum of the 16-bit words, that decoding inverts encoding, that a
  corrupted octet is always detected, and exactly which inputs make the decoder read
  outside its buffer.
\<close>

subsection \<open>Packet kinds\<close>

text \<open>
  \<open>enum class PacketKind : uint8_t\<close>: the underlying type is fixed, so the cast in
  \<open>from_bytes\<close> yields a value for each of the 256 octets; \<open>OtherKind\<close> holds the values
  without an enumerator.
\<close>

datatype PacketKind =
    NoKind
  | Data
  | DataAck
  | DataPush
  | DataPushAck
  | DataStop
  | DataStopAck
  | ConnReq
  | ConnAck
  | DisconnReq
  | DisconnAck
  | OtherKind u8

definition kind_of_byte :: "u8 \<Rightarrow> PacketKind" where
  "kind_of_byte b =
     (if b = 0 then NoKind else if b = 1 then Data else if b = 2 then DataAck
      else if b = 3 then DataPush else if b = 4 then DataPushAck
      else if b = 5 then DataStop else if b = 6 then DataStopAck
      else if b = 7 then ConnReq else if b = 8 then ConnAck
      else if b = 9 then DisconnReq else if b = 10 then DisconnAck
      else OtherKind b)"

fun byte_of_kind :: "PacketKind \<Rightarrow> u8" where
  "byte_of_kind NoKind = 0"
| "byte_of_kind Data = 1"
| "byte_of_kind DataAck = 2"
| "byte_of_kind DataPush = 3"
| "byte_of_kind DataPushAck = 4"
| "byte_of_kind DataStop = 5"
| "byte_of_kind DataStopAck = 6"
| "byte_of_kind ConnReq = 7"
| "byte_of_kind ConnAck = 8"
| "byte_of_kind DisconnReq = 9"
| "byte_of_kind DisconnAck = 10"
| "byte_of_kind (OtherKind b) = b"

text \<open>The representation: \<open>OtherKind\<close> stands only for an octet that is no enumerator. It holds of
  every decoded octet; the kinds the two ends send are in Wire.\<close>

definition kind_ok :: "PacketKind \<Rightarrow> bool" where
  "kind_ok k \<longleftrightarrow> (case k of OtherKind b \<Rightarrow> 10 < b | _ \<Rightarrow> True)"

definition get_ack_kind :: "PacketKind \<Rightarrow> PacketKind option" where
  "get_ack_kind k =
     (if k = Data then Some DataAck
      else if k = DataPush then Some DataPushAck
      else if k = DataStop then Some DataStopAck
      else if k = ConnReq then Some ConnAck
      else if k = DisconnReq then Some DisconnAck
      else None)"

fun kind_to_string :: "PacketKind \<Rightarrow> string" where
  "kind_to_string NoKind = ''None''"
| "kind_to_string Data = ''Data''"
| "kind_to_string DataAck = ''DataAck''"
| "kind_to_string DataPush = ''DataPush''"
| "kind_to_string DataPushAck = ''DataPushAck''"
| "kind_to_string DataStop = ''DataStop''"
| "kind_to_string DataStopAck = ''DataStopAck''"
| "kind_to_string ConnReq = ''ConnReq''"
| "kind_to_string ConnAck = ''ConnAck''"
| "kind_to_string DisconnReq = ''DisconnReq''"
| "kind_to_string DisconnAck = ''DisconnAck''"
| "kind_to_string (OtherKind _) = ''Unknown''"

lemma kind_of_byte_ok [simp]: "kind_ok (kind_of_byte b)"
proof -
  have "10 < b" if "b \<noteq> 0" "b \<noteq> 1" "b \<noteq> 2" "b \<noteq> 3" "b \<noteq> 4" "b \<noteq> 5" "b \<noteq> 6" "b \<noteq> 7" "b \<noteq> 8"
      "b \<noteq> 9" "b \<noteq> 10"
    using that unfolding word_less_nat_alt word_unat_eq_iff by simp presburger
  then show ?thesis by (simp add: kind_of_byte_def kind_ok_def)
qed

lemma kind_of_byte_of_kind [simp]: "kind_ok k \<Longrightarrow> kind_of_byte (byte_of_kind k) = k"
  by (cases k) (auto simp: kind_of_byte_def kind_ok_def)

lemma byte_of_kind_of_byte [simp]: "byte_of_kind (kind_of_byte b) = b"
  by (simp add: kind_of_byte_def)

subsection \<open>Packets\<close>

record Packet =
  version :: u16
  kind :: PacketKind
  seq :: SequenceNumber
  payload :: bytes

definition NKURDT_VERSION :: u16 where "NKURDT_VERSION = 1"
definition NKURDT_MAX_PACKET_SIZE :: nat where "NKURDT_MAX_PACKET_SIZE = 8192"
definition NKURDT_MAX_PAYLOAD_SIZE :: nat where
  "NKURDT_MAX_PAYLOAD_SIZE = NKURDT_MAX_PACKET_SIZE - 14"

text \<open>The four-argument constructor.\<close>

definition mk_packet :: "u16 \<Rightarrow> PacketKind \<Rightarrow> SequenceNumber \<Rightarrow> bytes \<Rightarrow> Packet" where
  "mk_packet v k s pl = \<lparr>version = v, kind = k, seq = s, payload = pl\<rparr>"

definition is_ack :: "Packet \<Rightarrow> bool" where
  "is_ack p \<longleftrightarrow> kind p = DataAck \<or> kind p = DataPushAck \<or> kind p = DataStopAck
     \<or> kind p = ConnAck \<or> kind p = DisconnAck"

text \<open>The comparison operators and the hash look at the sequence number only.\<close>

definition packet_eq :: "Packet \<Rightarrow> Packet \<Rightarrow> bool" where
  "packet_eq p q \<longleftrightarrow> seq p = seq q"

definition packet_less :: "Packet \<Rightarrow> Packet \<Rightarrow> bool" where
  "packet_less p q \<longleftrightarrow> seq p < seq q"

definition packet_le :: "Packet \<Rightarrow> Packet \<Rightarrow> bool" where
  "packet_le p q \<longleftrightarrow> seq p \<le> seq q"

definition packet_ne :: "Packet \<Rightarrow> Packet \<Rightarrow> bool" where
  "packet_ne p q \<longleftrightarrow> seq p \<noteq> seq q"

definition packet_gt :: "Packet \<Rightarrow> Packet \<Rightarrow> bool" where
  "packet_gt p q \<longleftrightarrow> seq p > seq q"

definition packet_ge :: "Packet \<Rightarrow> Packet \<Rightarrow> bool" where
  "packet_ge p q \<longleftrightarrow> seq p \<ge> seq q"

definition packet_hash :: "(u32 \<Rightarrow> size_t) \<Rightarrow> Packet \<Rightarrow> size_t" where
  "packet_hash h p = h (get (seq p))"

subsection \<open>The checksum\<close>

text \<open>
  The loop over pairs of octets, by index as in the source. With an empty vector
  \<open>bytes.size() - 1\<close> wraps to the largest \<open>size_t\<close> and the loop reads outside the
  vector, so \<open>calc_checksum\<close> faults there; otherwise the subtraction is exact.
\<close>

function sum_words :: "bytes \<Rightarrow> nat \<Rightarrow> u32 \<Rightarrow> u32" where
  "sum_words bs i acc =
     (if i < length bs - 1
      then sum_words bs (i + 2) (acc + ucast (le16 (bs ! i) (bs ! (i + 1))))
      else acc)"
  by pat_completeness auto
termination
  by (relation "measure (\<lambda>(bs, i, acc). length bs - i)") auto

lemma unat_fold_step:
  "unat ((acc AND 0xFFFF) + drop_bit 16 (acc :: u32)) = unat acc mod 65536 + unat acc div 65536"
proof -
  have "unat acc div 65536 < 65536"
    using unat_u32_less [of acc] by (simp add: less_mult_imp_div_less)
  then have "unat acc mod 65536 + unat acc div 65536 < 4294967296"
    using mod_less_divisor [of 65536 "unat acc"] by linarith
  then show ?thesis
    by (simp add: unat_u32_add unat_and_FFFF unat_drop_bit_16)
qed

text \<open>\<open>while (sum >> 16) sum = (sum & 0xFFFF) + (sum >> 16);\<close>\<close>

function fold_carries :: "u32 \<Rightarrow> u32" where
  "fold_carries acc =
     (if drop_bit 16 acc \<noteq> 0
      then fold_carries ((acc AND 0xFFFF) + drop_bit 16 acc)
      else acc)"
  by pat_completeness auto
termination
proof (relation "measure unat")
  fix acc :: u32
  assume "drop_bit 16 acc \<noteq> 0"
  then have d: "0 < unat acc div 65536"
    by (metis unat_drop_bit_16 unat_eq_zero neq0_conv)
  have "unat ((acc AND 0xFFFF) + drop_bit 16 acc) = unat acc mod 65536 + unat acc div 65536"
    by (rule unat_fold_step)
  also have "\<dots> < unat acc mod 65536 + 65536 * (unat acc div 65536)"
    using d by linarith
  finally show "((acc AND 0xFFFF) + drop_bit 16 acc, acc) \<in> measure unat"
    by simp
qed simp

declare sum_words.simps [simp del] fold_carries.simps [simp del]

definition calc_checksum :: "bytes \<Rightarrow> u16 result" where
  "calc_checksum bs =
     (if bs = [] then Inl OutOfBounds
      else
        let acc = sum_words bs 0 0;
            acc = (if length bs mod 2 = 1
                   then acc + ucast (ucast (bs ! (length bs - 1)) :: u16) else acc)
        in Inr (ucast (NOT (fold_carries acc))))"

text \<open>
  The specification: the acc of the 16-bit little-endian words of the datagram as a
  natural number, an odd last octet counting as a word of its own.
\<close>

fun words_total :: "bytes \<Rightarrow> nat" where
  "words_total (a # b # bs) = unat a + 256 * unat b + words_total bs"
| "words_total [a] = unat a"
| "words_total [] = 0"

text \<open>The same traversal as the loop, by structural recursion.\<close>

fun pair_sum :: "bytes \<Rightarrow> u32 \<Rightarrow> u32" where
  "pair_sum (a # b # bs) acc = pair_sum bs (acc + ucast (le16 a b))"
| "pair_sum [a] acc = acc"
| "pair_sum [] acc = acc"

lemma sum_words_pair_sum: "sum_words bs i acc = pair_sum (drop i bs) acc"
proof (induction bs i acc rule: sum_words.induct)
  case (1 bs i acc)
  show ?case
  proof (cases "i < length bs - 1")
    case True
    then have "drop i bs = bs ! i # bs ! (i + 1) # drop (i + 2) bs"
      by (simp add: Cons_nth_drop_Suc)
    with True 1 show ?thesis
      by (simp add: sum_words.simps [of bs i acc])
  next
    case False
    then have "length (drop i bs) \<le> 1" by simp
    then have "drop i bs = [] \<or> (\<exists>a. drop i bs = [a])"
      by (cases "drop i bs") auto
    with False show ?thesis
      by (auto simp: sum_words.simps [of bs i acc])
  qed
qed

lemma words_total_bound: "words_total bs \<le> 65535 * ((length bs + 1) div 2)"
proof (induction bs rule: words_total.induct)
  case (1 a b bs)
  have "unat a \<le> 255" "unat b \<le> 255"
    using unat_u8_less [of a] unat_u8_less [of b] by linarith+
  with 1 show ?case by simp
next
  case (2 a)
  have "unat a < 256" by simp
  then show ?case by (simp del: unat_u8_less)
qed simp

text \<open>Below 2 ^ 17 octets the 32-bit accumulator cannot overflow.\<close>

lemma unat_pair_sum:
  "unat acc + words_total bs < 4294967296 \<Longrightarrow>
     unat (if length bs mod 2 = 1 then pair_sum bs acc + ucast (bs ! (length bs - 1))
           else pair_sum bs acc) = unat acc + words_total bs"
proof (induction bs acc rule: pair_sum.induct)
  case (1 a b bs acc)
  have "unat (ucast (le16 a b) :: u32) = unat a + 256 * unat b"
    by (simp add: unat_le16)
  moreover from this have "unat (acc + ucast (le16 a b)) = unat acc + (unat a + 256 * unat b)"
    using "1.prems" by (subst unat_u32_add) auto
  ultimately have IH: "unat (if length bs mod 2 = 1
      then pair_sum bs (acc + ucast (le16 a b)) + ucast (bs ! (length bs - 1))
      else pair_sum bs (acc + ucast (le16 a b))) = unat acc + words_total (a # b # bs)"
    using "1.IH" "1.prems" by simp
  show ?case
  proof (cases "length bs mod 2 = 1")
    case True
    then have "0 < length bs" by (cases bs) auto
    then have "(a # b # bs) ! (length (a # b # bs) - 1) = bs ! (length bs - 1)"
      by (cases bs) auto
    with True IH show ?thesis by (simp del: words_total.simps)
  next
    case False
    with IH show ?thesis by simp
  qed
next
  case (2 a acc)
  then show ?case by (simp add: unat_u32_add)
qed simp

lemma fold_carries_less: "unat (fold_carries acc) < 65536"
proof (induction acc rule: fold_carries.induct)
  case (1 acc)
  show ?case
  proof (cases "drop_bit 16 acc = 0")
    case True
    then have "unat acc div 65536 = 0" by (metis unat_0 unat_drop_bit_16)
    then show ?thesis by (simp add: fold_carries.simps [of acc] True)
  next
    case False
    with 1 show ?thesis by (simp add: fold_carries.simps [of acc])
  qed
qed

lemma fold_carries_mod: "unat (fold_carries acc) mod 65535 = unat acc mod 65535"
proof (induction acc rule: fold_carries.induct)
  case (1 acc)
  have "unat acc = unat acc mod 65536 + 65536 * (unat acc div 65536)" by simp
  also have "\<dots> = (unat acc mod 65536 + unat acc div 65536) + 65535 * (unat acc div 65536)"
    by simp
  finally have "unat acc mod 65535 = (unat acc mod 65536 + unat acc div 65536) mod 65535"
    by (metis mod_mult_self2)
  with 1 show ?case
    by (cases "drop_bit 16 acc = 0") (simp_all add: fold_carries.simps [of acc] unat_fold_step)
qed

lemma fold_carries_zero: "fold_carries acc = 0 \<longleftrightarrow> acc = 0"
proof (induction acc rule: fold_carries.induct)
  case (1 acc)
  show ?case
  proof (cases "drop_bit 16 acc = 0")
    case True
    then show ?thesis by (simp add: fold_carries.simps [of acc])
  next
    case False
    have "(acc AND 0xFFFF) + drop_bit 16 acc = 0 \<longleftrightarrow> unat acc mod 65536 + unat acc div 65536 = 0"
      by (metis unat_eq_zero unat_fold_step)
    also have "\<dots> \<longleftrightarrow> acc = 0"
      by (metis add_is_0 div_mult_mod_eq mult_0 unat_eq_zero mod_0 div_0)
    finally show ?thesis
      using False 1 by (simp add: fold_carries.simps [of acc])
  qed
qed

definition checksum_acc :: "bytes \<Rightarrow> u32" where
  "checksum_acc bs =
     (if length bs mod 2 = 1 then pair_sum bs 0 + ucast (bs ! (length bs - 1)) else pair_sum bs 0)"

lemma ucast_byte_u16_u32: "(ucast (ucast (b :: u8) :: u16) :: u32) = ucast b"
  by (simp add: word_unat_eq_iff)

lemma calc_checksum_acc:
  "bs \<noteq> [] \<Longrightarrow> calc_checksum bs = Inr (ucast (NOT (fold_carries (checksum_acc bs))))"
  by (simp add: calc_checksum_def checksum_acc_def sum_words_pair_sum ucast_byte_u16_u32)

lemma unat_checksum_acc:
  assumes "length bs < 131072"
  shows "unat (checksum_acc bs) = words_total bs"
proof -
  have "(length bs + 1) div 2 \<le> 65536" using assms by linarith
  then have "65535 * ((length bs + 1) div 2) \<le> 65535 * 65536" by simp
  with words_total_bound [of bs] have "words_total bs < 4294967296" by linarith
  then show ?thesis
    using unat_pair_sum [of 0 bs] by (simp add: checksum_acc_def)
qed

lemma ucast_NOT: "(ucast (NOT (w :: u32)) :: u16) = NOT (ucast w)"
  by (rule bit_word_eqI) (simp add: bit_simps)

lemma ucast_not_zero_iff:
  assumes "unat (w :: u32) < 65536"
  shows "(ucast (NOT w) :: u16) = 0 \<longleftrightarrow> unat w = 65535"
proof -
  have "(ucast (NOT w) :: u16) = 0 \<longleftrightarrow> (ucast w :: u16) = NOT 0"
    unfolding ucast_NOT by (metis bit.double_compl)
  also have "(NOT 0 :: u16) = 65535" by simp
  also have "(ucast w :: u16) = 65535 \<longleftrightarrow> unat (ucast w :: u16) = 65535"
    by (simp only: word_unat_eq_iff) simp
  also have "unat (ucast w :: u16) = unat w"
    using assms by (simp add: unat_ucast_small)
  finally show ?thesis .
qed

lemma eq_65535_iff:
  assumes "(n :: nat) < 65536"
  shows "n = 65535 \<longleftrightarrow> n mod 65535 = 0 \<and> n \<noteq> 0"
proof (intro iffI)
  assume "n mod 65535 = 0 \<and> n \<noteq> 0"
  then obtain k where "n = 65535 * k" "0 < k" by (auto elim!: dvdE simp: dvd_eq_mod_eq_0 [symmetric])
  with assms show "n = 65535" by (cases "k = 1") auto
qed simp

text \<open>The checksum is zero exactly when the words add up to a positive multiple of 65535.\<close>

lemma calc_checksum_zero_iff:
  assumes "bs \<noteq> []" and "length bs < 131072"
  shows "calc_checksum bs = Inr 0 \<longleftrightarrow> 0 < words_total bs \<and> 65535 dvd words_total bs"
proof -
  let ?f = "fold_carries (checksum_acc bs)"
  have acc: "unat (checksum_acc bs) = words_total bs"
    using assms(2) by (rule unat_checksum_acc)
  have less: "unat ?f < 65536" by (rule fold_carries_less)
  have "unat ?f mod 65535 = words_total bs mod 65535"
    using fold_carries_mod [of "checksum_acc bs"] acc by simp
  moreover have "unat ?f = 0 \<longleftrightarrow> words_total bs = 0"
    using fold_carries_zero [of "checksum_acc bs"] acc by (metis unat_eq_zero)
  ultimately have "unat ?f = 65535 \<longleftrightarrow> 0 < words_total bs \<and> words_total bs mod 65535 = 0"
    using eq_65535_iff [OF less] by auto
  then show ?thesis
    using assms(1) less by (simp add: calc_checksum_acc ucast_not_zero_iff dvd_eq_mod_eq_0)
qed

subsection \<open>Encoding and decoding\<close>

text \<open>The twelve octets of the header, with the checksum left blank.\<close>

definition header_bytes :: "Packet \<Rightarrow> bytes" where
  "header_bytes p =
     [78, 75,
      ucast (version p AND 0xFF), ucast (drop_bit 8 (version p) AND 0xFF),
      0, 0,
      byte_of_kind (kind p),
      0,
      ucast (get (seq p) AND 0xFF), ucast (drop_bit 8 (get (seq p)) AND 0xFF),
      ucast (drop_bit 16 (get (seq p)) AND 0xFF), ucast (drop_bit 24 (get (seq p)) AND 0xFF)]"

text \<open>The length field and the payload, when the payload is neither empty nor too long.\<close>

definition payload_bytes :: "Packet \<Rightarrow> bytes" where
  "payload_bytes p =
     (if 0 < length (payload p) \<and> length (payload p) \<le> 0xFFFF
      then let n = (of_nat (length (payload p)) :: size_t)
           in [ucast (n AND 0xFF), ucast (drop_bit 8 n AND 0xFF)] @ payload p
      else [])"

text \<open>The capacity \<open>to_bytes\<close> reserves.\<close>

definition reserve_size :: "Packet \<Rightarrow> nat" where
  "reserve_size p =
     12 + (if length (payload p) = 0 \<or> 0xFFFF < length (payload p) then 0
           else 2 + length (payload p))"

definition to_bytes :: "Packet \<Rightarrow> bytes" where
  "to_bytes p =
     (let bs = header_bytes p @ payload_bytes p
      in case calc_checksum bs of
           Inl _ \<Rightarrow> bs
         | Inr c \<Rightarrow> bs[4 := ucast (c AND 0xFF), 5 := ucast (drop_bit 8 c AND 0xFF)])"

text \<open>The sequence number read from four octets, low octet first.\<close>

definition le32 :: "u8 \<Rightarrow> u8 \<Rightarrow> u8 \<Rightarrow> u8 \<Rightarrow> u32" where
  "le32 a b c d = ucast a OR push_bit 8 (ucast b) OR push_bit 16 (ucast c) OR push_bit 24 (ucast d)"

text \<open>
  \<open>from_bytes\<close>: a fault where the code reads outside the vector, otherwise the optional
  packet. A vector of 13 octets passes \<open>bytes.size() > 12\<close> and \<open>bytes[13]\<close> is read.
\<close>

definition from_bytes :: "bytes \<Rightarrow> Packet option result" where
  "from_bytes bs =
     bind_result (calc_checksum bs) (\<lambda>c.
       if c \<noteq> 0 then Inr None
       else if length bs < 12 then Inr None
       else if bs ! 0 \<noteq> 78 \<or> bs ! 1 \<noteq> 75 then Inr None
       else
         let v = le16 (bs ! 2) (bs ! 3);
             k = kind_of_byte (bs ! 6)
         in if bs ! 7 \<noteq> 0 then Inr None
            else
              let s = SequenceNumber (le32 (bs ! 8) (bs ! 9) (bs ! 10) (bs ! 11))
              in if 12 < length bs
                 then if length bs = 13 then Inl OutOfBounds
                      else
                        let n = (ucast (bs ! 12) OR push_bit 8 (ucast (bs ! 13)) :: size_t)
                        in if length bs < 14 + unat n then Inr None
                           else Inr (Some (mk_packet v k s (take (unat n) (drop 14 bs))))
                 else Inr (Some (mk_packet v k s [])))"

definition packet_ok :: "Packet \<Rightarrow> bool" where
  "packet_ok p \<longleftrightarrow> kind_ok (kind p) \<and> length (payload p) \<le> 0xFFFF"

lemma byte_ranges: "n < 8 \<or> 8 \<le> n \<and> n < 16 \<or> 16 \<le> n \<and> n < 24 \<or> 24 \<le> (n :: nat)"
  by linarith

lemma le32_split:
  "le32 (ucast (w AND 0xFF)) (ucast (drop_bit 8 w AND 0xFF))
        (ucast (drop_bit 16 w AND 0xFF)) (ucast (drop_bit 24 w AND 0xFF)) = w"
proof (rule bit_word_eqI)
  have m: "(0xFF :: u32) = mask 8" by (simp add: mask_eq_exp_minus_1)
  fix n assume "n < LENGTH(32)"
  then show "bit (le32 (ucast (w AND 0xFF)) (ucast (drop_bit 8 w AND 0xFF))
        (ucast (drop_bit 16 w AND 0xFF)) (ucast (drop_bit 24 w AND 0xFF))) n = bit w n"
    unfolding m using byte_ranges [of n] by (elim disjE) (auto simp: le32_def bit_simps)
qed

lemma length_field_split:
  assumes "n < 65536"
  shows "(ucast (ucast ((of_nat n :: size_t) AND 0xFF) :: u8) OR
          push_bit 8 (ucast (ucast (drop_bit 8 (of_nat n :: size_t) AND 0xFF) :: u8)) :: size_t) = of_nat n"
proof (rule bit_word_eqI)
  have m: "(0xFF :: size_t) = mask 8" by (simp add: mask_eq_exp_minus_1)
  have high: "\<not> bit n k" if "16 \<le> k" for k
  proof -
    have "n < 2 ^ 16" using assms by simp
    also have "(2::nat) ^ 16 \<le> 2 ^ k" using that by (rule power_increasing) simp
    finally show ?thesis by (simp add: bit_iff_odd)
  qed
  fix k assume "k < LENGTH(64)"
  then show "bit (ucast (ucast ((of_nat n :: size_t) AND 0xFF) :: u8) OR
          push_bit 8 (ucast (ucast (drop_bit 8 (of_nat n :: size_t) AND 0xFF) :: u8)) :: size_t) k
        = bit (of_nat n :: size_t) k"
    unfolding m using high [of k] byte_ranges [of k] by (elim disjE) (auto simp: bit_simps)
qed

lemma length_header_bytes [simp]: "length (header_bytes p) = 12"
  by (simp add: header_bytes_def)

lemma header_bytes_neq [simp]: "header_bytes p \<noteq> []"
  by (simp add: header_bytes_def)

lemma list_update_4_5:
  "(h0 # h1 # h2 # h3 # x # y # rest)[4 := a, 5 := b] = h0 # h1 # h2 # h3 # a # b # rest"
  by (simp add: numeral_eq_Suc)

text \<open>The checksum field is written into the blank of a datagram with a zero field there.\<close>

lemma words_total_checksum_field:
  assumes "bs = h0 # h1 # h2 # h3 # 0 # 0 # rest"
  shows "words_total (bs[4 := a, 5 := b]) = words_total bs + unat (le16 a b)"
  by (simp add: assms list_update_4_5 unat_le16)

lemma unat_NOT_u16: "unat (NOT (x :: u16)) = 65535 - unat x"
proof -
  have "NOT x = - 1 - x" by (simp add: not_eq_complement)
  moreover have "x \<le> - 1" by simp
  moreover have "unat (- 1 :: u16) = 65535" by (simp add: unsigned_minus_1_eq_mask mask_eq_exp_minus_1)
  ultimately show ?thesis by (simp only: unat_sub)
qed

lemma unat_checksum:
  assumes "bs \<noteq> []" and "length bs < 131072" and "calc_checksum bs = Inr c"
  shows "(words_total bs + unat c) mod 65535 = 0"
proof -
  let ?f = "fold_carries (checksum_acc bs)"
  have less: "unat ?f < 65536" by (rule fold_carries_less)
  have "c = NOT (ucast ?f)"
    using assms by (simp add: calc_checksum_acc ucast_NOT)
  then have c: "unat c = 65535 - unat ?f"
    using less by (simp add: unat_NOT_u16 unat_ucast_small)
  have "words_total bs mod 65535 = unat ?f mod 65535"
    using fold_carries_mod [of "checksum_acc bs"] unat_checksum_acc [OF assms(2)] by simp
  then have "(words_total bs + unat c) mod 65535 = (unat ?f + unat c) mod 65535"
    by (rule mod_add_cong) simp
  also have "unat ?f + unat c = 65535" using c less by linarith
  finally show ?thesis by simp
qed

lemma length_payload_bytes:
  "length (payload_bytes p) =
     (if 0 < length (payload p) \<and> length (payload p) \<le> 0xFFFF then 2 + length (payload p) else 0)"
  by (simp add: payload_bytes_def Let_def)

lemma to_bytes_blank:
  obtains c where "calc_checksum (header_bytes p @ payload_bytes p) = Inr c"
    and "to_bytes p = (header_bytes p @ payload_bytes p)
           [4 := ucast (c AND 0xFF), 5 := ucast (drop_bit 8 c AND 0xFF)]"
proof -
  obtain c where "calc_checksum (header_bytes p @ payload_bytes p) = Inr c"
    by (simp add: calc_checksum_acc)
  then show thesis using that by (simp add: to_bytes_def Let_def)
qed

lemma length_to_bytes: "length (to_bytes p) = reserve_size p"
  by (rule to_bytes_blank [of p]) (auto simp: length_payload_bytes reserve_size_def)

lemma length_to_bytes_bound: "length (to_bytes p) < 65600"
  by (simp add: length_to_bytes reserve_size_def)

lemma words_total_to_bytes: "0 < words_total (to_bytes p) \<and> 65535 dvd words_total (to_bytes p)"
proof -
  let ?b = "header_bytes p @ payload_bytes p"
  obtain c where c: "calc_checksum ?b = Inr c"
    and t: "to_bytes p = ?b[4 := ucast (c AND 0xFF), 5 := ucast (drop_bit 8 c AND 0xFF)]"
    by (rule to_bytes_blank)
  obtain h2 h3 rest where b: "?b = 78 # 75 # h2 # h3 # 0 # 0 # rest"
    by (simp add: header_bytes_def)
  have "words_total (to_bytes p) = words_total ?b + unat c"
    unfolding t by (subst words_total_checksum_field [OF b]) (simp add: le16_split)
  moreover have "length ?b < 131072" by (simp add: length_payload_bytes)
  then have "(words_total ?b + unat c) mod 65535 = 0"
    using c by (intro unat_checksum) auto
  moreover have "0 < words_total ?b" by (simp add: b)
  ultimately show ?thesis by (simp add: dvd_eq_mod_eq_0)
qed

lemma to_bytes_neq [simp]: "to_bytes p \<noteq> []"
  using length_to_bytes [of p] by (auto simp: reserve_size_def)

lemma checksum_to_bytes [wire_simps]: "calc_checksum (to_bytes p) = Inr 0"
  using words_total_to_bytes [of p] length_to_bytes_bound [of p]
  by (subst calc_checksum_zero_iff) auto

text \<open>The octets of an encoded packet, field by field.\<close>

lemma to_bytes_shape:
  obtains c0 c1 where "to_bytes p =
    [78, 75, ucast (version p AND 0xFF), ucast (drop_bit 8 (version p) AND 0xFF), c0, c1,
      byte_of_kind (kind p), 0,
      ucast (get (seq p) AND 0xFF), ucast (drop_bit 8 (get (seq p)) AND 0xFF),
      ucast (drop_bit 16 (get (seq p)) AND 0xFF), ucast (drop_bit 24 (get (seq p)) AND 0xFF)]
    @ payload_bytes p"
  by (rule to_bytes_blank [of p]) (simp only: header_bytes_def append_Cons append_Nil list_update_4_5)

lemma nth_header:
  "([b0, b1, b2, b3, b4, b5, b6, b7, b8, b9, b10, b11] @ rest) ! 0 = b0"
  "([b0, b1, b2, b3, b4, b5, b6, b7, b8, b9, b10, b11] @ rest) ! 1 = b1"
  "([b0, b1, b2, b3, b4, b5, b6, b7, b8, b9, b10, b11] @ rest) ! 2 = b2"
  "([b0, b1, b2, b3, b4, b5, b6, b7, b8, b9, b10, b11] @ rest) ! 3 = b3"
  "([b0, b1, b2, b3, b4, b5, b6, b7, b8, b9, b10, b11] @ rest) ! 6 = b6"
  "([b0, b1, b2, b3, b4, b5, b6, b7, b8, b9, b10, b11] @ rest) ! 7 = b7"
  "([b0, b1, b2, b3, b4, b5, b6, b7, b8, b9, b10, b11] @ rest) ! 8 = b8"
  "([b0, b1, b2, b3, b4, b5, b6, b7, b8, b9, b10, b11] @ rest) ! 9 = b9"
  "([b0, b1, b2, b3, b4, b5, b6, b7, b8, b9, b10, b11] @ rest) ! 10 = b10"
  "([b0, b1, b2, b3, b4, b5, b6, b7, b8, b9, b10, b11] @ rest) ! 11 = b11"
  by simp_all

lemma decode_header:
  assumes "calc_checksum bs = Inr 0"
    and "bs = [78, 75, b2, b3, b4, b5, b6, 0, b8, b9, b10, b11] @ rest"
  shows "from_bytes bs =
    (if rest = [] then Inr (Some (mk_packet (le16 b2 b3) (kind_of_byte b6)
                                   (SequenceNumber (le32 b8 b9 b10 b11)) []))
     else if length rest = 1 then Inl OutOfBounds
     else let n = (ucast (rest ! 0) OR push_bit 8 (ucast (rest ! 1)) :: size_t)
          in if length rest < 2 + unat n then Inr None
             else Inr (Some (mk_packet (le16 b2 b3) (kind_of_byte b6)
                    (SequenceNumber (le32 b8 b9 b10 b11)) (take (unat n) (drop 2 rest)))))"
proof -
  have l: "length bs = 12 + length rest" by (simp add: assms(2))
  have n: "bs ! 12 = rest ! 0" "bs ! 13 = rest ! 1" "drop 14 bs = drop 2 rest"
    by (simp_all add: assms(2) nth_append numeral_eq_Suc)
  have h: "bs ! 0 = 78" "bs ! 1 = 75" "bs ! 2 = b2" "bs ! 3 = b3" "bs ! 6 = b6" "bs ! 7 = 0"
    "bs ! 8 = b8" "bs ! 9 = b9" "bs ! 10 = b10" "bs ! 11 = b11"
    unfolding assms(2) by (rule nth_header)+
  show ?thesis
    unfolding from_bytes_def assms(1) bind_result_simps h n l Let_def by auto
qed

lemma decode_encode:
  assumes "kind_ok (kind p)"
  shows "from_bytes (to_bytes p) =
           Inr (Some (if length (payload p) \<le> 0xFFFF then p else p\<lparr>payload := []\<rparr>))"
proof -
  obtain c0 c1 where b: "to_bytes p =
    [78, 75, ucast (version p AND 0xFF), ucast (drop_bit 8 (version p) AND 0xFF), c0, c1,
      byte_of_kind (kind p), 0,
      ucast (get (seq p) AND 0xFF), ucast (drop_bit 8 (get (seq p)) AND 0xFF),
      ucast (drop_bit 16 (get (seq p)) AND 0xFF), ucast (drop_bit 24 (get (seq p)) AND 0xFF)]
    @ payload_bytes p"
    by (rule to_bytes_shape)
  have k: "kind_of_byte (byte_of_kind (kind p)) = kind p"
    using assms by simp
  note dec = decode_header [OF checksum_to_bytes b, unfolded le16_split le32_split k]
  show ?thesis
  proof (cases "payload_bytes p = []")
    case True
    then have "payload p = [] \<or> 0xFFFF < length (payload p)"
      by (auto simp: payload_bytes_def Let_def split: if_splits)
    then show ?thesis using True by (auto simp: dec mk_packet_def)
  next
    case False
    let ?n = "length (payload p)"
    have n: "?n < 65536" "0 < ?n" "payload p \<noteq> []"
      using False by (auto simp: payload_bytes_def split: if_splits)
    have u: "unat (of_nat ?n :: size_t) = ?n"
      using n by (simp add: unat_of_nat)
    show ?thesis
      using n by (simp add: dec payload_bytes_def Let_def length_field_split u mk_packet_def)
  qed
qed

lemma decode_encode_ok [wire_simps]:
  "packet_ok p \<Longrightarrow> from_bytes (to_bytes p) = Inr (Some p)"
  by (simp add: decode_encode packet_ok_def)

lemma from_bytes_checksum:
  "from_bytes bs = Inr (Some p) \<Longrightarrow> calc_checksum bs = Inr 0"
  by (auto simp: from_bytes_def bind_result_Inr_iff split: if_splits)

lemma from_bytes_fault:
  "from_bytes bs = Inl e \<longleftrightarrow> e = OutOfBounds \<and> (bs = [] \<or>
     length bs = 13 \<and> calc_checksum bs = Inr 0 \<and> bs ! 0 = 78 \<and> bs ! 1 = 75 \<and> bs ! 7 = 0)"
proof (cases "bs = []")
  case True
  then show ?thesis by (auto simp: from_bytes_def calc_checksum_def)
next
  case False
  then obtain c where "calc_checksum bs = Inr c" by (simp add: calc_checksum_acc)
  with False show ?thesis by (auto simp: from_bytes_def Let_def)
qed

lemma length_field_le16:
  "(ucast (b :: u8) OR push_bit 8 (ucast (c :: u8)) :: size_t) = ucast (le16 b c)"
  by (rule bit_word_eqI) (auto simp: le16_def bit_simps dest: bit_imp_le_length)

lemma unat_length_field: "unat (ucast (le16 b c) :: size_t) = unat (le16 b c)"
  using unat_u16_less [of "le16 b c"] by (simp add: unat_ucast_small del: unat_u16_less)

lemma from_bytes_packet_ok:
  assumes "from_bytes bs = Inr (Some p)"
  shows "packet_ok p"
proof -
  obtain k s n where "p = mk_packet (le16 (bs ! 2) (bs ! 3)) (kind_of_byte k) s (take n (drop 14 bs))"
    and "n \<le> 65535"
  proof (cases "12 < length bs")
    case True
    have "unat (le16 (bs ! 12) (bs ! 13)) \<le> 65535"
      using unat_u16_less [of "le16 (bs ! 12) (bs ! 13)"] by linarith
    with True assms that show thesis
      unfolding from_bytes_def length_field_le16 unat_length_field bind_result_Inr_iff Let_def
      by (auto split: if_splits)
  next
    case False
    with assms that [of _ _ 0] show thesis
      unfolding from_bytes_def bind_result_Inr_iff Let_def by (auto split: if_splits)
  qed
  then show ?thesis by (auto simp: packet_ok_def mk_packet_def)
qed

subsection \<open>The interface of a wire format\<close>

text \<open>
  What the endpoints rely on: an acceptable packet is decoded to itself. Whatever is sent
  over a network that loses, repeats and reorders datagrams, the receiving end never
  decodes a packet that was not sent, and never faults on one that was.
\<close>

locale wire_format =
  fixes encode :: "'p \<Rightarrow> 'd"
    and decode :: "'d \<Rightarrow> 'p option result"
    and ok :: "'p \<Rightarrow> bool"
  assumes decode_encode: "ok p \<Longrightarrow> decode (encode p) = Inr (Some p)"
    and decoded_ok: "decode d = Inr (Some p) \<Longrightarrow> ok p"
begin

lemma encode_inj: "ok p \<Longrightarrow> ok q \<Longrightarrow> encode p = encode q \<Longrightarrow> p = q"
  by (metis decode_encode option.inject sum.inject(2))

lemma decode_sent:
  assumes "\<forall>p \<in> P. ok p" and "d \<in> encode ` P"
  obtains p where "p \<in> P" "d = encode p" "decode d = Inr (Some p)"
  using assms decode_encode by blast

lemma reencode: "decode d = Inr (Some p) \<Longrightarrow> decode (encode p) = Inr (Some p)"
  by (simp add: decode_encode decoded_ok)

end

interpretation wire: wire_format to_bytes from_bytes packet_ok
  by unfold_locales (simp_all add: decode_encode_ok from_bytes_packet_ok)

text \<open>Overwriting one octet changes the sum of the words by the change of that octet.\<close>

lemma words_total_update:
  assumes "i < length bs"
  shows "words_total (bs[i := b]) + 256 ^ (i mod 2) * unat (bs ! i)
       = words_total bs + 256 ^ (i mod 2) * unat b"
  using assms
proof (induction bs arbitrary: i rule: words_total.induct)
  case (1 x y bs)
  consider "i = 0" | "i = 1" | j where "i = Suc (Suc j)"
    by (metis One_nat_def not0_implies_Suc)
  then show ?case
  proof cases
    case 3
    with 1 show ?thesis by simp
  qed (use 1 in simp_all)
qed simp_all

lemma octet_difference_not_multiple:
  assumes "(a :: nat) < 256" "b < 256" "a \<noteq> b" "k = 1 \<or> k = 256"
    and "x + k * a = y + k * b" "65535 dvd x"
  shows "\<not> 65535 dvd y"
proof
  assume "65535 dvd y"
  with \<open>65535 dvd x\<close> obtain u v where "x = 65535 * u" "y = 65535 * v" by (elim dvdE)
  with assms(5) have eq: "65535 * u + k * a = 65535 * v + k * b" by simp
  have "k * a < 65535" "k * b < 65535" using assms(1,2,4) by auto
  with eq have "u = v" by (cases "u < v"; cases "v < u") linarith+
  with eq assms(3,4) show False by auto
qed

lemma corrupted_octet_rejected:
  assumes "length bs < 131072" and "calc_checksum bs = Inr 0"
    and "i < length bs" and "b \<noteq> bs ! i"
  shows "from_bytes (bs[i := b]) = Inr None"
proof -
  have ne: "bs \<noteq> []" using assms(3) by auto
  then have d: "65535 dvd words_total bs"
    using calc_checksum_zero_iff [OF ne assms(1)] assms(2) by simp
  have "unat (bs ! i) \<noteq> unat b" using assms(4) by (simp flip: word_unat_eq_iff)
  moreover have "256 ^ (i mod 2) = (1::nat) \<or> 256 ^ (i mod 2) = (256::nat)"
    by (cases "i mod 2 = 0") auto
  ultimately have "\<not> 65535 dvd words_total (bs[i := b])"
    using words_total_update [OF assms(3), of b, symmetric] d
    by (intro octet_difference_not_multiple [of "unat b" "unat (bs ! i)"]) auto
  then have "calc_checksum (bs[i := b]) \<noteq> Inr 0"
    using ne assms(1) by (subst calc_checksum_zero_iff) auto
  moreover obtain c where "calc_checksum (bs[i := b]) = Inr c"
    using ne by (simp add: calc_checksum_acc)
  ultimately show ?thesis by (simp add: from_bytes_def)
qed

subsection \<open>Properties of the wire format\<close>

text \<open>C16: a packet with a payload of at most 65535 octets and any kind (an enumerator, or an octet
  that is none) is decoded from its encoding.\<close>

theorem packet_roundtrip:
  "kind_ok (kind p) \<Longrightarrow> length (payload p) \<le> 65535 \<Longrightarrow> from_bytes (to_bytes p) = Inr (Some p)"
  by (simp add: decode_encode)

theorem packet_roundtrip_witness:
  "from_bytes (to_bytes (mk_packet 1 Data (SequenceNumber 7) [1, 2, 3])) =
     Inr (Some (mk_packet 1 Data (SequenceNumber 7) [1, 2, 3]))"
  using packet_roundtrip [of "mk_packet 1 Data (SequenceNumber 7) [1, 2, 3]"]
  by (simp add: mk_packet_def kind_ok_def)

text \<open>C18: the decoder has exactly two faults, both reads outside the datagram: the empty
  datagram, whose size minus one wraps in the checksum, and a datagram of 13 octets with a
  valid header, whose length field is read past the end.\<close>

theorem decoder_faults_exactly:
  "from_bytes bs = Inl e \<longleftrightarrow> e = OutOfBounds \<and> (bs = [] \<or>
     length bs = 13 \<and> calc_checksum bs = Inr 0 \<and> bs ! 0 = 78 \<and> bs ! 1 = 75 \<and> bs ! 7 = 0)"
  by (rule from_bytes_fault)

text \<open>C17: damage to any single octet of an encoded packet makes the decoder drop it.\<close>

theorem damaged_packet_dropped:
  assumes "i < length (to_bytes p)" "b \<noteq> to_bytes p ! i"
  shows "from_bytes ((to_bytes p)[i := b]) = Inr None"
  using length_to_bytes_bound [of p] assms
  by (intro corrupted_octet_rejected) (simp_all add: checksum_to_bytes)

theorem damaged_packet_dropped_witness:
  "from_bytes ((to_bytes (mk_packet 1 ConnReq (SequenceNumber 0) []))[0 := 79]) = Inr None"
proof (rule damaged_packet_dropped)
  show "0 < length (to_bytes (mk_packet 1 ConnReq (SequenceNumber 0) []))"
    by (simp add: length_to_bytes reserve_size_def)
  show "79 \<noteq> to_bytes (mk_packet 1 ConnReq (SequenceNumber 0) []) ! 0"
    by (rule to_bytes_shape [of "mk_packet 1 ConnReq (SequenceNumber 0) []"]) simp
qed

text \<open>C19: the folded one's-complement checksum against its arithmetic meaning: it verifies
  exactly when the little-endian 16-bit words add up to a positive multiple of 65535.\<close>

theorem checksum_meaning:
  assumes "bs \<noteq> []" "length bs < 131072"
  shows "calc_checksum bs = Inr 0 \<longleftrightarrow> 0 < words_total bs \<and> words_total bs mod 65535 = 0"
  using calc_checksum_zero_iff [OF assms] by (simp add: dvd_eq_mod_eq_0)

theorem checksum_meaning_witness:
  "(calc_checksum [255, 255] = Inr 0) = (0 < words_total [255, 255] \<and> words_total [255, 255] mod 65535 = 0)"
  using checksum_meaning [of "[255, 255]"] by simp

text \<open>What is decoded, whatever octet it has as its kind, loses nothing when it is encoded again,
  and two packets never share a datagram.\<close>

lemma decoded_again: "from_bytes bs = Inr (Some p) \<Longrightarrow> from_bytes (to_bytes p) = Inr (Some p)"
  by (rule wire.reencode)

lemma distinct_datagrams: "packet_ok p \<Longrightarrow> packet_ok q \<Longrightarrow> to_bytes p = to_bytes q \<Longrightarrow> p = q"
  by (rule wire.encode_inj)

text \<open>The size of an encoded packet is the capacity the code reserves, and a payload as
  large as the sender makes fits the maximum packet size.\<close>

theorem encoded_size:
  "length (to_bytes p) = reserve_size p \<and>
     (NKURDT_MAX_PAYLOAD_SIZE < length (payload p) \<or> length (to_bytes p) \<le> NKURDT_MAX_PACKET_SIZE)"
  by (simp add: length_to_bytes reserve_size_def NKURDT_MAX_PAYLOAD_SIZE_def NKURDT_MAX_PACKET_SIZE_def)
    linarith

text \<open>A payload above 65535 octets is not sent at all: the packet arrives with none.\<close>

theorem oversize_payload_lost:
  "kind_ok (kind p) \<Longrightarrow> 65535 < length (payload p) \<Longrightarrow>
     from_bytes (to_bytes p) = Inr (Some (p\<lparr>payload := []\<rparr>))"
  by (simp add: decode_encode)

theorem oversize_payload_lost_witness:
  "from_bytes (to_bytes (mk_packet 1 Data (SequenceNumber 0) (replicate 65536 1))) =
     Inr (Some (mk_packet 1 Data (SequenceNumber 0) []))"
  using oversize_payload_lost [of "mk_packet 1 Data (SequenceNumber 0) (replicate 65536 1)"]
  by (simp add: mk_packet_def kind_ok_def)

end
