(* ===== verification/ConcQueue.thy ===== *)
theory ConcQueue
  imports SeqNum
begin

text \<open>
  The class \<open>ConcurrentQueue\<close> of concurrency.hpp. Its container is a \<open>std::set\<close>, so the
  queue holds an element at most once and hands out the smallest one first. Every member
  function runs under the queue's mutex and is one atomic operation of the model; a timed
  wait is the operation at the moment the wait ends. The interface the sender relies on is
  the locale \<open>ordered_queue\<close>, interpreted on the model at the end.
\<close>

record 'a ConcurrentQueue =
  container :: "'a set"

definition queue_new :: "'a ConcurrentQueue" where
  "queue_new = \<lparr>container = {}\<rparr>"

definition queue_push :: "'a \<Rightarrow> 'a ConcurrentQueue \<Rightarrow> 'a ConcurrentQueue" where
  "queue_push x q = q\<lparr>container := insert x (container q)\<rparr>"

text \<open>\<open>unsafe_push\<close>: the caller holds the lock.\<close>

definition queue_unsafe_push :: "'a \<Rightarrow> 'a ConcurrentQueue \<Rightarrow> 'a ConcurrentQueue" where
  "queue_unsafe_push x q = q\<lparr>container := insert x (container q)\<rparr>"

text \<open>\<open>*begin()\<close> of an empty set is outside the container.\<close>

definition queue_check_front ::
  "('a::linorder \<Rightarrow> bool) \<Rightarrow> 'a ConcurrentQueue \<Rightarrow> bool result" where
  "queue_check_front P q =
     (if container q = {} then Inl OutOfBounds else Inr (P (Min (container q))))"

definition queue_try_pop ::
  "'a::linorder ConcurrentQueue \<Rightarrow> 'a option \<times> 'a ConcurrentQueue" where
  "queue_try_pop q =
     (if container q = {} then (None, q)
      else let x = Min (container q)
           in (Some x, q\<lparr>container := container q - {x}\<rparr>))"

text \<open>\<open>wait_for\<close> with the predicate returns true exactly when the container is not empty at
  the end of the wait; otherwise the wait has timed out.\<close>

definition queue_wait_pop ::
  "'a::linorder ConcurrentQueue \<Rightarrow> 'a option \<times> 'a ConcurrentQueue" where
  "queue_wait_pop q =
     (if container q \<noteq> {}
      then let x = Min (container q)
           in (Some x, q\<lparr>container := container q - {x}\<rparr>)
      else (None, q))"

definition queue_empty :: "'a ConcurrentQueue \<Rightarrow> bool" where
  "queue_empty q \<longleftrightarrow> container q = {}"

subsection \<open>The interface\<close>

locale ordered_queue =
  fixes new :: "'q"
    and push :: "'a::linorder \<Rightarrow> 'q \<Rightarrow> 'q"
    and pop :: "'q \<Rightarrow> 'a option \<times> 'q"
    and elems :: "'q \<Rightarrow> 'a set"
    and invar :: "'q \<Rightarrow> bool"
  assumes elems_new: "elems new = {}"
    and elems_push: "invar q \<Longrightarrow> elems (push x q) = insert x (elems q)"
    and pop_none: "invar q \<Longrightarrow> elems q = {} \<Longrightarrow> pop q = (None, q)"
    and pop_some: "invar q \<Longrightarrow> elems q \<noteq> {} \<Longrightarrow> fst (pop q) = Some (Min (elems q))"
    and elems_pop: "invar q \<Longrightarrow> elems q \<noteq> {} \<Longrightarrow> elems (snd (pop q)) = elems q - {Min (elems q)}"
    and finite_elems: "invar q \<Longrightarrow> finite (elems q)"
    and invar_new: "invar new"
    and invar_push: "invar q \<Longrightarrow> invar (push x q)"
    and invar_pop: "invar q \<Longrightarrow> invar (snd (pop q))"
begin

lemma pop_Some_iff:
  "invar q \<Longrightarrow> pop q = (Some x, q') \<Longrightarrow>
     x \<in> elems q \<and> (\<forall>y \<in> elems q. x \<le> y) \<and> elems q' = elems q - {x} \<and> invar q'"
  by (metis Min_in Min_le elems_pop finite_elems fst_conv invar_pop option.inject
      option.distinct(1) pop_none pop_some snd_conv)

lemma pop_None_iff: "invar q \<Longrightarrow> fst (pop q) = None \<longleftrightarrow> elems q = {}"
  using pop_none pop_some by (metis fst_conv option.distinct(1))

lemma invar_pushes: "invar q \<Longrightarrow> invar (fold push xs q)"
  by (induction xs arbitrary: q) (auto simp: invar_push)

lemma elems_pushes: "invar q \<Longrightarrow> elems (fold push xs q) = elems q \<union> set xs"
  by (induction xs arbitrary: q) (auto simp: invar_push elems_push)

lemma push_twice: "invar q \<Longrightarrow> elems (push x (push x q)) = elems (push x q)"
  by (simp add: elems_push invar_push)

lemma pops_ascend:
  assumes "invar q" and "pop q = (Some x, q')" and "pop q' = (Some y, q'')"
  shows "x < y"
proof -
  from pop_Some_iff [OF assms(1,2)] have x: "\<forall>y \<in> elems q. x \<le> y" "elems q' = elems q - {x}"
    and i: "invar q'" by auto
  from pop_Some_iff [OF i assms(3)] x(2) have "y \<in> elems q" "y \<noteq> x" by auto
  with x(1) show ?thesis by (auto simp: less_le)
qed

end

text \<open>The code's queue implements the interface; every set of sequence numbers is finite.\<close>

definition queue_inv :: "'a ConcurrentQueue \<Rightarrow> bool" where
  "queue_inv q \<longleftrightarrow> finite (container q)"

interpretation cq: ordered_queue queue_new queue_push queue_wait_pop container queue_inv
  by unfold_locales
    (auto simp: queue_new_def queue_push_def queue_wait_pop_def queue_inv_def Let_def)

lemma queue_try_pop_eq: "queue_try_pop q = queue_wait_pop q"
  by (simp add: queue_try_pop_def queue_wait_pop_def)

lemma queue_unsafe_push_eq: "queue_unsafe_push x q = queue_push x q"
  by (simp add: queue_push_def queue_unsafe_push_def)

lemma queue_inv_seq [simp]: "queue_inv (q :: SequenceNumber ConcurrentQueue)"
  by (simp add: queue_inv_def)

lemma container_push [simp]: "container (queue_push x q) = insert x (container q)"
  by (simp add: queue_push_def)

lemma container_unsafe_push [simp]: "container (queue_unsafe_push x q) = insert x (container q)"
  by (simp add: queue_unsafe_push_def)

lemma container_unsafe_pushes [simp]:
  "container (fold queue_unsafe_push xs q) = container q \<union> set xs"
  by (induction xs arbitrary: q) auto

lemma queue_wait_pop_cases:
  obtains (empty) "container q = {}" "queue_wait_pop q = (None, q)"
  | (popped) x where "x \<in> container q" "queue_wait_pop q = (Some x, q\<lparr>container := container q - {x}\<rparr>)"
      "queue_inv q \<Longrightarrow> \<forall>y \<in> container q. x \<le> y"
  | (infinite) "\<not> queue_inv q"
proof (cases "queue_inv q")
  case True
  show thesis
  proof (cases "container q = {}")
    case True
    then show thesis by (intro empty) (simp_all add: queue_wait_pop_def)
  next
    case False
    with True show thesis
      by (intro popped [of "Min (container q)"]) (auto simp: queue_wait_pop_def queue_inv_def Let_def)
  qed
qed (rule infinite)

subsection \<open>Against a sorted list\<close>

text \<open>A sequence of calls of the queue and what each returns; the reference is a list in ascending
  order without repetitions, in which the library inserts and whose head is taken.\<close>

datatype 'a queue_call = Push 'a | UnsafePush 'a | TryPop | WaitPop | Empty

datatype 'a queue_answer = Done | Popped "'a option" | IsEmpty bool

fun queue_answers :: "'a::linorder queue_call list \<Rightarrow> 'a ConcurrentQueue \<Rightarrow> 'a queue_answer list" where
  "queue_answers [] q = []"
| "queue_answers (Push x # cs) q = Done # queue_answers cs (queue_push x q)"
| "queue_answers (UnsafePush x # cs) q = Done # queue_answers cs (queue_unsafe_push x q)"
| "queue_answers (TryPop # cs) q = (case queue_try_pop q of (x, q) \<Rightarrow> Popped x # queue_answers cs q)"
| "queue_answers (WaitPop # cs) q = (case queue_wait_pop q of (x, q) \<Rightarrow> Popped x # queue_answers cs q)"
| "queue_answers (Empty # cs) q = IsEmpty (queue_empty q) # queue_answers cs q"

fun list_head :: "'a list \<Rightarrow> 'a option" where
  "list_head [] = None"
| "list_head (x # xs) = Some x"

fun list_answers :: "'a::linorder queue_call list \<Rightarrow> 'a list \<Rightarrow> 'a queue_answer list" where
  "list_answers [] xs = []"
| "list_answers (Push x # cs) xs = Done # list_answers cs (insort_insert x xs)"
| "list_answers (UnsafePush x # cs) xs = Done # list_answers cs (insort_insert x xs)"
| "list_answers (TryPop # cs) xs = Popped (list_head xs) # list_answers cs (tl xs)"
| "list_answers (WaitPop # cs) xs = Popped (list_head xs) # list_answers cs (tl xs)"
| "list_answers (Empty # cs) xs = IsEmpty (xs = []) # list_answers cs xs"

definition holds_list :: "'a::linorder ConcurrentQueue \<Rightarrow> 'a list \<Rightarrow> bool" where
  "holds_list q xs \<longleftrightarrow> sorted xs \<and> distinct xs \<and> container q = set xs"

lemma holds_push:
  "holds_list q xs \<Longrightarrow> holds_list (queue_push x q) (insort_insert x xs)"
  "holds_list q xs \<Longrightarrow> holds_list (queue_unsafe_push x q) (insort_insert x xs)"
  by (simp_all add: holds_list_def sorted_insort_insert distinct_insort_insert set_insort_insert)

lemma holds_pop:
  assumes "holds_list q xs"
  shows "fst (queue_wait_pop q) = list_head xs" "holds_list (snd (queue_wait_pop q)) (tl xs)"
proof -
  have "fst (queue_wait_pop q) = list_head xs \<and> holds_list (snd (queue_wait_pop q)) (tl xs)"
  proof (cases xs)
    case Nil
    with assms show ?thesis by (simp add: holds_list_def queue_wait_pop_def)
  next
    case (Cons x ys)
    then have "Min (container q) = x"
      using assms by (auto simp: holds_list_def intro!: Min_eqI)
    with assms Cons show ?thesis by (auto simp: holds_list_def queue_wait_pop_def Let_def)
  qed
  then show "fst (queue_wait_pop q) = list_head xs" "holds_list (snd (queue_wait_pop q)) (tl xs)" by simp_all
qed

lemma answers_agree: "holds_list q xs \<Longrightarrow> queue_answers cs q = list_answers cs xs"
proof (induction cs arbitrary: q xs)
  case (Cons c cs)
  show ?case
  proof (cases c)
    case TryPop
    with Cons holds_pop [OF Cons.prems] show ?thesis by (cases "queue_wait_pop q") (simp add: queue_try_pop_eq)
  next
    case WaitPop
    with Cons holds_pop [OF Cons.prems] show ?thesis by (cases "queue_wait_pop q") simp
  next
    case Empty
    with Cons show ?thesis by (simp add: queue_empty_def holds_list_def)
  qed (simp_all add: Cons holds_push)
qed simp

text \<open>C28: the queue is a sorted list without repetitions. Whatever sequence of pushes (with or
  without locking), pops (trying or waiting) and tests for emptiness is made on a new queue, each
  call returns what it returns on such a list: a pop takes the smallest element there is, a
  second push of an element that is still in the queue changes nothing.\<close>

theorem queue_is_sorted_list: "queue_answers cs queue_new = list_answers cs []"
  by (rule answers_agree) (simp add: holds_list_def queue_new_def)

end
