(* ===== verification/ConcTimer.thy ===== *)
theory ConcTimer
  imports SeqNum
begin

text \<open>
  The class \<open>ConcurrentTimer\<close> of concurrency.hpp. The multimap \<open>events_\<close> is the list of its
  entries in iteration order, \<open>registered_events_\<close> a map from the event to its time point,
  \<open>timed_out_events_\<close> a set. Time points are nanoseconds of the steady clock; every reading
  of the clock is an argument of the operation that reads it. Every member function runs
  under the timer's mutex and is one atomic operation of the model, as is one turn of the
  timing thread's loop. The interface the sender relies on is the locale
  \<open>retransmit_timer\<close>, interpreted on the model.
\<close>

type_synonym time_point = int

definition ms :: "int \<Rightarrow> int" where
  "ms n = n * 1000000"

text \<open>Time points are unbounded here. The code counts nanoseconds in 64 bits with a sign, which is
  the same as long as the sum of the clock and the timeout stays below 2^63: for 146 years of the
  clock and timeouts of up to four thousand million seconds. A longer timeout, which the command
  line accepts, overflows in the code.\<close>

lemma time_points_fit:
  "now \<in> {0..<4611686018427387904} \<Longrightarrow> n \<in> {0..4000000000000} \<Longrightarrow> now + ms n \<in> {0..<9223372036854775808}"
  by (auto simp: ms_def)

text \<open>\<open>std::hash\<close> of a time point hashes its count; the library's hash of a count is a parameter.\<close>

definition time_point_hash :: "(time_point \<Rightarrow> size_t) \<Rightarrow> time_point \<Rightarrow> size_t" where
  "time_point_hash h tp = h tp"

record 'a ConcurrentTimer =
  events :: "(time_point \<times> 'a) list"
  registered_events :: "'a \<rightharpoonup> time_point"
  timed_out_events :: "'a set"
  timer_running :: bool

datatype TimerState = Unregistered | Normal | TimedOut

text \<open>\<open>std::multimap::emplace\<close> inserts after the entries with the same key.\<close>

definition multimap_emplace :: "time_point \<Rightarrow> 'a \<Rightarrow> (time_point \<times> 'a) list \<Rightarrow> (time_point \<times> 'a) list" where
  "multimap_emplace tp e evs =
     takeWhile (\<lambda>x. fst x \<le> tp) evs @ (tp, e) # dropWhile (\<lambda>x. fst x \<le> tp) evs"

text \<open>The search in \<open>equal_range(tp)\<close> for the entry of the event, and its erasure.\<close>

fun erase_in_range :: "time_point \<Rightarrow> 'a \<Rightarrow> (time_point \<times> 'a) list \<Rightarrow> (time_point \<times> 'a) list" where
  "erase_in_range tp e [] = []"
| "erase_in_range tp e (x # xs) =
     (if fst x = tp \<and> snd x = e then xs else x # erase_in_range tp e xs)"

text \<open>\<open>register_event\<close>: drop the old registration, then enter the new time point.\<close>

definition register_event :: "'a \<Rightarrow> int \<Rightarrow> time_point \<Rightarrow> 'a ConcurrentTimer \<Rightarrow> 'a ConcurrentTimer" where
  "register_event e timeout now t =
     (let t1 = (case registered_events t e of
                  Some old_tp \<Rightarrow>
                    t\<lparr>events := erase_in_range old_tp e (events t),
                      registered_events := map_erase (registered_events t) e\<rparr>
                | None \<Rightarrow> t);
          tp = now + ms timeout
      in t1\<lparr>events := multimap_emplace tp e (events t1),
            registered_events := map_emplace (registered_events t1) e tp\<rparr>)"

definition query_event :: "'a \<Rightarrow> 'a ConcurrentTimer \<Rightarrow> TimerState" where
  "query_event e t =
     (if e \<in> timed_out_events t then TimedOut
      else if registered_events t e \<noteq> None then Normal
      else Unregistered)"

definition remove_event :: "'a \<Rightarrow> 'a ConcurrentTimer \<Rightarrow> 'a ConcurrentTimer" where
  "remove_event e t =
     (case registered_events t e of
        None \<Rightarrow> t
      | Some tp \<Rightarrow>
          t\<lparr>registered_events := map_erase (registered_events t) e,
            events := erase_in_range tp e (events t),
            timed_out_events := timed_out_events t - {e}\<rparr>)"

text \<open>\<open>start\<close> and \<open>stop\<close> but for the creation and the joining of the thread.\<close>

definition timer_start :: "'a ConcurrentTimer \<Rightarrow> 'a ConcurrentTimer" where
  "timer_start t =
     t\<lparr>events := [], registered_events := Map.empty, timed_out_events := {}, timer_running := True\<rparr>"

definition timer_stop :: "'a ConcurrentTimer \<Rightarrow> 'a ConcurrentTimer" where
  "timer_stop t = t\<lparr>timer_running := False\<rparr>"

text \<open>One event times out: the three statements of the inner loop of \<open>thread_func\<close>.\<close>

definition expire_first :: "'a \<Rightarrow> (time_point \<times> 'a) list \<Rightarrow> 'a ConcurrentTimer \<Rightarrow> 'a ConcurrentTimer" where
  "expire_first e evs t =
     t\<lparr>timed_out_events := insert e (timed_out_events t),
       registered_events := map_erase (registered_events t) e,
       events := evs\<rparr>"

text \<open>
  The inner loop of \<open>thread_func\<close>: the clock is read again after each expired event;
  \<open>clk k\<close> is its k-th reading.
\<close>

function expire_loop :: "(nat \<Rightarrow> time_point) \<Rightarrow> nat \<Rightarrow> 'a ConcurrentTimer \<Rightarrow> 'a ConcurrentTimer" where
  "expire_loop clk k t =
     (case events t of
        [] \<Rightarrow> t
      | (tp, e) # evs \<Rightarrow>
          if tp \<le> clk k + ms 100
          then expire_loop clk (Suc k) (expire_first e evs t)
          else t)"
  by pat_completeness auto
termination
  by (relation "measure (\<lambda>(clk, k, t). length (events t))") (auto simp: expire_first_def)

declare expire_loop.simps [simp del]

text \<open>What one turn of \<open>thread_func\<close> does after taking the mutex.\<close>

datatype timer_turn = WaitForEvent | WaitUntil time_point | NotifyTimeout

definition thread_turn :: "(nat \<Rightarrow> time_point) \<Rightarrow> 'a ConcurrentTimer \<Rightarrow> timer_turn \<times> 'a ConcurrentTimer" where
  "thread_turn clk t =
     (case events t of
        [] \<Rightarrow> (WaitForEvent, t)
      | (tp, e) # evs \<Rightarrow>
          if tp > clk 0 then (WaitUntil tp, t)
          else (NotifyTimeout, expire_loop clk 0 t))"

text \<open>The predicate of \<open>wait_for_timed_out\<close>.\<close>

definition has_timed_out :: "'a ConcurrentTimer \<Rightarrow> bool" where
  "has_timed_out t \<longleftrightarrow> timed_out_events t \<noteq> {}"

text \<open>
  \<open>map_timed_out_events\<close> calls the function on every timed-out event, in the order of an
  unordered set, which the standard leaves open: the order is an argument.
\<close>

definition map_timed_out_events ::
  "'a list \<Rightarrow> ('a \<Rightarrow> 's \<Rightarrow> 's) \<Rightarrow> bool \<Rightarrow> 'a ConcurrentTimer \<Rightarrow> 's \<Rightarrow> 's \<times> 'a ConcurrentTimer" where
  "map_timed_out_events order f clear t s =
     (fold f order s, if clear then t\<lparr>timed_out_events := {}\<rparr> else t)"

subsection \<open>The invariant\<close>

text \<open>
  The multimap is ordered by time point, has one entry for an event, and agrees with the
  map of registrations.
\<close>

definition timer_inv :: "'a ConcurrentTimer \<Rightarrow> bool" where
  "timer_inv t \<longleftrightarrow>
     sorted (map fst (events t)) \<and> distinct (map snd (events t)) \<and>
     (\<forall>tp e. (tp, e) \<in> set (events t) \<longleftrightarrow> registered_events t e = Some tp)"

lemma erase_in_range_remove1: "erase_in_range tp e evs = remove1 (tp, e) evs"
  by (induction evs) (auto simp: prod_eq_iff)

lemma multimap_emplace_split:
  obtains xs ys where "evs = xs @ ys" and "multimap_emplace tp e evs = xs @ (tp, e) # ys"
    and "\<forall>x \<in> set xs. fst x \<le> tp" and "ys = [] \<or> tp < fst (hd ys)"
proof
  show "evs = takeWhile (\<lambda>x. fst x \<le> tp) evs @ dropWhile (\<lambda>x. fst x \<le> tp) evs" by simp
  show "\<forall>x \<in> set (takeWhile (\<lambda>x. fst x \<le> tp) evs). fst x \<le> tp" by (auto dest: set_takeWhileD)
  show "dropWhile (\<lambda>x. fst x \<le> tp) evs = [] \<or> tp < fst (hd (dropWhile (\<lambda>x. fst x \<le> tp) evs))"
    using hd_dropWhile [of "\<lambda>x. fst x \<le> tp" evs] by (metis not_less)
qed (simp add: multimap_emplace_def)

lemma set_multimap_emplace [simp]: "set (multimap_emplace tp e evs) = insert (tp, e) (set evs)"
  by (rule multimap_emplace_split [of evs tp e]) auto

lemma sorted_multimap_emplace:
  assumes "sorted (map fst evs)"
  shows "sorted (map fst (multimap_emplace tp e evs))"
proof -
  obtain xs ys where evs: "evs = xs @ ys" "multimap_emplace tp e evs = xs @ (tp, e) # ys"
    and xs: "\<forall>x \<in> set xs. fst x \<le> tp" and ys: "ys = [] \<or> tp < fst (hd ys)"
    by (rule multimap_emplace_split)
  have "tp \<le> fst y" if "y \<in> set ys" for y
    using that ys assms by (cases ys) (auto simp: evs(1) sorted_append)
  with xs assms show ?thesis by (auto simp: evs(2)) (auto simp: evs(1) sorted_append)
qed

lemma distinct_multimap_emplace:
  assumes "distinct (map snd evs)" and "e \<notin> snd ` set evs"
  shows "distinct (map snd (multimap_emplace tp e evs))"
  using assms by (rule_tac multimap_emplace_split [of evs tp e]) auto

lemma timer_inv_erase:
  assumes inv: "timer_inv t" and reg: "registered_events t e = Some tp"
  shows "sorted (map fst (erase_in_range tp e (events t)))"
    and "distinct (map snd (erase_in_range tp e (events t)))"
    and "e \<notin> snd ` set (erase_in_range tp e (events t))"
    and "(tp', e') \<in> set (erase_in_range tp e (events t)) \<longleftrightarrow>
           map_erase (registered_events t) e e' = Some tp'"
proof -
  from inv have d: "distinct (map snd (events t))"
    and s: "sorted (map fst (events t))"
    and iff: "\<And>tp e. (tp, e) \<in> set (events t) \<longleftrightarrow> registered_events t e = Some tp"
    by (auto simp: timer_inv_def)
  from d have d': "distinct (events t)" by (simp add: distinct_map)
  show "sorted (map fst (erase_in_range tp e (events t)))"
    using s by (simp add: erase_in_range_remove1 sorted_map_remove1)
  show "distinct (map snd (erase_in_range tp e (events t)))"
    using d by (auto simp: erase_in_range_remove1 distinct_map dest: notin_set_remove1 intro: inj_on_subset)
  show "e \<notin> snd ` set (erase_in_range tp e (events t))"
    using d' reg by (auto simp: erase_in_range_remove1 iff)
  show "(tp', e') \<in> set (erase_in_range tp e (events t)) \<longleftrightarrow>
           map_erase (registered_events t) e e' = Some tp'"
    using d' reg by (auto simp: erase_in_range_remove1 iff)
qed

lemma timer_inv_register [inv_intros]:
  assumes inv: "timer_inv t"
  shows "timer_inv (register_event e timeout now t)"
proof (cases "registered_events t e")
  case None
  with inv have "e \<notin> snd ` set (events t)" by (auto simp: timer_inv_def)
  with inv None show ?thesis
    by (auto simp: timer_inv_def register_event_def Let_def sorted_multimap_emplace
        distinct_multimap_emplace)
next
  case (Some tp)
  note old = timer_inv_erase [OF inv Some]
  show ?thesis
    using old Some
    by (auto simp: timer_inv_def register_event_def Let_def sorted_multimap_emplace
        distinct_multimap_emplace split: if_splits)
qed

lemma timer_inv_remove [inv_intros]:
  assumes inv: "timer_inv t"
  shows "timer_inv (remove_event e t)"
proof (cases "registered_events t e")
  case (Some tp)
  from timer_inv_erase [OF inv Some] Some show ?thesis
    by (auto simp: timer_inv_def remove_event_def)
qed (use inv in \<open>simp add: remove_event_def\<close>)

lemma timer_inv_expire_first:
  assumes inv: "timer_inv t" and evs: "events t = (tp, e) # evs"
  shows "timer_inv (expire_first e evs t)"
proof -
  have iff: "(a, b) \<in> set (events t) \<longleftrightarrow> registered_events t b = Some a" for a b
    using inv by (simp add: timer_inv_def)
  have "distinct (map snd (events t))" using inv by (simp add: timer_inv_def)
  then have "(tp', e) \<notin> set evs" for tp' by (force simp: evs)
  then have "(a, b) \<in> set evs \<longleftrightarrow> map_erase (registered_events t) e b = Some a" for a b
    using iff [of a b] by (auto simp: evs)
  then show ?thesis
    using inv by (simp add: timer_inv_def evs expire_first_def)
qed

lemma timer_inv_expire [inv_intros]:
  "timer_inv t \<Longrightarrow> timer_inv (expire_loop clk k t)"
proof (induction clk k t rule: expire_loop.induct)
  case (1 clk k t)
  show ?case
  proof (cases "events t")
    case Nil
    with "1.prems" show ?thesis by (simp add: expire_loop.simps [of clk k t])
  next
    case (Cons x evs)
    with 1 show ?thesis
      by (cases x) (simp add: expire_loop.simps [of clk k t] timer_inv_expire_first)
  qed
qed

lemma timer_inv_turn [inv_intros]: "timer_inv t \<Longrightarrow> timer_inv (snd (thread_turn clk t))"
  by (auto simp: thread_turn_def timer_inv_expire split: list.splits)

lemma timer_inv_start [inv_intros]: "timer_inv (timer_start t)"
  by (simp add: timer_start_def timer_inv_def)

lemma timer_inv_stop [inv_intros]: "timer_inv t \<Longrightarrow> timer_inv (timer_stop t)"
  by (simp add: timer_stop_def timer_inv_def)

lemma timer_inv_map [inv_intros]:
  "timer_inv t \<Longrightarrow> timer_inv (snd (map_timed_out_events order f clear t s))"
  by (simp add: map_timed_out_events_def timer_inv_def)

subsection \<open>Pending events\<close>

text \<open>An event is pending when it is registered or has timed out and is not yet collected.\<close>

definition pending :: "'a ConcurrentTimer \<Rightarrow> 'a set" where
  "pending t = dom (registered_events t) \<union> timed_out_events t"

lemma pending_register [simp]: "pending (register_event e timeout now t) = insert e (pending t)"
  by (auto simp: pending_def register_event_def Let_def split: option.splits if_splits)

lemma timed_out_register [simp]:
  "timed_out_events (register_event e timeout now t) = timed_out_events t"
  by (auto simp: register_event_def Let_def split: option.splits)

lemma pending_remove: "pending t - {e} \<subseteq> pending (remove_event e t)"
  "pending (remove_event e t) \<subseteq> pending t"
  by (auto simp: pending_def remove_event_def split: option.splits if_splits)

lemma pending_expire_first:
  "timer_inv t \<Longrightarrow> events t = (tp, e) # evs \<Longrightarrow> pending (expire_first e evs t) = pending t"
  by (force simp: pending_def expire_first_def timer_inv_def)

lemma pending_expire: "timer_inv t \<Longrightarrow> pending (expire_loop clk k t) = pending t"
proof (induction clk k t rule: expire_loop.induct)
  case (1 clk k t)
  show ?case
  proof (cases "events t")
    case Nil
    then show ?thesis by (simp add: expire_loop.simps [of clk k t])
  next
    case (Cons x evs)
    with 1 show ?thesis
      by (cases x)
        (simp add: expire_loop.simps [of clk k t] timer_inv_expire_first pending_expire_first)
  qed
qed

lemma pending_turn: "timer_inv t \<Longrightarrow> pending (snd (thread_turn clk t)) = pending t"
  by (auto simp: thread_turn_def pending_expire split: list.splits)

lemma pending_collect [simp]:
  "pending (snd (map_timed_out_events order f True t s)) = dom (registered_events t)"
  by (simp add: map_timed_out_events_def pending_def)

lemma pending_map_False [simp]:
  "pending (snd (map_timed_out_events order f False t s)) = pending t"
  by (simp add: map_timed_out_events_def)

text \<open>Which events one run of the inner loop expires.\<close>

lemma expire_loop_prefix:
  obtains xs ys where "events t = xs @ ys"
    and "events (expire_loop clk k t) = ys"
    and "timed_out_events (expire_loop clk k t) = timed_out_events t \<union> snd ` set xs"
    and "\<forall>i < length xs. fst (xs ! i) \<le> clk (k + i) + ms 100"
    and "ys = [] \<or> clk (k + length xs) + ms 100 < fst (hd ys)"
proof (induction clk k t arbitrary: thesis rule: expire_loop.induct)
  case (1 clk k t)
  show ?case
  proof (cases "events t")
    case Nil
    then show ?thesis
      by (intro "1.prems" [of "[]" "[]"]) (simp_all add: expire_loop.simps [of clk k t])
  next
    case (Cons x evs)
    obtain tp e where x: "x = (tp, e)" by (cases x)
    show ?thesis
    proof (cases "tp \<le> clk k + ms 100")
      case True
      let ?t = "expire_first e evs t"
      have step: "expire_loop clk k t = expire_loop clk (Suc k) ?t"
        using Cons x True by (simp add: expire_loop.simps [of clk k t])
      obtain xs ys where IH: "events ?t = xs @ ys" "events (expire_loop clk (Suc k) ?t) = ys"
        "timed_out_events (expire_loop clk (Suc k) ?t) = timed_out_events ?t \<union> snd ` set xs"
        "\<forall>i < length xs. fst (xs ! i) \<le> clk (Suc k + i) + ms 100"
        "ys = [] \<or> clk (Suc k + length xs) + ms 100 < fst (hd ys)"
        using "1.IH" [OF Cons x [symmetric] True] by blast
      have due: "\<forall>i < length (x # xs). fst ((x # xs) ! i) \<le> clk (k + i) + ms 100"
        using IH(4) True x by (auto simp: less_Suc_eq_0_disj)
      show ?thesis
        using IH Cons x due step
        by (intro "1.prems" [of "x # xs" ys]) (auto simp: expire_first_def)
    next
      case False
      with Cons x show ?thesis
        by (intro "1.prems" [of "[]" "events t"]) (simp_all add: expire_loop.simps [of clk k t])
    qed
  qed
qed

subsection \<open>The interface the sender relies on\<close>

text \<open>
  The client registers, removes and collects events; the timing thread turns. The promise:
  an event that was registered stays pending until it is removed or collected, whatever the
  timing thread does.
\<close>

locale retransmit_timer =
  fixes register :: "'e \<Rightarrow> int \<Rightarrow> time_point \<Rightarrow> 't \<Rightarrow> 't"
    and remove :: "'e \<Rightarrow> 't \<Rightarrow> 't"
    and turn :: "(nat \<Rightarrow> time_point) \<Rightarrow> 't \<Rightarrow> 't"
    and collect :: "'t \<Rightarrow> 't"
    and pend :: "'t \<Rightarrow> 'e set"
    and expired :: "'t \<Rightarrow> 'e set"
    and invar :: "'t \<Rightarrow> bool"
  assumes pend_register: "invar t \<Longrightarrow> pend (register e d now t) = insert e (pend t)"
    and pend_remove: "invar t \<Longrightarrow> pend t - {e} \<subseteq> pend (remove e t)"
    and pend_remove_subset: "invar t \<Longrightarrow> pend (remove e t) \<subseteq> pend t"
    and pend_turn: "invar t \<Longrightarrow> pend (turn clk t) = pend t"
    and pend_collect: "invar t \<Longrightarrow> pend t \<subseteq> expired t \<union> pend (collect t)"
    and invar_register: "invar t \<Longrightarrow> invar (register e d now t)"
    and invar_remove: "invar t \<Longrightarrow> invar (remove e t)"
    and invar_turn: "invar t \<Longrightarrow> invar (turn clk t)"
    and invar_collect: "invar t \<Longrightarrow> invar (collect t)"
begin

lemma registered_pending: "invar t \<Longrightarrow> e \<in> pend (register e d now t)"
  by (simp add: pend_register)

lemma remove_keeps_other: "invar t \<Longrightarrow> x \<in> pend t \<Longrightarrow> x \<noteq> e \<Longrightarrow> x \<in> pend (remove e t)"
  using pend_remove by blast

lemma turns_keep:
  "invar t \<Longrightarrow> invar (fold turn clks t) \<and> pend (fold turn clks t) = pend t"
  by (induction clks arbitrary: t) (simp_all add: invar_turn pend_turn)

lemma collected_or_pending:
  "invar t \<Longrightarrow> x \<in> pend t \<Longrightarrow> x \<notin> expired t \<Longrightarrow> x \<in> pend (collect t)"
  using pend_collect by blast

lemma registered_until_collected:
  assumes "invar t"
  shows "e \<in> expired (fold turn clks (register e d now t)) \<or>
         e \<in> pend (collect (fold turn clks (register e d now t)))"
proof -
  have i: "invar (register e d now t)" using assms by (rule invar_register)
  then have "e \<in> pend (fold turn clks (register e d now t))"
    using turns_keep registered_pending [OF assms] by blast
  then show ?thesis using turns_keep [OF i] collected_or_pending by blast
qed

end

text \<open>Collecting, as the sender does it: the function of the events is not the timer's business.\<close>

definition timer_collect :: "'a ConcurrentTimer \<Rightarrow> 'a ConcurrentTimer" where
  "timer_collect t = snd (map_timed_out_events [] (\<lambda>_ s. s) True t ())"

lemma snd_map_timed_out: "snd (map_timed_out_events order f True t s) = timer_collect t"
  by (simp add: timer_collect_def map_timed_out_events_def)

interpretation rt: retransmit_timer register_event remove_event "\<lambda>clk t. snd (thread_turn clk t)"
  timer_collect pending timed_out_events timer_inv
proof
  fix t :: "'a ConcurrentTimer"
  assume "timer_inv t"
  show "pending t \<subseteq> timed_out_events t \<union> pending (timer_collect t)"
    by (auto simp: timer_collect_def map_timed_out_events_def pending_def)
qed (simp_all add: pending_turn pending_remove timer_collect_def inv_intros)

subsection \<open>Properties of the timer\<close>

text \<open>What has timed out stays so until it is collected.\<close>

lemma timed_out_turn: "e \<in> timed_out_events t \<Longrightarrow> e \<in> timed_out_events (snd (thread_turn clk t))"
proof -
  have "timed_out_events t \<subseteq> timed_out_events (expire_loop clk k t)" for k
    by (rule expire_loop_prefix [of t clk k]) auto
  then show "e \<in> timed_out_events t \<Longrightarrow> ?thesis" by (auto simp: thread_turn_def split: list.splits)
qed

text \<open>A small timer with two events, due at 5 and at 300000000.\<close>

definition timer_example :: "nat ConcurrentTimer" where
  "timer_example =
     register_event 2 300 0 (register_event 1 0 5
       (timer_start \<lparr>events = [], registered_events = Map.empty, timed_out_events = {}, timer_running = False\<rparr>))"

lemma timer_inv_example: "timer_inv timer_example"
  by (simp add: timer_example_def timer_inv_register timer_inv_start)

lemma expire_loop_new:
  assumes "timer_inv t" "e \<in> timed_out_events (expire_loop clk k t)" "e \<notin> timed_out_events t"
  shows "\<exists>tp i. registered_events t e = Some tp \<and> tp \<le> clk i + ms 100"
proof (rule expire_loop_prefix [of t clk k])
  fix xs ys
  assume split: "events t = xs @ ys"
    and out: "timed_out_events (expire_loop clk k t) = timed_out_events t \<union> snd ` set xs"
    and due: "\<forall>i < length xs. fst (xs ! i) \<le> clk (k + i) + ms 100"
  from out assms(2,3) obtain i where i: "i < length xs" "snd (xs ! i) = e"
    by (auto simp: in_set_conv_nth)
  then have "(fst (xs ! i), e) \<in> set (events t)" by (auto simp: split)
  then have "registered_events t e = Some (fst (xs ! i))" using assms(1) by (simp add: timer_inv_def)
  with due i(1) show ?thesis by blast
qed

text \<open>C30: a turn of the timing thread times out no event more than 100 milliseconds before its
  time, by some reading of the clock in that turn.\<close>

theorem no_early_timeout:
  assumes "timer_inv t" "e \<in> timed_out_events (snd (thread_turn clk t))" "e \<notin> timed_out_events t"
  shows "\<exists>tp i. registered_events t e = Some tp \<and> tp \<le> clk i + ms 100"
  using assms expire_loop_new [OF assms(1), of e clk 0]
  by (auto simp: thread_turn_def split: list.splits if_splits)

theorem no_early_timeout_witness:
  "\<exists>tp i. registered_events timer_example 1 = Some tp \<and> tp \<le> (\<lambda>k :: nat. 10) i + ms 100"
proof (rule no_early_timeout [OF timer_inv_example])
  show "1 \<in> timed_out_events (snd (thread_turn (\<lambda>k. 10) timer_example))" by code_simp
  show "1 \<notin> timed_out_events timer_example" by code_simp
qed

lemma due_expires:
  assumes "timer_inv t" "registered_events t e = Some tp" "\<forall>i. tp \<le> clk i"
  shows "e \<in> timed_out_events (snd (thread_turn clk t))"
proof -
  have mem: "(tp, e) \<in> set (events t)" using assms(1,2) by (simp add: timer_inv_def)
  then obtain tp0 e0 evs where evs: "events t = (tp0, e0) # evs" by (cases "events t") auto
  have sorted: "sorted (map fst (events t))" using assms(1) by (simp add: timer_inv_def)
  have "tp0 \<le> tp" using sorted mem by (auto simp: evs)
  then have first: "\<not> tp0 > clk 0" using assms(3) by (meson not_less order_trans)
  have "e \<in> timed_out_events (expire_loop clk 0 t)"
  proof (rule expire_loop_prefix [of t clk 0])
    fix xs ys
    assume split: "events t = xs @ ys"
      and out: "timed_out_events (expire_loop clk 0 t) = timed_out_events t \<union> snd ` set xs"
      and rest: "ys = [] \<or> clk (0 + length xs) + ms 100 < fst (hd ys)"
    have "(tp, e) \<in> set xs"
    proof (rule ccontr)
      assume "(tp, e) \<notin> set xs"
      with mem split have y: "(tp, e) \<in> set ys" by auto
      then have "fst (hd ys) \<le> tp"
        using sorted split by (cases ys) (auto simp: sorted_append)
      moreover have "clk (length xs) < fst (hd ys)"
        using rest y by (auto simp: ms_def)
      ultimately show False using assms(3) [THEN spec, of "length xs"] by linarith
    qed
    with out show ?thesis by (auto intro: rev_image_eqI)
  qed
  with first show ?thesis by (simp add: thread_turn_def evs)
qed

text \<open>an event whose time has come at every reading of the clock is timed out by the next
  turn of the timing thread.\<close>

theorem due_event_times_out:
  assumes "timer_inv t" "registered_events t e = Some tp" "\<forall>i. tp \<le> clk i"
  shows "e \<in> timed_out_events (snd (thread_turn clk t))"
  by (rule due_expires [OF assms])

theorem due_event_times_out_witness:
  "1 \<in> timed_out_events (snd (thread_turn (\<lambda>k. 10) timer_example))"
proof (rule due_event_times_out [OF timer_inv_example])
  show "registered_events timer_example 1 = Some 5" by code_simp
qed simp

text \<open>from its registration on an event is known to the timer through any number of turns
  of the timing thread: it is registered or timed out, never lost in between.\<close>

theorem registered_stays_known:
  assumes "timer_inv t"
  shows "query_event e (fold (\<lambda>clk t. snd (thread_turn clk t)) clks (register_event e timeout now t)) \<noteq>
    Unregistered"
proof -
  have inv: "timer_inv (register_event e timeout now t)" using assms by (rule timer_inv_register)
  have "e \<in> pending (fold (\<lambda>clk t. snd (thread_turn clk t)) clks (register_event e timeout now t))"
    using rt.turns_keep [OF inv] rt.registered_pending [OF assms] by blast
  then show ?thesis by (auto simp: query_event_def pending_def)
qed

theorem registered_stays_known_witness:
  "query_event 3 (fold (\<lambda>clk t. snd (thread_turn clk t)) [\<lambda>k. 7, \<lambda>k. 900000000]
     (register_event 3 1 0 timer_example)) \<noteq> Unregistered"
  by (rule registered_stays_known [OF timer_inv_example])

text \<open>Every operation keeps the timer's invariant: the multimap is ordered by time, has one
  entry for an event, and agrees with the map of registrations.\<close>

theorem timer_operations_safe:
  assumes "timer_inv t"
  shows "timer_inv (register_event e timeout now t) \<and> timer_inv (remove_event e t) \<and>
    timer_inv (snd (thread_turn clk t)) \<and> timer_inv (timer_stop t) \<and> timer_inv (timer_start t) \<and>
    timer_inv (snd (map_timed_out_events order f clear t s))"
  using assms by (simp add: inv_intros)

theorem timer_operations_safe_witness: "timer_inv (remove_event 1 timer_example)"
  by (rule timer_operations_safe [OF timer_inv_example, THEN conjunct2, THEN conjunct1])

end
