(* ===== verification/ConcWindow.thy ===== *)
theory ConcWindow
  imports SeqNum
begin

text \<open>
  The class \<open>ConcurrentWindow\<close> of concurrency.hpp: the half-open range of sequence numbers
  in use, [lower, upper), and the largest number of them. Every member function runs under
  the window's mutex and is one atomic operation; the two timed waits are their predicates
  at the moment the wait ends.
\<close>

record ConcurrentWindow =
  lower_bound :: SequenceNumber
  upper_bound :: SequenceNumber
  max_window_size :: size_t

definition set_window :: "SequenceNumber \<Rightarrow> SequenceNumber \<Rightarrow> ConcurrentWindow \<Rightarrow> ConcurrentWindow" where
  "set_window lo up w = w\<lparr>lower_bound := lo, upper_bound := up\<rparr>"

definition set_lower_bound :: "SequenceNumber \<Rightarrow> ConcurrentWindow \<Rightarrow> ConcurrentWindow" where
  "set_lower_bound lo w = w\<lparr>lower_bound := lo\<rparr>"

text \<open>The predicate of \<open>wait_window_available\<close>: the size is cast to 32 bits.\<close>

definition window_available :: "ConcurrentWindow \<Rightarrow> bool" where
  "window_available w \<longleftrightarrow>
     upper_bound w - lower_bound w < SequenceNumber (ucast (max_window_size w))"

definition window_zero :: "ConcurrentWindow \<Rightarrow> bool" where
  "window_zero w \<longleftrightarrow> upper_bound w = lower_bound w"

definition update_lower_bound :: "ConcurrentWindow \<Rightarrow> ConcurrentWindow" where
  "update_lower_bound w = w\<lparr>lower_bound := update_seq (lower_bound w)\<rparr>"

definition update_upper_bound :: "ConcurrentWindow \<Rightarrow> ConcurrentWindow" where
  "update_upper_bound w = w\<lparr>upper_bound := update_seq (upper_bound w)\<rparr>"

definition set_max_window_size :: "size_t \<Rightarrow> ConcurrentWindow \<Rightarrow> ConcurrentWindow" where
  "set_max_window_size n w = w\<lparr>max_window_size := n\<rparr>"

text \<open>The number of sequence numbers in use, and the effective limit.\<close>

definition in_flight :: "ConcurrentWindow \<Rightarrow> nat" where
  "in_flight w = sn (upper_bound w - lower_bound w)"

definition window_limit :: "ConcurrentWindow \<Rightarrow> nat" where
  "window_limit w = unat (max_window_size w) mod 4294967296"

lemma window_available_iff: "window_available w \<longleftrightarrow> in_flight w < window_limit w"
proof -
  have "sn (SequenceNumber (ucast (max_window_size w))) = window_limit w"
    by (simp add: sn_def window_limit_def unsigned_ucast_eq take_bit_eq_mod)
  then show ?thesis by (simp add: window_available_def seq_less_iff in_flight_def)
qed

lemma in_flight_ordered:
  "lower_bound w \<le> upper_bound w \<Longrightarrow> in_flight w = sn (upper_bound w) - sn (lower_bound w)"
  by (simp add: in_flight_def sn_minus)

lemma window_zero_iff: "window_zero w \<longleftrightarrow> in_flight w = 0"
  by (cases "lower_bound w"; cases "upper_bound w")
    (auto simp: window_zero_def in_flight_def sn_def minus_SequenceNumber_def unat_eq_zero)

lemma window_sel [simp]:
  "lower_bound (set_lower_bound lo w) = lo"
  "upper_bound (set_lower_bound lo w) = upper_bound w"
  "max_window_size (set_lower_bound lo w) = max_window_size w"
  "lower_bound (update_lower_bound w) = update_seq (lower_bound w)"
  "upper_bound (update_lower_bound w) = upper_bound w"
  "max_window_size (update_lower_bound w) = max_window_size w"
  "lower_bound (update_upper_bound w) = lower_bound w"
  "upper_bound (update_upper_bound w) = update_seq (upper_bound w)"
  "max_window_size (update_upper_bound w) = max_window_size w"
  "lower_bound (set_window lo up w) = lo"
  "upper_bound (set_window lo up w) = up"
  "max_window_size (set_window lo up w) = max_window_size w"
  "lower_bound (set_max_window_size n w) = lower_bound w"
  "upper_bound (set_max_window_size n w) = upper_bound w"
  "max_window_size (set_max_window_size n w) = n"
  by (simp_all add: set_lower_bound_def update_lower_bound_def update_upper_bound_def
      set_window_def set_max_window_size_def)

lemma window_limit_frame [simp]:
  "window_limit (set_lower_bound lo w) = window_limit w"
  "window_limit (update_lower_bound w) = window_limit w"
  "window_limit (update_upper_bound w) = window_limit w"
  "window_limit (set_window lo up w) = window_limit w"
  by (simp_all add: window_limit_def)

text \<open>Sizes after the two moves of the window, wrapping counted.\<close>

lemma in_flight_update_upper:
  "in_flight (update_upper_bound w) = Suc (in_flight w) mod 4294967296"
proof -
  have "update_seq (upper_bound w) - lower_bound w = update_seq (upper_bound w - lower_bound w)"
    by (simp add: update_seq_def minus_SequenceNumber_def)
  then show ?thesis by (simp add: in_flight_def sn_update_mod)
qed

lemma in_flight_update_lower:
  "in_flight w = Suc (in_flight (update_lower_bound w)) mod 4294967296"
proof -
  have "upper_bound w - lower_bound w = update_seq (upper_bound w - update_seq (lower_bound w))"
    by (cases "lower_bound w"; cases "upper_bound w")
      (simp add: update_seq_def minus_SequenceNumber_def)
  then show ?thesis by (simp add: in_flight_def sn_update_mod)
qed

text \<open>a number is available exactly when the numbers in use, counted across the wrap of
  the 32-bit counter, are fewer than the configured size, which is cut to 32 bits.\<close>

theorem available_across_wrap:
  "window_available w \<longleftrightarrow>
     (4294967296 + sn (upper_bound w) - sn (lower_bound w)) mod 4294967296 <
       unat (max_window_size w) mod 4294967296"
proof -
  let ?u = "get (upper_bound w)" and ?l = "get (lower_bound w)"
  have "unat (?u - ?l) = (4294967296 + unat ?u - unat ?l) mod 4294967296"
  proof (cases "unat ?l \<le> unat ?u")
    case True
    then have eq: "4294967296 + unat ?u - unat ?l = (unat ?u - unat ?l) + 4294967296" by simp
    have "unat ?u - unat ?l < 4294967296"
      using unat_u32_less [of ?u] by (rule le_less_trans [OF diff_le_self])
    then have "(unat ?u - unat ?l + 4294967296) mod 4294967296 = unat ?u - unat ?l"
      by (simp only: mod_add_self2 mod_less)
    then show ?thesis unfolding eq using True by (simp add: unat_sub_if')
  next
    case False
    then show ?thesis by (simp add: unat_sub_if')
  qed
  then show ?thesis
    by (simp add: window_available_iff in_flight_def window_limit_def sn_def minus_SequenceNumber_def)
qed

end
