(* ===== verification/Socket.thy ===== *)
theory Socket
  imports Prelude "HOL-Library.Signed_Division"
begin

text \<open>
  The class \<open>Socket\<close> of socket.hpp and socket.cpp, in its Linux branch. What the operating
  system answers to a call (its return value and \<open>errno\<close>, the datagram it delivers) is an
  argument of the operation. The state is the descriptor, the buffer limit and what the
  kernel has been told: the bound address, the receive timeout, and the datagrams handed
  to \<open>sendto\<close> successfully, oldest first.
\<close>

text \<open>\<open>sockaddr_in\<close>; port and address are in network byte order.\<close>

record SocketAddr =
  sin_family :: u16
  sin_port :: u16
  sin_addr :: u32

definition addr_zero :: SocketAddr where
  "addr_zero = \<lparr>sin_family = 0, sin_port = 0, sin_addr = 0\<rparr>"

text \<open>Constants of the Linux headers.\<close>

definition AF_INET :: u16 where "AF_INET = 2"
definition INADDR_ANY :: u32 where "INADDR_ANY = 0"
definition EAGAIN :: int where "EAGAIN = 11"
definition EWOULDBLOCK :: int where "EWOULDBLOCK = 11"
definition EMSGSIZE :: int where "EMSGSIZE = 90"
definition ETIMEDOUT :: int where "ETIMEDOUT = 110"
definition ECANCELED :: int where "ECANCELED = 125"

text \<open>\<open>htons\<close> on a little-endian host: the two octets change places.\<close>

definition htons :: "u16 \<Rightarrow> u16" where
  "htons w = le16 (ucast (drop_bit 8 w AND 0xFF)) (ucast (w AND 0xFF))"

text \<open>\<open>std::error_condition\<close>: a value and a category; it tests true when the value is not zero.\<close>

datatype error_category = GenericCategory | SystemCategory

record error_condition =
  err_value :: int
  err_category :: error_category

definition no_error :: error_condition where
  "no_error = \<lparr>err_value = 0, err_category = GenericCategory\<rparr>"

definition system_error :: "int \<Rightarrow> error_condition" where
  "system_error v = \<lparr>err_value = v, err_category = SystemCategory\<rparr>"

definition generic_error :: "int \<Rightarrow> error_condition" where
  "generic_error v = \<lparr>err_value = v, err_category = GenericCategory\<rparr>"

definition is_error :: "error_condition \<Rightarrow> bool" where
  "is_error e \<longleftrightarrow> err_value e \<noteq> 0"

text \<open>What a system call answers.\<close>

record os_answer =
  os_result :: int
  os_errno :: int

datatype recvfrom_answer =
    RecvFailed int
  | RecvDatagram bytes SocketAddr

record Socket =
  sock :: int
  max_buf_size :: size_t
  bound_addr :: "SocketAddr option"
  recv_timeout :: "(int \<times> int) option"
  outbox :: "(SocketAddr \<times> bytes) list"

definition socket_new :: "size_t \<Rightarrow> Socket" where
  "socket_new n =
     \<lparr>sock = -1, max_buf_size = n, bound_addr = None, recv_timeout = None, outbox = []\<rparr>"

text \<open>The \<open>timeval\<close> of a timeout in milliseconds: seconds and microseconds, C division.\<close>

definition timeval_of_ms :: "int \<Rightarrow> int \<times> int" where
  "timeval_of_ms n = (n sdiv 1000, (n smod 1000) * 1000)"

definition set_recv_timeout :: "os_answer \<Rightarrow> int \<Rightarrow> Socket \<Rightarrow> error_condition \<times> Socket" where
  "set_recv_timeout a n s =
     (if os_result a < 0 then (system_error (os_errno a), s)
      else (no_error, s\<lparr>recv_timeout := Some (timeval_of_ms n)\<rparr>))"

text \<open>\<open>init\<close>: the answers of \<open>socket\<close>, \<open>bind\<close> and \<open>setsockopt\<close>, in that order. The result of
  \<open>set_recv_timeout\<close> is ignored.\<close>

definition socket_init ::
  "os_answer \<Rightarrow> os_answer \<Rightarrow> os_answer \<Rightarrow> u16 \<Rightarrow> Socket \<Rightarrow> error_condition \<times> Socket" where
  "socket_init sk bd so port s =
     (let s = s\<lparr>sock := os_result sk\<rparr>
      in if sock s = -1 then (system_error (os_errno sk), s)
         else
           let addr = \<lparr>sin_family = AF_INET, sin_port = htons port, sin_addr = INADDR_ANY\<rparr>
           in if os_result bd < 0 then (system_error (os_errno bd), s)
              else (no_error, snd (set_recv_timeout so 1000 (s\<lparr>bound_addr := Some addr\<rparr>))))"

definition socket_send ::
  "os_answer \<Rightarrow> SocketAddr \<Rightarrow> bytes \<Rightarrow> Socket \<Rightarrow> error_condition \<times> Socket" where
  "socket_send a addr data s =
     (if unat (max_buf_size s) < length data then (system_error EMSGSIZE, s)
      else if os_result a < 0 then (system_error (os_errno a), s)
      else (no_error, s\<lparr>outbox := outbox s @ [(addr, data)]\<rparr>))"

text \<open>\<open>recv\<close>: \<open>recvfrom\<close> copies at most the size of the buffer and drops the rest of the
  datagram; the buffer is then cut to what was copied.\<close>

definition socket_recv ::
  "recvfrom_answer \<Rightarrow> Socket \<Rightarrow> error_condition \<times> bytes \<times> SocketAddr" where
  "socket_recv a s =
     (case a of
        RecvFailed err \<Rightarrow> (system_error err, [], addr_zero)
      | RecvDatagram d addr \<Rightarrow> (no_error, take (unat (max_buf_size s)) d, addr))"

definition socket_cleanup :: "os_answer \<Rightarrow> Socket \<Rightarrow> error_condition" where
  "socket_cleanup a s = (if os_result a \<noteq> 0 then system_error (os_errno a) else no_error)"

definition is_fatal_error :: "error_condition \<Rightarrow> bool" where
  "is_fatal_error e \<longleftrightarrow>
     (if \<not> is_error e then False else err_value e \<noteq> EAGAIN \<and> err_value e \<noteq> EWOULDBLOCK)"

lemma no_error_simps [simp]:
  "\<not> is_error no_error"
  "is_error (system_error v) \<longleftrightarrow> v \<noteq> 0"
  "is_error (generic_error v) \<longleftrightarrow> v \<noteq> 0"
  "err_value (system_error v) = v"
  by (simp_all add: no_error_def system_error_def generic_error_def is_error_def)

lemma is_fatal_error_iff: "is_fatal_error e \<longleftrightarrow> err_value e \<notin> {0, 11}"
  by (auto simp: is_fatal_error_def is_error_def EAGAIN_def EWOULDBLOCK_def)

lemma max_buf_size_send [simp]: "max_buf_size (snd (socket_send a addr d s)) = max_buf_size s"
  by (simp add: socket_send_def)

lemma outbox_send:
  "outbox (snd (socket_send a addr d s)) =
     (if length d \<le> unat (max_buf_size s) \<and> 0 \<le> os_result a
      then outbox s @ [(addr, d)] else outbox s)"
  by (auto simp: socket_send_def)

lemma set_outbox_send:
  "set (outbox (snd (socket_send a addr d s))) \<subseteq> insert (addr, d) (set (outbox s))"
  by (auto simp: outbox_send)

lemma outbox_mono: "set (outbox s) \<subseteq> set (outbox (snd (socket_send a addr d s)))"
  by (auto simp: outbox_send)

lemma timeval_exact:
  "0 \<le> n \<Longrightarrow> fst (timeval_of_ms n) * 1000000 + snd (timeval_of_ms n) = n * 1000 \<and>
     0 \<le> snd (timeval_of_ms n) \<and> snd (timeval_of_ms n) < 1000000"
proof -
  assume n: "0 \<le> n"
  then have d: "n sdiv 1000 = n div 1000" "n smod 1000 = n mod 1000"
    by (simp_all add: signed_divide_int_def signed_modulo_int_def sgn_if)
  have "n div 1000 * 1000 + n mod 1000 = n" by (rule div_mult_mod_eq)
  moreover have "0 \<le> n mod 1000" "n mod 1000 < 1000" by simp_all
  ultimately show ?thesis
    unfolding timeval_of_ms_def d fst_conv snd_conv by linarith
qed

text \<open>A timeout of whole milliseconds becomes exactly that many microseconds in the
  \<open>timeval\<close>, with the microseconds below a million.\<close>

theorem recv_timeout_exact:
  assumes "0 \<le> n"
  shows "fst (timeval_of_ms n) * 1000000 + snd (timeval_of_ms n) = n * 1000 \<and>
    0 \<le> snd (timeval_of_ms n) \<and> snd (timeval_of_ms n) < 1000000"
  by (rule timeval_exact [OF assms])

theorem recv_timeout_exact_witness:
  "fst (timeval_of_ms 1500) * 1000000 + snd (timeval_of_ms 1500) = 1500000"
  using recv_timeout_exact [of 1500] by simp

end
