(* ===== verification/Sender.thy ===== *)
theory Sender
  imports Packet ConcQueue ConcTimer ConcWindow Socket
begin

text \<open>
  The class \<open>Sender\<close> of sender.hpp and sender.cpp. Field \<open>x_\<close> of the class is \<open>s_x\<close> of the
  record. The three worker threads and the caller's thread run the loops of the source; a
  turn of such a loop is cut into the pieces that other threads can come between, and each
  piece is a function on the state:
  \<^item> \<open>send_packet\<close>: one poll of the window, taking the sequence number, entering the packet;
  \<^item> \<open>send_handler\<close>: popping the queue, then the part under the pool and acked-set mutexes;
  \<^item> \<open>recv_handler\<close>: receiving and the switch on the state, then the assignment of the state
    under the state mutex, then the part under the acked-set mutex;
  \<^item> \<open>timeout_handler\<close>: the part under the queue and window mutexes;
  \<^item> \<open>connect\<close>, \<open>send\<close> and \<open>disconnect\<close>: the control points of \<open>ApiPc\<close> between two waits.
  Log messages have no effect on the state and are left out; the logger is modelled in
  Logging.
\<close>

datatype SenderState =
    Idle
  | Connecting
  | Connected
  | Pushing
  | Sending
  | Stopping
  | Disconnecting

record Sender =
  s_pending_queue :: "SequenceNumber ConcurrentQueue"
  s_timer :: "SequenceNumber ConcurrentTimer"
  s_packet_pool :: "SequenceNumber \<rightharpoonup> Packet"
  s_retry_count :: "SequenceNumber \<rightharpoonup> size_t"
  s_acked_seq_set :: "SequenceNumber set"
  s_window :: ConcurrentWindow
  s_max_retry_count :: size_t
  s_actual_max_retry_count :: size_t
  s_state :: SenderState
  s_timeout :: int
  s_running :: bool
  s_selective_repeat :: bool
  s_fast_retransmit :: bool
  s_ack_dup_times :: size_t
  s_channel :: Socket
  s_peer_addr :: SocketAddr

subsection \<open>The setters\<close>

definition set_selective_repeat :: "bool \<Rightarrow> Sender \<Rightarrow> Sender" where
  "set_selective_repeat b s = s\<lparr>s_selective_repeat := b\<rparr>"

definition set_timeout :: "int \<Rightarrow> Sender \<Rightarrow> Sender" where
  "set_timeout t s = s\<lparr>s_timeout := t\<rparr>"

definition set_sender_window_size :: "size_t \<Rightarrow> Sender \<Rightarrow> Sender" where
  "set_sender_window_size n s = s\<lparr>s_window := set_max_window_size n (s_window s)\<rparr>"

definition set_max_retry_count :: "size_t \<Rightarrow> Sender \<Rightarrow> Sender" where
  "set_max_retry_count n s = s\<lparr>s_max_retry_count := n\<rparr>"

definition set_fast_retransmit :: "bool \<Rightarrow> Sender \<Rightarrow> Sender" where
  "set_fast_retransmit b s = s\<lparr>s_fast_retransmit := b\<rparr>"

text \<open>\<open>init\<close>, but for the creation of the threads.\<close>

definition sender_init :: "Sender \<Rightarrow> error_condition \<times> Sender" where
  "sender_init s =
     (no_error,
      s\<lparr>s_running := True,
        s_state := Idle,
        s_timer := timer_start (s_timer s),
        s_window := set_window (SequenceNumber 0) (SequenceNumber 0) (s_window s)\<rparr>)"

subsection \<open>send\_packet\<close>

text \<open>One turn of the loop that waits for the window.\<close>

datatype poll = Available | Stopped | StillWaiting

definition send_packet_poll :: "Sender \<Rightarrow> poll" where
  "send_packet_poll s =
     (if window_available (s_window s) then Available
      else if \<not> s_running s then Stopped
      else StillWaiting)"

text \<open>Taking the upper bound as the sequence number, advancing it and making the packet.\<close>

definition send_packet_reserve :: "PacketKind \<Rightarrow> bytes \<Rightarrow> Sender \<Rightarrow> Packet \<times> Sender" where
  "send_packet_reserve k pl s =
     (let sq = upper_bound (s_window s);
          s = s\<lparr>s_window := update_upper_bound (s_window s)\<rparr>
      in (mk_packet NKURDT_VERSION k sq pl, s))"

text \<open>Entering it into the pool and the pending queue, under the pool mutex.\<close>

definition send_packet_enqueue :: "Packet \<Rightarrow> Sender \<Rightarrow> Sender" where
  "send_packet_enqueue p s =
     s\<lparr>s_packet_pool := map_emplace (s_packet_pool s) (seq p) p,
       s_pending_queue := queue_push (seq p) (s_pending_queue s)\<rparr>"

text \<open>The control points of \<open>send_packet\<close>; \<open>None\<close> is its return.\<close>

datatype SendPc = SpPoll PacketKind bytes | SpReserved Packet

fun send_packet_step :: "SendPc \<Rightarrow> Sender \<Rightarrow> SendPc option \<times> Sender" where
  "send_packet_step (SpPoll k pl) s =
     (case send_packet_poll s of
        Available \<Rightarrow> (let (p, s) = send_packet_reserve k pl s in (Some (SpReserved p), s))
      | Stopped \<Rightarrow> (None, s)
      | StillWaiting \<Rightarrow> (Some (SpPoll k pl), s))"
| "send_packet_step (SpReserved p) s = (None, send_packet_enqueue p s)"

subsection \<open>send\_handler\<close>

definition send_handler_pop :: "Sender \<Rightarrow> SequenceNumber option \<times> Sender" where
  "send_handler_pop s =
     (let (x, q) = queue_wait_pop (s_pending_queue s) in (x, s\<lparr>s_pending_queue := q\<rparr>))"

text \<open>The clean-up the two skipping branches share.\<close>

definition send_handler_cleanup :: "SequenceNumber \<Rightarrow> Sender \<Rightarrow> Sender" where
  "send_handler_cleanup sq s =
     (let s = (case s_retry_count s sq of
                 Some n \<Rightarrow>
                   s\<lparr>s_actual_max_retry_count := max (s_actual_max_retry_count s) n,
                     s_retry_count := map_erase (s_retry_count s) sq\<rparr>
               | None \<Rightarrow> s)
      in s\<lparr>s_packet_pool := map_erase (s_packet_pool s) sq,
           s_timer := remove_event sq (s_timer s)\<rparr>)"

text \<open>The maximum retry count is reached: the state change under the state mutex.\<close>

definition give_up :: "Sender \<Rightarrow> Sender" where
  "give_up s =
     (if s_state s = Stopping \<or> s_state s = Pushing then s\<lparr>s_state := Connected\<rparr>
      else if s_state s = Connecting \<or> s_state s = Disconnecting then s\<lparr>s_state := Idle\<rparr>
      else s\<lparr>s_running := False\<rparr>)"

text \<open>Sending the packet and registering it with the timer, or dropping the event.\<close>

definition transmit :: "os_answer \<Rightarrow> time_point \<Rightarrow> SequenceNumber \<Rightarrow> Sender \<Rightarrow> Sender" where
  "transmit a now sq s =
     (case s_packet_pool s sq of
        Some p \<Rightarrow>
          s\<lparr>s_channel := snd (socket_send a (s_peer_addr s) (to_bytes p) (s_channel s)),
            s_timer := register_event sq (s_timeout s) now (s_timer s)\<rparr>
      | None \<Rightarrow> s\<lparr>s_timer := remove_event sq (s_timer s)\<rparr>)"

definition send_handler_body ::
  "os_answer \<Rightarrow> time_point \<Rightarrow> SequenceNumber \<Rightarrow> Sender \<Rightarrow> Sender" where
  "send_handler_body a now sq s =
     (if s_selective_repeat s \<and> sq \<in> s_acked_seq_set s then send_handler_cleanup sq s
      else if sq < lower_bound (s_window s) then send_handler_cleanup sq s
      else if lower_bound (s_window s) = upper_bound (s_window s) then s
      else
        case s_retry_count s sq of
          Some n \<Rightarrow>
            if s_max_retry_count s \<le> n then give_up s
            else transmit a now sq (s\<lparr>s_retry_count := (s_retry_count s)(sq \<mapsto> n + 1)\<rparr>)
        | None \<Rightarrow>
            transmit a now sq (s\<lparr>s_retry_count := map_emplace (s_retry_count s) sq 0\<rparr>))"

text \<open>The branch that takes the state mutex.\<close>

definition reaches_give_up :: "SequenceNumber \<Rightarrow> Sender \<Rightarrow> bool" where
  "reaches_give_up sq s \<longleftrightarrow>
     \<not> (s_selective_repeat s \<and> sq \<in> s_acked_seq_set s) \<and>
     \<not> sq < lower_bound (s_window s) \<and> lower_bound (s_window s) \<noteq> upper_bound (s_window s) \<and>
     (case s_retry_count s sq of Some n \<Rightarrow> s_max_retry_count s \<le> n | None \<Rightarrow> False)"

text \<open>One turn of the loop of \<open>send_handler\<close> when no other thread comes between.\<close>

definition send_handler_iter :: "os_answer \<Rightarrow> time_point \<Rightarrow> Sender \<Rightarrow> Sender" where
  "send_handler_iter a now s =
     (case send_handler_pop s of
        (None, s) \<Rightarrow> s
      | (Some sq, s) \<Rightarrow> send_handler_body a now sq s)"

subsection \<open>recv\_handler\<close>

text \<open>
  Receiving: a timeout or an asynchronous error starts the next turn; a fatal error stops
  the sender, but the code goes on to decode the bytes it got. \<open>None\<close> starts the next turn.
\<close>

definition recv_handler_recv :: "recvfrom_answer \<Rightarrow> Sender \<Rightarrow> (Packet option \<times> Sender) result" where
  "recv_handler_recv a s =
     (let (errc, bs, addr) = socket_recv a (s_channel s)
      in if is_error errc \<and> \<not> is_fatal_error errc then Inr (None, s)
         else
           let s = (if is_error errc then s\<lparr>s_running := False\<rparr> else s)
           in bind_result (from_bytes bs) (\<lambda>p. Inr (p, s)))"

text \<open>
  The switch on the state. The state is read without the state mutex and assigned later under
  it, so the switch yields the state to enter, if any, and \<open>enter_state\<close> is the assignment.
\<close>

definition recv_handler_switch :: "Packet \<Rightarrow> Sender \<Rightarrow> SenderState option" where
  "recv_handler_switch p s =
     (case s_state s of
        Idle \<Rightarrow> None
      | Connecting \<Rightarrow> if kind p = ConnAck then Some Connected else None
      | Connected \<Rightarrow> None
      | Pushing \<Rightarrow> if kind p = DataPushAck then Some Sending else None
      | Sending \<Rightarrow> None
      | Stopping \<Rightarrow> if kind p = DataStopAck then Some Connected else None
      | Disconnecting \<Rightarrow> if kind p = DisconnAck then Some Idle else None)"

definition enter_state :: "SenderState \<Rightarrow> Sender \<Rightarrow> Sender" where
  "enter_state st s = s\<lparr>s_state := st\<rparr>"

text \<open>The loop of the fast retransmission: every sequence number of the window is queued.\<close>

function push_range ::
  "SequenceNumber \<Rightarrow> SequenceNumber \<Rightarrow> SequenceNumber ConcurrentQueue \<Rightarrow> SequenceNumber ConcurrentQueue" where
  "push_range sq up q =
     (if sq < up then push_range (update_seq sq) up (queue_unsafe_push sq q) else q)"
  by pat_completeness auto
termination
  by (relation "measure (\<lambda>(sq, up, q). sn up - sn sq)") (auto simp: sn_update_less seq_less_iff)

text \<open>An acknowledgement of the lower bound in go-back-n.\<close>

definition duplicate_ack :: "Sender \<Rightarrow> Sender" where
  "duplicate_ack s =
     (let s = (if s_ack_dup_times s = 0 then s
               else if s_ack_dup_times s = 2 then
                 (if s_fast_retransmit s
                  then s\<lparr>s_pending_queue := push_range (lower_bound (s_window s))
                           (upper_bound (s_window s)) (s_pending_queue s)\<rparr>
                  else s)
               else if max_window_size (s_window s) \<le> s_ack_dup_times s
               then s\<lparr>s_ack_dup_times := 0\<rparr>
               else s)
      in s\<lparr>s_ack_dup_times := s_ack_dup_times s + 1\<rparr>)"

text \<open>The loop of selective repeat: slide over the acknowledged lower bounds.\<close>

function slide_acked ::
  "SequenceNumber set \<Rightarrow> ConcurrentWindow \<Rightarrow> SequenceNumber set \<times> ConcurrentWindow" where
  "slide_acked acked w =
     (if lower_bound w \<in> acked
      then slide_acked (acked - {lower_bound w}) (update_lower_bound w)
      else (acked, w))"
  by pat_completeness auto
termination
  by (relation "measure (\<lambda>(acked, w). card acked)") (auto intro: card_Diff1_less simp del: card_Diff_insert card_Diff_singleton)

declare push_range.simps [simp del] slide_acked.simps [simp del]

text \<open>The part under the acked-set mutex.\<close>

definition recv_handler_acked :: "Packet \<Rightarrow> Sender \<Rightarrow> Sender" where
  "recv_handler_acked p s =
     (let s = s\<lparr>s_acked_seq_set := insert (seq p) (s_acked_seq_set s)\<rparr>
      in if \<not> s_selective_repeat s then
           let s = (if lower_bound (s_window s) = seq p then duplicate_ack s
                    else if lower_bound (s_window s) < seq p
                    then s\<lparr>s_ack_dup_times := 0, s_window := set_lower_bound (seq p) (s_window s)\<rparr>
                    else s)
           in s\<lparr>s_acked_seq_set := s_acked_seq_set s - {seq p}\<rparr>
         else
           let (acked, w) = slide_acked (s_acked_seq_set s) (s_window s)
           in s\<lparr>s_acked_seq_set := acked, s_window := w\<rparr>)"

text \<open>One turn of the loop of \<open>recv_handler\<close> when no other thread comes between.\<close>

definition recv_handler_iter :: "recvfrom_answer \<Rightarrow> Sender \<Rightarrow> Sender result" where
  "recv_handler_iter a s =
     bind_result (recv_handler_recv a s) (\<lambda>(got, s).
       case got of
         None \<Rightarrow> Inr s
       | Some p \<Rightarrow>
           Inr (recv_handler_acked p
             (case recv_handler_switch p s of None \<Rightarrow> s | Some st \<Rightarrow> enter_state st s)))"

subsection \<open>timeout\_handler\<close>

text \<open>One turn of the loop; the order in which the unordered set of timed-out events is visited
  is an argument.\<close>

definition timeout_handler_iter :: "SequenceNumber list \<Rightarrow> Sender \<Rightarrow> Sender" where
  "timeout_handler_iter order s =
     (if \<not> has_timed_out (s_timer s) then s
      else
        let (q, t) = map_timed_out_events order queue_unsafe_push True (s_timer s) (s_pending_queue s)
        in s\<lparr>s_pending_queue := q, s_timer := t\<rparr>)"

text \<open>One turn of the timing thread of the sender's timer.\<close>

definition sender_timer_turn :: "(nat \<Rightarrow> time_point) \<Rightarrow> Sender \<Rightarrow> Sender" where
  "sender_timer_turn clk s = s\<lparr>s_timer := snd (thread_turn clk (s_timer s))\<rparr>"

subsection \<open>The caller's thread\<close>

text \<open>\<open>std::istream\<close> as \<open>send\<close> uses it: the bytes not yet read and whether the stream tests
  true. A short read sets the fail bit.\<close>

record istream =
  is_rest :: bytes
  is_good :: bool

definition istream_read :: "nat \<Rightarrow> istream \<Rightarrow> bytes \<times> istream" where
  "istream_read n is =
     (if \<not> is_good is then ([], is)
      else if n \<le> length (is_rest is)
      then (take n (is_rest is), is\<lparr>is_rest := drop n (is_rest is)\<rparr>)
      else (is_rest is, is\<lparr>is_rest := [], is_good := False\<rparr>))"

text \<open>
  The control points of \<open>connect\<close>, \<open>send\<close> and \<open>disconnect\<close>: inside \<open>send_packet\<close>, waiting for
  a state, at the head of the read loop, waiting for the window to empty, returned.
\<close>

datatype ApiPc =
    Ready
  | ConnectSend SendPc
  | ConnectWait
  | PushSend SendPc istream
  | PushWait istream
  | DataRead istream size_t
  | DataSend SendPc istream size_t
  | ZeroWait size_t
  | StopSend SendPc size_t
  | StopWait size_t
  | DisconnectSend SendPc
  | DisconnectWait
  | Returned error_condition

text \<open>Where the caller holds the state mutex: inside \<open>send_packet\<close>, but for the packets of data.
  The waits on the condition variable release it.\<close>

fun holds_state_mutex :: "ApiPc \<Rightarrow> bool" where
  "holds_state_mutex (ConnectSend pc) = True"
| "holds_state_mutex (PushSend pc is) = True"
| "holds_state_mutex (StopSend pc n) = True"
| "holds_state_mutex (DisconnectSend pc) = True"
| "holds_state_mutex _ = False"

definition connect_call :: "SocketAddr \<Rightarrow> Sender \<Rightarrow> ApiPc \<times> Sender" where
  "connect_call addr s =
     (ConnectSend (SpPoll ConnReq []), s\<lparr>s_state := Connecting, s_peer_addr := addr\<rparr>)"

definition send_call :: "istream \<Rightarrow> Sender \<Rightarrow> ApiPc \<times> Sender" where
  "send_call is s =
     (PushSend (SpPoll DataPush []) is, s\<lparr>s_actual_max_retry_count := 0, s_state := Pushing\<rparr>)"

definition disconnect_call :: "Sender \<Rightarrow> ApiPc \<times> Sender" where
  "disconnect_call s =
     (if s_state s = Idle then (Returned no_error, s)
      else (DisconnectSend (SpPoll DisconnReq []), s\<lparr>s_state := Disconnecting\<rparr>))"

text \<open>The waits of \<open>connect\<close> and \<open>disconnect\<close> on the condition variable of the state.\<close>

definition connect_wait :: "Sender \<Rightarrow> ApiPc" where
  "connect_wait s =
     (if s_state s = Connected \<or> s_state s = Idle
      then if s_state s = Idle then Returned (generic_error ETIMEDOUT)
           else Returned no_error
      else ConnectWait)"

definition disconnect_wait :: "Sender \<Rightarrow> ApiPc" where
  "disconnect_wait s = (if s_state s = Idle then Returned no_error else DisconnectWait)"

text \<open>
  One step of the caller's thread. \<open>duration\<close> is the elapsed time in milliseconds, by which
  \<open>send\<close> divides once the window is empty.
\<close>

fun api_step :: "int \<Rightarrow> ApiPc \<Rightarrow> Sender \<Rightarrow> (ApiPc \<times> Sender) result" where
  "api_step duration Ready s = Inr (Ready, s)"
| "api_step duration (ConnectSend pc) s =
     (case send_packet_step pc s of
        (Some pc, s) \<Rightarrow> Inr (ConnectSend pc, s)
      | (None, s) \<Rightarrow> Inr (ConnectWait, s))"
| "api_step duration ConnectWait s = Inr (connect_wait s, s)"
| "api_step duration (PushSend pc is) s =
     (case send_packet_step pc s of
        (Some pc, s) \<Rightarrow> Inr (PushSend pc is, s)
      | (None, s) \<Rightarrow> Inr (PushWait is, s))"
| "api_step duration (PushWait is) s =
     (if s_state s = Sending \<or> s_state s = Connected
      then if s_state s = Connected then Inr (Returned (generic_error ETIMEDOUT), s)
           else Inr (DataRead is 0, s)
      else Inr (PushWait is, s))"
| "api_step duration (DataRead is total_bytes) s =
     (if is_good is then
        let (pl, is) = istream_read NKURDT_MAX_PAYLOAD_SIZE is
        in Inr (DataSend (SpPoll Data pl) is (total_bytes + of_nat (length pl)), s)
      else Inr (ZeroWait total_bytes, s))"
| "api_step duration (DataSend pc is total_bytes) s =
     (case send_packet_step pc s of
        (Some pc, s) \<Rightarrow> Inr (DataSend pc is total_bytes, s)
      | (None, s) \<Rightarrow> Inr (DataRead is total_bytes, s))"
| "api_step duration (ZeroWait total_bytes) s =
     (if window_zero (s_window s) then
        if duration = 0 then Inl DivisionByZero
        else Inr (StopSend (SpPoll DataStop []) total_bytes, s\<lparr>s_state := Stopping\<rparr>)
      else if \<not> s_running s then Inr (Returned (generic_error ECANCELED), s)
      else Inr (ZeroWait total_bytes, s))"
| "api_step duration (StopSend pc total_bytes) s =
     (case send_packet_step pc s of
        (Some pc, s) \<Rightarrow> Inr (StopSend pc total_bytes, s)
      | (None, s) \<Rightarrow> Inr (StopWait total_bytes, s))"
| "api_step duration (StopWait total_bytes) s =
     (if s_state s = Connected then Inr (Returned no_error, s) else Inr (StopWait total_bytes, s))"
| "api_step duration (DisconnectSend pc) s =
     (case send_packet_step pc s of
        (Some pc, s) \<Rightarrow> Inr (DisconnectSend pc, s)
      | (None, s) \<Rightarrow> Inr (DisconnectWait, s))"
| "api_step duration DisconnectWait s = Inr (disconnect_wait s, s)"
| "api_step duration (Returned e) s = Inr (Returned e, s)"

text \<open>\<open>stop\<close> before it joins the threads, and \<open>cleanup\<close>.\<close>

definition sender_stop :: "Sender \<Rightarrow> error_condition \<times> Sender" where
  "sender_stop s = (no_error, s\<lparr>s_running := False, s_timer := timer_stop (s_timer s)\<rparr>)"

definition sender_cleanup :: "os_answer \<Rightarrow> Sender \<Rightarrow> error_condition" where
  "sender_cleanup a s = socket_cleanup a (s_channel s)"

end
