(* ===== verification/Receiver.thy ===== *)
theory Receiver
  imports Packet Socket
begin

text \<open>
  The class \<open>Receiver\<close> of receiver.hpp and receiver.cpp, and the coroutine wrapper
  \<open>Generator\<close>. Field \<open>x_\<close> of the class is \<open>r_x\<close> of the record. One turn of the loop of
  \<open>recv\<close> is \<open>recv_iter\<close>; the receiver has a single thread, so a turn is atomic. The output
  stream is the list of the bytes written to it, \<open>None\<close> for a null pointer.
\<close>

datatype ReceiverState = RIdle | RConnected | Receiving

record Receiver =
  r_window_first :: SequenceNumber
  r_window_second :: SequenceNumber
  r_recv_buffer :: "Packet list"
  r_channel :: Socket
  r_peer_addr :: "SocketAddr option"
  r_max_window_size :: size_t
  r_state :: ReceiverState
  r_running :: bool
  r_selective_repeat :: bool
  r_os :: "bytes option"

definition set_ostream :: "bytes option \<Rightarrow> Receiver \<Rightarrow> Receiver" where
  "set_ostream os r = r\<lparr>r_os := os\<rparr>"

definition receiver_set_selective_repeat :: "bool \<Rightarrow> Receiver \<Rightarrow> Receiver" where
  "receiver_set_selective_repeat b r = r\<lparr>r_selective_repeat := b\<rparr>"

definition receiver_set_max_window_size :: "size_t \<Rightarrow> Receiver \<Rightarrow> Receiver" where
  "receiver_set_max_window_size n r = r\<lparr>r_max_window_size := n\<rparr>"

definition receiver_cleanup :: "os_answer \<Rightarrow> Receiver \<Rightarrow> error_condition" where
  "receiver_cleanup a r = socket_cleanup a (r_channel r)"

text \<open>The statements of \<open>recv\<close> before its loop.\<close>

definition recv_start :: "Receiver \<Rightarrow> Receiver" where
  "recv_start r =
     r\<lparr>r_state := RIdle, r_running := True,
       r_window_first := SequenceNumber 0,
       r_window_second := SequenceNumber (ucast (r_max_window_size r))\<rparr>"

subsection \<open>The receive buffer\<close>

text \<open>
  \<open>std::set<Packet>\<close> is ordered by \<open>Packet::operator<\<close>, that is by sequence number; inserting
  a packet whose number is present has no effect. The list is the set in order.
\<close>

fun buffer_insert :: "Packet \<Rightarrow> Packet list \<Rightarrow> Packet list" where
  "buffer_insert p [] = [p]"
| "buffer_insert p (q # qs) =
     (if packet_less p q then p # q # qs
      else if packet_less q p then q # buffer_insert p qs
      else q # qs)"

text \<open>Writing to the stream, when there is one.\<close>

definition os_write :: "bytes \<Rightarrow> bytes option \<Rightarrow> bytes option" where
  "os_write bs os = (case os of Some w \<Rightarrow> Some (w @ bs) | None \<Rightarrow> None)"

text \<open>The loop that slides the window over the front of the buffer.\<close>

fun slide_buffer ::
  "Packet list \<Rightarrow> SequenceNumber \<Rightarrow> SequenceNumber \<Rightarrow> bytes option \<Rightarrow>
     Packet list \<times> SequenceNumber \<times> SequenceNumber \<times> bytes option" where
  "slide_buffer [] first second os = ([], first, second, os)"
| "slide_buffer (p # ps) first second os =
     (if seq p = first
      then slide_buffer ps (update_seq first) (update_seq second) (os_write (payload p) os)
      else (p # ps, first, second, os))"

subsection \<open>One turn of recv\<close>

text \<open>Replying with an acknowledgement, when a peer is known; the result of the call is ignored.\<close>

definition reply_ack :: "os_answer \<Rightarrow> PacketKind \<Rightarrow> SequenceNumber \<Rightarrow> Receiver \<Rightarrow> Receiver" where
  "reply_ack a k sq r =
     (case r_peer_addr r of
        Some addr \<Rightarrow>
          r\<lparr>r_channel := snd (socket_send a addr (to_bytes (mk_packet NKURDT_VERSION k sq [])) (r_channel r))\<rparr>
      | None \<Rightarrow> r)"

text \<open>The switch on the state; the flag is \<open>is_data_stop\<close>. The variable \<open>reply_ack\<close> of the
  source is assigned but never read.\<close>

definition recv_switch :: "Packet \<Rightarrow> SocketAddr \<Rightarrow> Receiver \<Rightarrow> Receiver \<times> bool" where
  "recv_switch p addr r =
     (case r_state r of
        RIdle \<Rightarrow>
          if kind p = ConnReq
          then (r\<lparr>r_peer_addr := Some addr, r_state := RConnected,
                  r_window_first := seq p,
                  r_window_second := seq p + SequenceNumber (ucast (r_max_window_size r))\<rparr>, False)
          else (r, False)
      | Receiving \<Rightarrow>
          if kind p = Data then (r, False)
          else if kind p = DataStop then (r\<lparr>r_state := RConnected\<rparr>, True)
          else (r, False)
      | RConnected \<Rightarrow>
          if kind p = DataPush then (r\<lparr>r_state := Receiving\<rparr>, False)
          else if kind p = DisconnReq then (r\<lparr>r_state := RIdle\<rparr>, False)
          else (r, False))"

definition recv_deliver :: "Packet \<Rightarrow> Receiver \<Rightarrow> Receiver" where
  "recv_deliver p r =
     (let (buf, first, second, os) =
        slide_buffer (buffer_insert p (r_recv_buffer r)) (r_window_first r) (r_window_second r) (r_os r)
      in r\<lparr>r_recv_buffer := buf, r_window_first := first, r_window_second := second, r_os := os\<rparr>)"

datatype recv_ctl = NextTurn | YieldTrue | LeaveLoop

text \<open>
  What follows a decoded packet. \<open>get_ack_kind(...).value()\<close> throws for a kind without an
  acknowledgement. After \<open>co_yield true\<close> the state is not \<open>Idle\<close>, so the last test of the
  turn is false and the loop goes on.
\<close>

definition recv_packet ::
  "os_answer \<Rightarrow> Packet \<Rightarrow> SocketAddr \<Rightarrow> Receiver \<Rightarrow> (recv_ctl \<times> Receiver) result" where
  "recv_packet a p addr r =
     (if is_ack p then Inr (NextTurn, r)
      else case get_ack_kind (kind p) of
        None \<Rightarrow> Inl BadOptionalAccess
      | Some ack_kind \<Rightarrow>
          if seq p < r_window_first r \<and> r_state r \<noteq> RIdle then
            Inr (NextTurn,
              reply_ack a ack_kind (if r_selective_repeat r then seq p else r_window_first r) r)
          else if r_window_second r \<le> seq p \<and> r_state r \<noteq> RIdle then
            Inr (NextTurn,
              if \<not> r_selective_repeat r then reply_ack a ack_kind (r_window_first r) r else r)
          else
            let (r, is_data_stop) = recv_switch p addr r;
                r = recv_deliver p r;
                r = reply_ack a ack_kind
                      (if r_selective_repeat r then seq p else r_window_first r) r
            in if is_data_stop \<and> seq p < r_window_first r then Inr (YieldTrue, r)
               else if r_state r = RIdle \<and> seq p < r_window_first r then Inr (LeaveLoop, r)
               else Inr (NextTurn, r))"

definition recv_iter ::
  "os_answer \<Rightarrow> recvfrom_answer \<Rightarrow> Receiver \<Rightarrow> (recv_ctl \<times> Receiver) result" where
  "recv_iter a d r =
     (let (errc, data, addr) = socket_recv d (r_channel r)
      in if is_error errc then
           if is_fatal_error errc then Inr (LeaveLoop, r\<lparr>r_running := False\<rparr>)
           else Inr (NextTurn, r)
         else bind_result (from_bytes data) (\<lambda>po.
           case po of
             None \<Rightarrow> Inr (NextTurn, r)
           | Some p \<Rightarrow> recv_packet a p addr r))"

subsection \<open>The coroutine\<close>

text \<open>
  The loop up to its next suspension, on the answers of the operating system to come:
  blocked in \<open>recvfrom\<close>, or at a \<open>co_yield\<close> with the answers left.
\<close>

datatype recv_outcome =
    Blocked Receiver
  | Yielded bool Receiver "(os_answer \<times> recvfrom_answer) list"

fun recv_run :: "(os_answer \<times> recvfrom_answer) list \<Rightarrow> Receiver \<Rightarrow> recv_outcome result" where
  "recv_run ins r =
     (if \<not> r_running r then Inr (Yielded False r ins)
      else case ins of
        [] \<Rightarrow> Inr (Blocked r)
      | (a, d) # ins \<Rightarrow>
          bind_result (recv_iter a d r) (\<lambda>(ctl, r).
            case ctl of
              NextTurn \<Rightarrow> recv_run ins r
            | YieldTrue \<Rightarrow> Inr (Yielded True r ins)
            | LeaveLoop \<Rightarrow> Inr (Yielded False r ins)))"

text \<open>
  \<open>Generator::next\<close>: where the coroutine is suspended, the value of its promise, and the
  receiver it runs on. A handle that was moved from makes \<open>next\<close> throw; a handle whose
  coroutine has finished is still there and is resumed.
\<close>

datatype coro =
    NoHandle
  | AtStart
  | AtYield bool
  | Finished

fun generator_next ::
  "(os_answer \<times> recvfrom_answer) list \<Rightarrow> coro \<Rightarrow> Receiver \<Rightarrow>
     ((bool \<times> coro \<times> (os_answer \<times> recvfrom_answer) list) option \<times> Receiver) result" where
  "generator_next ins NoHandle r = Inl RuntimeError"
| "generator_next ins AtStart r =
     bind_result (recv_run ins (recv_start r)) (\<lambda>out.
       case out of
         Blocked r \<Rightarrow> Inr (None, r)
       | Yielded b r ins \<Rightarrow> Inr (Some (b, AtYield b, ins), r))"
| "generator_next ins (AtYield True) r =
     bind_result (recv_run ins r) (\<lambda>out.
       case out of
         Blocked r \<Rightarrow> Inr (None, r)
       | Yielded b r ins \<Rightarrow> Inr (Some (b, AtYield b, ins), r))"
| "generator_next ins (AtYield False) r = Inr (Some (False, Finished, ins), r)"
| "generator_next ins Finished r = Inl ResumedPastEnd"

declare recv_run.simps [simp del]

end
