(* ===== verification/App.thy ===== *)
theory App
  imports ArgParser Sender Receiver
begin

text \<open>
  The two programs of app/file_transfer: their command lines, the configuration they set up
  and the loops that drive the library. The members a constructor leaves uninitialised come
  from an arbitrary object \<open>g\<close>. \<open>inet_addr\<close> is a parameter; logging and the prompts are left
  out.
\<close>

subsection \<open>The command lines\<close>

definition sender_arguments :: ArgumentParser where
  "sender_arguments =
     (add_argument ''debug'' (with_scan TBool \<circ> with_is_flag True)
     (add_argument ''max-retry-count''
        (with_scan TSize \<circ> with_default (AnySize (- 1)) \<circ> with_required True)
     (add_argument ''max-window-size''
        (with_scan TSize \<circ> with_default (AnySize 5) \<circ> with_required True)
     (add_argument ''timeout''
        (with_scan TSize \<circ> with_default (AnySize 1000) \<circ> with_required True)
     (add_argument ''fast-retransmit'' (with_scan TBool \<circ> with_is_flag True)
     (add_argument ''selective-repeat'' (with_scan TBool \<circ> with_is_flag True)
     (add_argument ''port''
        (with_scan TInt \<circ> with_default (AnyInt 1234) \<circ> with_required True)
     (add_argument ''remote-port''
        (with_scan TInt \<circ> with_default (AnyInt 3333) \<circ> with_required True)
     (add_argument ''remote-ip''
        (with_scan TString \<circ> with_default (AnyString ''127.0.0.1'') \<circ> with_required True)
      Map.empty)))))))))"

definition receiver_arguments :: ArgumentParser where
  "receiver_arguments =
     (add_argument ''debug'' (with_scan TBool \<circ> with_is_flag True)
     (add_argument ''max-window-size''
        (with_scan TSize \<circ> with_default (AnySize 5) \<circ> with_required True)
     (add_argument ''selective-repeat'' (with_scan TBool \<circ> with_is_flag True)
     (add_argument ''port''
        (with_scan TInt \<circ> with_default (AnyInt 4321) \<circ> with_required True)
      Map.empty))))"

text \<open>\<open>argparser.get<T>(name).value()\<close>.\<close>

definition get_value :: "any_type \<Rightarrow> string \<Rightarrow> ArgumentParser \<Rightarrow> any result" where
  "get_value ty nm ps =
     (case get_arg ty nm ps of None \<Rightarrow> Inl BadOptionalAccess | Some v \<Rightarrow> Inr v)"

fun any_string :: "any \<Rightarrow> string" where
  "any_string (AnyString s) = s"
| "any_string _ = []"

fun any_int :: "any \<Rightarrow> int" where
  "any_int (AnyInt i) = i"
| "any_int _ = 0"

fun any_size :: "any \<Rightarrow> size_t" where
  "any_size (AnySize n) = n"
| "any_size _ = 0"

fun any_bool :: "any \<Rightarrow> bool" where
  "any_bool (AnyBool b) = b"
| "any_bool _ = False"

record SenderConfig =
  cfg_remote_ip :: string
  cfg_remote_port :: int
  cfg_port :: int
  cfg_selective_repeat :: bool
  cfg_fast_retransmit :: bool
  cfg_timeout :: size_t
  cfg_max_window_size :: size_t
  cfg_max_retry_count :: size_t
  cfg_debug :: bool

text \<open>The result of \<open>parse_args\<close> is ignored.\<close>

definition sender_config :: "Scanners \<Rightarrow> string list \<Rightarrow> string list \<Rightarrow> SenderConfig result" where
  "sender_config sc order args =
     bind_result (parse_args sc order args sender_arguments) (\<lambda>(ok, ps).
     bind_result (get_value TString ''remote-ip'' ps) (\<lambda>ip.
     bind_result (get_value TInt ''remote-port'' ps) (\<lambda>rport.
     bind_result (get_value TInt ''port'' ps) (\<lambda>port.
     bind_result (get_value TBool ''selective-repeat'' ps) (\<lambda>sr.
     bind_result (get_value TBool ''fast-retransmit'' ps) (\<lambda>fr.
     bind_result (get_value TSize ''timeout'' ps) (\<lambda>timeout.
     bind_result (get_value TSize ''max-window-size'' ps) (\<lambda>win.
     bind_result (get_value TSize ''max-retry-count'' ps) (\<lambda>retry.
     bind_result (get_value TBool ''debug'' ps) (\<lambda>dbg.
       Inr \<lparr>cfg_remote_ip = any_string ip, cfg_remote_port = any_int rport, cfg_port = any_int port,
            cfg_selective_repeat = any_bool sr, cfg_fast_retransmit = any_bool fr,
            cfg_timeout = any_size timeout, cfg_max_window_size = any_size win,
            cfg_max_retry_count = any_size retry, cfg_debug = any_bool dbg\<rparr>))))))))))"

record ReceiverConfig =
  rcfg_port :: int
  rcfg_selective_repeat :: bool
  rcfg_max_window_size :: size_t
  rcfg_debug :: bool

definition receiver_config :: "Scanners \<Rightarrow> string list \<Rightarrow> string list \<Rightarrow> ReceiverConfig result" where
  "receiver_config sc order args =
     bind_result (parse_args sc order args receiver_arguments) (\<lambda>(ok, ps).
     bind_result (get_value TInt ''port'' ps) (\<lambda>port.
     bind_result (get_value TBool ''selective-repeat'' ps) (\<lambda>sr.
     bind_result (get_value TSize ''max-window-size'' ps) (\<lambda>win.
     bind_result (get_value TBool ''debug'' ps) (\<lambda>dbg.
       Inr \<lparr>rcfg_port = any_int port, rcfg_selective_repeat = any_bool sr,
            rcfg_max_window_size = any_size win, rcfg_debug = any_bool dbg\<rparr>)))))"

subsection \<open>Setting up\<close>

text \<open>The constructors.\<close>

definition sender_new :: "Socket \<Rightarrow> Sender \<Rightarrow> Sender" where
  "sender_new ch g =
     g\<lparr>s_pending_queue := queue_new,
       s_timer := \<lparr>events = [], registered_events = Map.empty, timed_out_events = {},
                   timer_running = False\<rparr>,
       s_packet_pool := Map.empty, s_retry_count := Map.empty,
       s_acked_seq_set := {}, s_actual_max_retry_count := 0, s_running := False,
       s_selective_repeat := False, s_fast_retransmit := False, s_ack_dup_times := 0,
       s_channel := ch\<rparr>"

definition receiver_new :: "Socket \<Rightarrow> bytes option \<Rightarrow> Receiver \<Rightarrow> Receiver" where
  "receiver_new ch os g = g\<lparr>r_recv_buffer := [], r_channel := ch, r_peer_addr := None, r_os := os\<rparr>"

text \<open>The port is converted to 16 bits, the timeout to the signed count of milliseconds. The
  results of \<open>socket.init\<close> and \<open>sender.init\<close> are ignored.\<close>

definition sender_setup ::
  "SenderConfig \<Rightarrow> os_answer \<Rightarrow> os_answer \<Rightarrow> os_answer \<Rightarrow> Sender \<Rightarrow> Sender" where
  "sender_setup cfg sk bd so g =
     (let ch = socket_new (of_nat (NKURDT_MAX_PACKET_SIZE * 2));
          ch = snd (socket_init sk bd so (word_of_int (cfg_port cfg)) ch);
          s = sender_new ch g;
          s = set_selective_repeat (cfg_selective_repeat cfg) s;
          s = set_fast_retransmit (cfg_fast_retransmit cfg) s;
          s = set_timeout (sint (cfg_timeout cfg)) s;
          s = set_sender_window_size (cfg_max_window_size cfg) s;
          s = set_max_retry_count (cfg_max_retry_count cfg) s
      in snd (sender_init s))"

definition remote_addr :: "(string \<Rightarrow> u32) \<Rightarrow> SenderConfig \<Rightarrow> SocketAddr" where
  "remote_addr inet_addr cfg =
     \<lparr>sin_family = AF_INET, sin_port = htons (word_of_int (cfg_remote_port cfg)),
      sin_addr = inet_addr (cfg_remote_ip cfg)\<rparr>"

definition receiver_setup ::
  "ReceiverConfig \<Rightarrow> os_answer \<Rightarrow> os_answer \<Rightarrow> os_answer \<Rightarrow> Receiver \<Rightarrow> Receiver" where
  "receiver_setup cfg sk bd so g =
     (let ch = socket_new (of_nat (NKURDT_MAX_PACKET_SIZE * 2));
          ch = snd (socket_init sk bd so (word_of_int (rcfg_port cfg)) ch);
          r = receiver_new ch (Some []) g;
          r = receiver_set_selective_repeat (rcfg_selective_repeat cfg) r
      in receiver_set_max_window_size (rcfg_max_window_size cfg) r)"

subsection \<open>The loops\<close>

text \<open>
  The prompt of the sender: the words of the standard input to come. At its end \<open>std::cin\<close>
  fails and the fresh string stays empty, which is no command.
\<close>

datatype command = CmdExit | CmdSend string | CmdConnect | CmdDisconnect | CmdNone

fun next_command :: "string list \<Rightarrow> command \<times> string list" where
  "next_command [] = (CmdNone, [])"
| "next_command (w # ws) =
     (if w = ''exit'' then (CmdExit, ws)
      else if w = ''send'' then
        (case ws of [] \<Rightarrow> (CmdSend [], []) | file # ws \<Rightarrow> (CmdSend file, ws))
      else if w = ''connect'' then (CmdConnect, ws)
      else if w = ''disconnect'' then (CmdDisconnect, ws)
      else (CmdNone, ws))"

text \<open>The commands of the first n turns, \<open>None\<close> while the loop has not left.\<close>

fun command_loop :: "nat \<Rightarrow> string list \<Rightarrow> command list option" where
  "command_loop 0 ws = None"
| "command_loop (Suc n) ws =
     (case next_command ws of
        (CmdExit, ws) \<Rightarrow> Some [CmdExit]
      | (c, ws) \<Rightarrow> map_option ((#) c) (command_loop n ws))"

text \<open>\<open>ofs << temp_os->rdbuf()\<close>: what was written since the last read; the read position.\<close>

definition write_file :: "bytes \<Rightarrow> nat \<Rightarrow> bytes \<times> nat" where
  "write_file os pos = (drop pos os, length os)"

text \<open>The files written at a sequence of returns of \<open>next\<close>, given what the stream held then.\<close>

fun written_files :: "bytes list \<Rightarrow> nat \<Rightarrow> bytes list" where
  "written_files [] pos = []"
| "written_files (os # oss) pos =
     (let (file, pos) = write_file os pos in file # written_files oss pos)"

text \<open>The name of the next file, from the words of the standard input; at its end the fresh string
  stays empty.\<close>

fun next_name :: "string list \<Rightarrow> string \<times> string list" where
  "next_name [] = ([], [])"
| "next_name (w # ws) = (w, ws)"

subsection \<open>Properties of the programs\<close>

definition no_fractions :: Scanners where
  "no_fractions = \<lparr>uninit = 0, std_stof = (\<lambda>s. Inl InvalidArgument), std_stod = (\<lambda>s. Inl InvalidArgument)\<rparr>"

definition sender_names :: "string list" where
  "sender_names = [''remote-ip'', ''remote-port'', ''port'', ''selective-repeat'', ''fast-retransmit'',
     ''timeout'', ''max-window-size'', ''max-retry-count'', ''debug'']"

definition default_config :: SenderConfig where
  "default_config =
     \<lparr>cfg_remote_ip = ''127.0.0.1'', cfg_remote_port = 3333, cfg_port = 1234,
      cfg_selective_repeat = False, cfg_fast_retransmit = False, cfg_timeout = 1000,
      cfg_max_window_size = 5, cfg_max_retry_count = - 1, cfg_debug = False\<rparr>"

lemma sender_arguments_defaults:
  "\<forall>nm \<in> set sender_names. sender_arguments nm \<noteq> None \<and>
     default_value (the (sender_arguments nm)) \<noteq> None \<and> arg_value (the (sender_arguments nm)) = None"
  by code_simp

lemma sender_default_values:
  "map (\<lambda>nm. default_value (the (sender_arguments nm))) sender_names =
     map Some [AnyString ''127.0.0.1'', AnyInt 3333, AnyInt 1234, AnyBool False, AnyBool False,
       AnySize 1000, AnySize 5, AnySize (- 1), AnyBool False]"
  by code_simp

text \<open>with an empty command line the sender starts with its defaults, in whatever order the
  unordered map is traversed.\<close>

theorem empty_command_line:
  assumes "distinct order" "set order = set sender_names"
  shows "sender_config sc order [] = Inr default_config"
proof -
  let ?g = "Map.empty :: string \<rightharpoonup> string"
  define ps where "ps = (\<lambda>nm. if nm \<in> set order
      then Some ((the (sender_arguments nm))\<lparr>arg_value := settled sc ?g nm (the (sender_arguments nm))\<rparr>)
      else sender_arguments nm)"
  have "assign_all sc ?g order sender_arguments = Inr (True, ps)"
    unfolding ps_def using assms sender_arguments_defaults
    by (intro assign_all_settled) (auto simp: settled_def)
  then have parse: "parse_args sc order [] sender_arguments = Inr (True, ps)"
    by (simp add: parse_args_def)
  have got: "get_arg ty nm ps = (case default_value (the (sender_arguments nm)) of
      None \<Rightarrow> None | Some v \<Rightarrow> if any_has_type ty v then Some v else None)" if "nm \<in> set sender_names" for ty nm
    using that assms(2) by (auto simp: get_arg_def ps_def settled_def split: option.splits)
  show ?thesis
    using sender_default_values got
    by (simp add: sender_config_def parse get_value_def sender_names_def default_config_def)
qed

theorem empty_command_line_witness: "sender_config no_fractions (rev sender_names) [] = Inr default_config"
proof (rule empty_command_line)
  show "distinct (rev sender_names)" unfolding distinct_rev by (simp add: sender_names_def)
qed (rule set_rev)

text \<open>an argument that does not start with two dashes makes the parser return false; the
  result is ignored and the first \<open>value()\<close> throws.\<close>

theorem malformed_argument_throws:
  assumes "take 2 arg \<noteq> ''--''"
  shows "sender_config sc order (arg # args) = Inl BadOptionalAccess"
proof -
  have "sender_arguments ''remote-ip'' \<noteq> None"
    "arg_value (the (sender_arguments ''remote-ip'')) = None"
    using sender_arguments_defaults by (simp_all add: sender_names_def)
  then have "get_value TString ''remote-ip'' sender_arguments = Inl BadOptionalAccess"
    by (auto simp: get_value_def get_arg_def)
  with assms show ?thesis
    by (simp add: sender_config_def parse_args_def parse_one_def)
qed

theorem malformed_argument_throws_witness:
  "sender_config no_fractions sender_names [''help''] = Inl BadOptionalAccess"
  by (rule malformed_argument_throws) simp

text \<open>An unknown argument makes \<open>at\<close> throw out of \<open>main\<close>.\<close>

theorem unknown_argument_throws:
  assumes "nm \<notin> dom sender_arguments" "CHR ''='' \<notin> set nm"
  shows "sender_config sc order ((''--'' @ nm) # args) = Inl MapOutOfRange"
  using assms by (simp add: sender_config_def parse_args_def parse_one_def domIff)

theorem unknown_argument_throws_witness:
  "sender_config no_fractions sender_names [''--verbose''] = Inl MapOutOfRange"
proof -
  have "sender_arguments ''verbose'' = None" by code_simp
  then show ?thesis using unknown_argument_throws [of "''verbose''" no_fractions sender_names "[]"] by auto
qed

text \<open>The prompt of the sender is left only by the word exit: without it the loop runs on,
  also when the input has ended.\<close>

theorem prompt_needs_exit:
  assumes "''exit'' \<notin> set ws"
  shows "command_loop n ws = None"
  using assms
proof (induction n arbitrary: ws)
  case (Suc n)
  obtain c ws' where c: "next_command ws = (c, ws')" by (metis surj_pair)
  then have "c \<noteq> CmdExit" "set ws' \<subseteq> set ws"
    using Suc.prems by (cases ws; auto split: if_splits list.splits)+
  with Suc c show ?case by (cases c) auto
qed simp

theorem prompt_needs_exit_witness: "command_loop 100 [''send'', ''file''] = None"
  by (rule prompt_needs_exit) simp

lemma written_files_from:
  assumes "oss \<noteq> []" "sorted_wrt (\<lambda>xs ys. \<exists>zs. ys = xs @ zs) oss" "\<forall>os \<in> set oss. pos \<le> length os"
  shows "concat (written_files oss pos) = drop pos (last oss)"
  using assms
proof (induction oss arbitrary: pos rule: induct_list012)
  case (3 os os' oss)
  then obtain zs where zs: "os' = os @ zs" by auto
  have ge: "\<forall>x \<in> set (os' # oss). length os \<le> length x" using "3.prems"(2) by auto
  have "concat (written_files (os' # oss) (length os)) = drop (length os) (last (os' # oss))"
    using "3.prems"(2) ge by (intro "3.IH"(2)) auto
  moreover obtain us where "last (os' # oss) = os @ us"
    using "3.prems"(2) last_in_set [of "os' # oss"] by auto
  ultimately show ?case using "3.prems"(3) by (simp add: write_file_def)
qed (simp_all add: write_file_def)

text \<open>the files the receiver writes one after another are together the stream.\<close>

theorem files_make_up_stream:
  assumes "oss \<noteq> []" "sorted_wrt (\<lambda>xs ys. \<exists>zs. ys = xs @ zs) oss"
  shows "concat (written_files oss 0) = last oss"
  using written_files_from [OF assms, of 0] by simp

theorem files_make_up_stream_witness:
  "concat (written_files [[1, 2], [1, 2, 3]] 0) = [1, 2, 3]"
  using files_make_up_stream [of "[[1, 2], [1, 2, 3]]"] by simp

end
