(* ===== verification/ReceiverInv.thy ===== *)
theory ReceiverInv
  imports Receiver
begin

text \<open>
  What a receiver does with the packets of one sender. The packets are numbered: the list
  \<open>hist\<close> holds packet number i at position i. The lemmas show that the buffer is always a
  sorted part of the numbered packets and that a turn appends to the stream exactly the
  payloads of the numbers the window passes, each once and in order.
\<close>

definition numbered :: "Packet list \<Rightarrow> bool" where
  "numbered hist \<longleftrightarrow> length hist < 4294967296 \<and> (\<forall>i < length hist. sn (seq (hist ! i)) = i)"

definition in_hist :: "Packet list \<Rightarrow> Packet \<Rightarrow> bool" where
  "in_hist hist p \<longleftrightarrow> sn (seq p) < length hist \<and> hist ! sn (seq p) = p"

text \<open>The payloads of the numbers from i up to j, joined.\<close>

definition payloads :: "Packet list \<Rightarrow> nat \<Rightarrow> nat \<Rightarrow> bytes" where
  "payloads hist i j = concat (map (\<lambda>k. payload (hist ! k)) [i..<j])"

definition buffer_ok :: "Packet list \<Rightarrow> Packet list \<Rightarrow> bool" where
  "buffer_ok hist buf \<longleftrightarrow> sorted_wrt packet_less buf \<and> (\<forall>p \<in> set buf. in_hist hist p)"

lemma payloads_empty [simp]: "payloads hist i i = []"
  by (simp add: payloads_def)

lemma payloads_append:
  "i \<le> j \<Longrightarrow> j \<le> k \<Longrightarrow> payloads hist i j @ payloads hist j k = payloads hist i k"
  using upt_add_eq_append [of i j "k - j"] by (simp add: payloads_def flip: concat_append map_append)

lemma payloads_first: "i < j \<Longrightarrow> payloads hist i j = payload (hist ! i) @ payloads hist (Suc i) j"
  by (simp add: payloads_def upt_conv_Cons)

lemma payloads_all: "payloads hist 0 (length hist) = concat (map payload hist)"
proof -
  have "map (\<lambda>k. payload (hist ! k)) [0..<length hist] = map payload hist"
    by (rule nth_equalityI) simp_all
  then show ?thesis by (simp add: payloads_def)
qed

lemma payloads_grow: "j \<le> length hist \<Longrightarrow> payloads (hist @ xs) i j = payloads hist i j"
  unfolding payloads_def
  by (intro arg_cong [where f = concat] map_cong) (auto simp: nth_append)

lemma in_hist_grow: "in_hist hist p \<Longrightarrow> in_hist (hist @ xs) p"
  by (auto simp: in_hist_def nth_append)

lemma in_hist_nth: "numbered hist \<Longrightarrow> i < length hist \<Longrightarrow> in_hist hist (hist ! i)"
  by (simp add: numbered_def in_hist_def)

lemma in_hist_inj: "in_hist hist p \<Longrightarrow> in_hist hist q \<Longrightarrow> seq p = seq q \<Longrightarrow> p = q"
  by (auto simp: in_hist_def)

lemma buffer_ok_grow: "buffer_ok hist buf \<Longrightarrow> buffer_ok (hist @ xs) buf"
  by (auto simp: buffer_ok_def in_hist_grow)

lemma buffer_ok_Nil [simp]: "buffer_ok hist []"
  by (simp add: buffer_ok_def)

lemma buffer_ok_Cons:
  "buffer_ok hist (p # ps) \<longleftrightarrow>
     in_hist hist p \<and> (\<forall>q \<in> set ps. seq p < seq q) \<and> buffer_ok hist ps"
  by (auto simp: buffer_ok_def packet_less_def)

subsection \<open>Inserting and sliding\<close>

lemma set_buffer_insert:
  "set (buffer_insert p buf) = (if seq p \<in> seq ` set buf then set buf else insert p (set buf))"
  if "sorted_wrt packet_less buf"
  using that
proof (induction buf)
  case (Cons q qs)
  then show ?case
    by (auto simp: packet_less_def image_iff dest: order_less_not_sym order_less_imp_not_eq)
qed simp

lemma sorted_buffer_insert:
  "sorted_wrt packet_less buf \<Longrightarrow> sorted_wrt packet_less (buffer_insert p buf)"
proof (induction buf)
  case (Cons q qs)
  have "packet_less q x" if "x \<in> set (buffer_insert p qs)" "packet_less q p" for x
    using that Cons.prems by (auto simp: set_buffer_insert split: if_splits)
  with Cons show ?case by (auto simp: packet_less_def)
qed simp

lemma buffer_ok_insert:
  "buffer_ok hist buf \<Longrightarrow> in_hist hist p \<Longrightarrow> buffer_ok hist (buffer_insert p buf)"
  by (auto simp: buffer_ok_def sorted_buffer_insert set_buffer_insert split: if_splits)

lemma seqs_buffer_insert:
  "sorted_wrt packet_less buf \<Longrightarrow> seq ` set (buffer_insert p buf) = insert (seq p) (seq ` set buf)"
  by (auto simp: set_buffer_insert split: if_splits)

text \<open>
  Sliding over a buffer of numbered packets: the window moves from \<open>first\<close> to \<open>first'\<close>, the
  payloads in between are written, the packets in between leave the buffer, and the front
  of what is left is not the next one.
\<close>

lemma slide_buffer_spec:
  assumes "numbered hist" "buffer_ok hist buf" "slide_buffer buf first second os = (buf', first', second', os')"
  shows "sn first \<le> sn first'"
    and "sn first \<le> length hist \<Longrightarrow> sn first' \<le> length hist"
    and "buffer_ok hist buf'"
    and "os' = os_write (payloads hist (sn first) (sn first')) os"
    and "seq ` set buf \<subseteq> seq ` set buf' \<union> {sq. sn first \<le> sn sq \<and> sn sq < sn first'}"
    and "{sq. sn first \<le> sn sq \<and> sn sq < sn first'} \<subseteq> seq ` set buf"
    and "set buf' \<subseteq> set buf"
    and "buf' = [] \<or> seq (hd buf') \<noteq> first'"
proof -
  have "sn first \<le> sn first' \<and> (sn first \<le> length hist \<longrightarrow> sn first' \<le> length hist) \<and>
    buffer_ok hist buf' \<and>
    os' = os_write (payloads hist (sn first) (sn first')) os \<and>
    seq ` set buf \<subseteq> seq ` set buf' \<union> {sq. sn first \<le> sn sq \<and> sn sq < sn first'} \<and>
    {sq. sn first \<le> sn sq \<and> sn sq < sn first'} \<subseteq> seq ` set buf \<and>
    set buf' \<subseteq> set buf \<and> (buf' = [] \<or> seq (hd buf') \<noteq> first')"
    using assms(2,3)
  proof (induction buf first second os rule: slide_buffer.induct)
    case (1 first second os)
    then show ?case by (auto simp: os_write_def split: option.splits)
  next
    case (2 p ps first second os)
    show ?case
    proof (cases "seq p = first")
      case False
      with 2 show ?thesis by (auto simp: os_write_def split: option.splits)
    next
      case True
      have p: "in_hist hist p" and ps: "buffer_ok hist ps"
        using "2.prems"(1) by (auto simp: buffer_ok_Cons)
      then have less: "sn first < length hist" and pay: "payload (hist ! sn first) = payload p"
        using True by (auto simp: in_hist_def)
      then have up: "sn (update_seq first) = Suc (sn first)"
        using assms(1) by (intro sn_update) (simp add: numbered_def)
      have eq: "slide_buffer ps (update_seq first) (update_seq second) (os_write (payload p) os) =
          (buf', first', second', os')"
        using "2.prems"(2) True by simp
      note IH = "2.IH" [OF True ps eq, unfolded up]
      from IH have le: "Suc (sn first) \<le> sn first'" by blast
      then have split: "{sq. sn first \<le> sn sq \<and> sn sq < sn first'} =
          insert first {sq. Suc (sn first) \<le> sn sq \<and> sn sq < sn first'}"
        by (auto simp: Suc_le_eq order_le_less)
      have "os' = os_write (payloads hist (sn first) (sn first')) os"
        using IH le pay by (auto simp: os_write_def payloads_first split: option.splits)
      with IH less le True show ?thesis unfolding split by auto
    qed
  qed
  then show "sn first \<le> sn first'" "sn first \<le> length hist \<Longrightarrow> sn first' \<le> length hist"
    "buffer_ok hist buf'" "os' = os_write (payloads hist (sn first) (sn first')) os"
    "seq ` set buf \<subseteq> seq ` set buf' \<union> {sq. sn first \<le> sn sq \<and> sn sq < sn first'}"
    "{sq. sn first \<le> sn sq \<and> sn sq < sn first'} \<subseteq> seq ` set buf"
    "set buf' \<subseteq> set buf" "buf' = [] \<or> seq (hd buf') \<noteq> first'"
    by blast+
qed

text \<open>A buffer that holds nothing below the window keeps nothing at or below it.\<close>

lemma slide_buffer_above:
  assumes "numbered hist" "buffer_ok hist buf" "\<forall>p \<in> set buf. first \<le> seq p"
    and "slide_buffer buf first second os = (buf', first', second', os')"
  shows "\<forall>p \<in> set buf'. first' < seq p"
  using assms(2-)
proof (induction buf first second os rule: slide_buffer.induct)
  case (2 p ps first second os)
  have p: "in_hist hist p" "buffer_ok hist ps" "\<forall>q \<in> set ps. seq p < seq q"
    using "2.prems"(1) by (auto simp: buffer_ok_Cons)
  show ?case
  proof (cases "seq p = first")
    case True
    have up: "update_seq first \<le> x \<longleftrightarrow> first < x" for x
      using p(1) True assms(1) sn_update [of first]
      by (auto simp: seq_le_iff seq_less_iff in_hist_def numbered_def)
    show ?thesis
      using "2.IH" [OF True p(2)] "2.prems"(3) p(3) True by (simp add: up)
  next
    case False
    then have eq: "buf' = p # ps" "first' = first" using "2.prems"(3) by simp_all
    have lt: "first < seq p" using "2.prems"(2) False by (simp add: order_le_less)
    with p(3) show ?thesis unfolding eq by (auto intro: order_less_trans)
  qed
qed simp

subsection \<open>One turn\<close>

text \<open>The turn opens a connection and moves the window to the packet's number.\<close>

definition opens :: "Packet \<Rightarrow> Receiver \<Rightarrow> bool" where
  "opens p r \<longleftrightarrow> r_state r = RIdle \<and> kind p = ConnReq"

text \<open>Where the window stands before it slides in this turn.\<close>

definition turn_first :: "Packet \<Rightarrow> Receiver \<Rightarrow> SequenceNumber" where
  "turn_first p r = (if opens p r then seq p else r_window_first r)"

text \<open>The number a turn acknowledges.\<close>

definition ack_seq :: "Packet \<Rightarrow> Receiver \<Rightarrow> SequenceNumber" where
  "ack_seq p r = (if r_selective_repeat r then seq p else r_window_first r)"

lemma reply_ack_frame [frame_simps]:
  "r_window_first (reply_ack a k sq r) = r_window_first r"
  "r_window_second (reply_ack a k sq r) = r_window_second r"
  "r_recv_buffer (reply_ack a k sq r) = r_recv_buffer r"
  "r_peer_addr (reply_ack a k sq r) = r_peer_addr r"
  "r_state (reply_ack a k sq r) = r_state r"
  "r_running (reply_ack a k sq r) = r_running r"
  "r_selective_repeat (reply_ack a k sq r) = r_selective_repeat r"
  "r_max_window_size (reply_ack a k sq r) = r_max_window_size r"
  "r_os (reply_ack a k sq r) = r_os r"
  "max_buf_size (r_channel (reply_ack a k sq r)) = max_buf_size (r_channel r)"
  by (simp_all add: reply_ack_def split: option.splits)

lemma recv_deliver_frame [frame_simps]:
  "r_channel (recv_deliver p r) = r_channel r"
  "r_peer_addr (recv_deliver p r) = r_peer_addr r"
  "r_state (recv_deliver p r) = r_state r"
  "r_running (recv_deliver p r) = r_running r"
  "r_selective_repeat (recv_deliver p r) = r_selective_repeat r"
  "r_max_window_size (recv_deliver p r) = r_max_window_size r"
  by (simp_all add: recv_deliver_def split: prod.splits)

lemma recv_switch_frame [frame_simps]:
  "r_window_first (fst (recv_switch p addr r)) = turn_first p r"
  "r_recv_buffer (fst (recv_switch p addr r)) = r_recv_buffer r"
  "r_channel (fst (recv_switch p addr r)) = r_channel r"
  "r_running (fst (recv_switch p addr r)) = r_running r"
  "r_selective_repeat (fst (recv_switch p addr r)) = r_selective_repeat r"
  "r_max_window_size (fst (recv_switch p addr r)) = r_max_window_size r"
  "r_os (fst (recv_switch p addr r)) = r_os r"
  "r_peer_addr (fst (recv_switch p addr r)) = (if opens p r then Some addr else r_peer_addr r)"
  by (auto simp: recv_switch_def turn_first_def opens_def split: ReceiverState.splits)

text \<open>The states a turn can lead to.\<close>

lemma recv_switch_state:
  "r_state (fst (recv_switch p addr r)) =
     (case r_state r of
        RIdle \<Rightarrow> if kind p = ConnReq then RConnected else RIdle
      | Receiving \<Rightarrow> if kind p = DataStop then RConnected else Receiving
      | RConnected \<Rightarrow> if kind p = DataPush then Receiving
                      else if kind p = DisconnReq then RIdle else RConnected)"
  by (auto simp: recv_switch_def split: ReceiverState.splits)

text \<open>The two ways a packet is handled.\<close>

definition dropped :: "Packet \<Rightarrow> Receiver \<Rightarrow> bool" where
  "dropped p r \<longleftrightarrow> r_state r \<noteq> RIdle \<and> (seq p < r_window_first r \<or> r_window_second r \<le> seq p)"

definition accept_packet :: "os_answer \<Rightarrow> PacketKind \<Rightarrow> Packet \<Rightarrow> SocketAddr \<Rightarrow> Receiver \<Rightarrow> Receiver" where
  "accept_packet a k p addr r =
     (let r = recv_deliver p (fst (recv_switch p addr r)) in reply_ack a k (ack_seq p r) r)"

definition drop_packet :: "os_answer \<Rightarrow> PacketKind \<Rightarrow> Packet \<Rightarrow> Receiver \<Rightarrow> Receiver" where
  "drop_packet a k p r =
     (if r_selective_repeat r \<and> \<not> seq p < r_window_first r then r
      else reply_ack a k (ack_seq p r) r)"

lemma recv_packet_cases:
  assumes "recv_packet a p addr r = Inr (ctl, r')"
  obtains (ack) "is_ack p" "ctl = NextTurn" "r' = r"
  | (dropped) k where "get_ack_kind (kind p) = Some k" "dropped p r" "ctl = NextTurn"
      "r' = drop_packet a k p r"
  | (accepted) k where "get_ack_kind (kind p) = Some k" "\<not> dropped p r" "r' = accept_packet a k p addr r"
  using assms
  by (fastforce simp: recv_packet_def dropped_def drop_packet_def accept_packet_def ack_seq_def Let_def
      split: if_splits option.splits prod.splits)

lemma recv_packet_fault:
  "recv_packet a p addr r = Inl e \<longleftrightarrow>
     e = BadOptionalAccess \<and> \<not> is_ack p \<and> get_ack_kind (kind p) = None"
proof (cases "is_ack p \<or> get_ack_kind (kind p) = None")
  case True
  then show ?thesis by (auto simp: recv_packet_def split: option.splits)
next
  case False
  then show ?thesis
    by (cases "get_ack_kind (kind p)") (simp_all add: recv_packet_def Let_def case_prod_beta)
qed

lemma accept_packet_frame:
  "r_state (accept_packet a k p addr r) = r_state (fst (recv_switch p addr r))"
  "r_peer_addr (accept_packet a k p addr r) = (if opens p r then Some addr else r_peer_addr r)"
  "r_selective_repeat (accept_packet a k p addr r) = r_selective_repeat r"
  "r_running (accept_packet a k p addr r) = r_running r"
  "r_max_window_size (accept_packet a k p addr r) = r_max_window_size r"
  "max_buf_size (r_channel (accept_packet a k p addr r)) = max_buf_size (r_channel r)"
  by (simp_all add: accept_packet_def Let_def frame_simps)

lemma accept_packet_spec:
  assumes "numbered hist" "buffer_ok hist (r_recv_buffer r)" "in_hist hist p"
    and "sn (r_window_first r) \<le> length hist"
    and r'_def: "r' = accept_packet a k p addr r"
  shows "sn (turn_first p r) \<le> sn (r_window_first r')"
    and "sn (r_window_first r') \<le> length hist"
    and "buffer_ok hist (r_recv_buffer r')"
    and "r_os r' = os_write (payloads hist (sn (turn_first p r)) (sn (r_window_first r'))) (r_os r)"
    and "insert (seq p) (seq ` set (r_recv_buffer r)) \<subseteq> seq ` set (r_recv_buffer r') \<union>
           {sq. sn (turn_first p r) \<le> sn sq \<and> sn sq < sn (r_window_first r')}"
    and "{sq. sn (turn_first p r) \<le> sn sq \<and> sn sq < sn (r_window_first r')} \<subseteq>
           insert (seq p) (seq ` set (r_recv_buffer r))"
    and "seq ` set (r_recv_buffer r') \<subseteq> insert (seq p) (seq ` set (r_recv_buffer r))"
    and "r_recv_buffer r' = [] \<or> seq (hd (r_recv_buffer r')) \<noteq> r_window_first r'"
proof -
  let ?r = "fst (recv_switch p addr r)"
  obtain buf first second os where sl: "slide_buffer (buffer_insert p (r_recv_buffer r))
      (turn_first p r) (r_window_second ?r) (r_os r) = (buf, first, second, os)"
    by (metis prod_cases4)
  have r': "r_recv_buffer r' = buf" "r_window_first r' = first" "r_os r' = os"
    using sl by (simp_all add: r'_def accept_packet_def Let_def recv_deliver_def frame_simps)
  have b: "buffer_ok hist (buffer_insert p (r_recv_buffer r))"
    using assms(2,3) by (rule buffer_ok_insert)
  have seqs: "seq ` set (buffer_insert p (r_recv_buffer r)) = insert (seq p) (seq ` set (r_recv_buffer r))"
    using assms(2) by (intro seqs_buffer_insert) (simp add: buffer_ok_def)
  have le: "sn (turn_first p r) \<le> length hist"
    using assms(3,4) by (simp add: turn_first_def in_hist_def)
  note spec = slide_buffer_spec [OF assms(1) b sl, unfolded seqs]
  show "sn (turn_first p r) \<le> sn (r_window_first r')" using spec(1) r' by simp
  show "sn (r_window_first r') \<le> length hist" using spec(2) [OF le] r' by simp
  show "buffer_ok hist (r_recv_buffer r')" using spec(3) r' by simp
  show "r_os r' = os_write (payloads hist (sn (turn_first p r)) (sn (r_window_first r'))) (r_os r)"
    using spec(4) r' by simp
  show "insert (seq p) (seq ` set (r_recv_buffer r)) \<subseteq> seq ` set (r_recv_buffer r') \<union>
           {sq. sn (turn_first p r) \<le> sn sq \<and> sn sq < sn (r_window_first r')}"
    using spec(5) r' by simp
  show "{sq. sn (turn_first p r) \<le> sn sq \<and> sn sq < sn (r_window_first r')} \<subseteq>
           insert (seq p) (seq ` set (r_recv_buffer r))"
    using spec(6) r' by simp
  show "seq ` set (r_recv_buffer r') \<subseteq> insert (seq p) (seq ` set (r_recv_buffer r))"
    using image_mono [OF spec(7), of seq] seqs r' by simp
  show "r_recv_buffer r' = [] \<or> seq (hd (r_recv_buffer r')) \<noteq> r_window_first r'"
    using spec(8) r' by simp
qed

lemma drop_packet_frame:
  "r_window_first (drop_packet a k p r) = r_window_first r"
  "r_window_second (drop_packet a k p r) = r_window_second r"
  "r_recv_buffer (drop_packet a k p r) = r_recv_buffer r"
  "r_state (drop_packet a k p r) = r_state r"
  "r_peer_addr (drop_packet a k p r) = r_peer_addr r"
  "r_selective_repeat (drop_packet a k p r) = r_selective_repeat r"
  "r_running (drop_packet a k p r) = r_running r"
  "r_max_window_size (drop_packet a k p r) = r_max_window_size r"
  "max_buf_size (r_channel (drop_packet a k p r)) = max_buf_size (r_channel r)"
  "r_os (drop_packet a k p r) = r_os r"
  by (simp_all add: drop_packet_def frame_simps)

text \<open>What a turn may send: one acknowledgement, to the peer, and only when there is a peer.\<close>

definition ack_packet :: "PacketKind \<Rightarrow> SequenceNumber \<Rightarrow> Packet" where
  "ack_packet k sq = mk_packet NKURDT_VERSION k sq []"

lemma reply_ack_outbox:
  "set (outbox (r_channel (reply_ack a k sq r))) \<subseteq>
     set (outbox (r_channel r)) \<union>
     (case r_peer_addr r of None \<Rightarrow> {} | Some addr \<Rightarrow> {(addr, to_bytes (ack_packet k sq))})"
  using set_outbox_send by (auto simp: reply_ack_def ack_packet_def split: option.splits)

lemma accept_packet_outbox:
  "set (outbox (r_channel (accept_packet a k p addr r))) \<subseteq>
     set (outbox (r_channel r)) \<union>
     (case r_peer_addr (accept_packet a k p addr r) of
        None \<Rightarrow> {}
      | Some addr' \<Rightarrow> {(addr', to_bytes (ack_packet k (ack_seq p (accept_packet a k p addr r))))})"
proof -
  let ?r = "recv_deliver p (fst (recv_switch p addr r))"
  have eqs: "ack_seq p (accept_packet a k p addr r) = ack_seq p ?r"
    "r_peer_addr (accept_packet a k p addr r) = r_peer_addr ?r"
    by (simp_all add: accept_packet_def Let_def ack_seq_def frame_simps)
  have ch: "r_channel ?r = r_channel r" by (simp add: frame_simps)
  have "accept_packet a k p addr r = reply_ack a k (ack_seq p ?r) ?r"
    by (simp add: accept_packet_def Let_def)
  then show ?thesis
    using reply_ack_outbox [of a k "ack_seq p ?r" ?r] unfolding eqs ch by (simp only:)
qed

lemma drop_packet_outbox:
  "set (outbox (r_channel (drop_packet a k p r))) \<subseteq>
     set (outbox (r_channel r)) \<union>
     (case r_peer_addr r of
        None \<Rightarrow> {}
      | Some addr \<Rightarrow> if r_selective_repeat r \<and> \<not> seq p < r_window_first r then {}
                     else {(addr, to_bytes (ack_packet k (ack_seq p r)))})"
  using reply_ack_outbox [of a k "ack_seq p r" r] by (auto simp: drop_packet_def split: option.splits)

lemma get_ack_kind_is_ack: "get_ack_kind k = Some k' \<Longrightarrow> is_ack (ack_packet k' sq) \<and> kind_ok k'"
  by (auto simp: get_ack_kind_def is_ack_def ack_packet_def mk_packet_def kind_ok_def split: if_splits)

lemma ack_packet_sel [simp]: "seq (ack_packet k sq) = sq" "kind (ack_packet k sq) = k"
  "payload (ack_packet k sq) = []"
  by (simp_all add: ack_packet_def mk_packet_def)

lemma accept_packet_above:
  assumes "numbered hist" "buffer_ok hist (r_recv_buffer r)" "in_hist hist p"
    and "\<forall>q \<in> set (r_recv_buffer r). turn_first p r \<le> seq q" "turn_first p r \<le> seq p"
    and r'_def: "r' = accept_packet a k p addr r"
  shows "\<forall>q \<in> set (r_recv_buffer r'). r_window_first r' < seq q"
proof -
  let ?r = "fst (recv_switch p addr r)"
  obtain buf first second os where sl: "slide_buffer (buffer_insert p (r_recv_buffer r))
      (turn_first p r) (r_window_second ?r) (r_os r) = (buf, first, second, os)"
    by (metis prod_cases4)
  have r': "r_recv_buffer r' = buf" "r_window_first r' = first"
    using sl by (simp_all add: r'_def accept_packet_def Let_def recv_deliver_def frame_simps)
  have "\<forall>q \<in> set (buffer_insert p (r_recv_buffer r)). turn_first p r \<le> seq q"
    using assms(2,4,5) by (auto simp: set_buffer_insert buffer_ok_def split: if_splits)
  from slide_buffer_above [OF assms(1) buffer_ok_insert [OF assms(2,3)] this sl] r'
  show ?thesis by simp
qed

end
