(* ===== verification/SenderInv.thy ===== *)
theory SenderInv
  imports Sender ReceiverInv
begin

text \<open>
  The invariant of the sender and its preservation by every piece of every thread. The
  list \<open>hist\<close> holds the packets made so far, packet number i at position i; \<open>res\<close> is the
  packet the caller's thread has numbered but not yet entered, \<open>popped\<close> the number the send
  thread holds. The central clause: every number of the window that is not acknowledged is
  in the pending queue, with the timer, in the hands of a thread, or has used up its
  retries. So no packet is forgotten by any interleaving of the threads.
\<close>

subsection \<open>The parts of the invariant\<close>

definition window_ok :: "Packet list \<Rightarrow> Sender \<Rightarrow> bool" where
  "window_ok hist s \<longleftrightarrow>
     numbered hist \<and> sn (upper_bound (s_window s)) = length hist \<and>
     lower_bound (s_window s) \<le> upper_bound (s_window s) \<and>
     in_flight (s_window s) \<le> window_limit (s_window s)"

definition pool_ok :: "Packet list \<Rightarrow> Packet option \<Rightarrow> Sender \<Rightarrow> bool" where
  "pool_ok hist res s \<longleftrightarrow>
     (\<forall>sq p. s_packet_pool s sq = Some p \<longrightarrow> in_hist hist p \<and> seq p = sq) \<and>
     (\<forall>p. res = Some p \<longrightarrow>
        in_hist hist p \<and> Suc (sn (seq p)) = length hist \<and> s_packet_pool s (seq p) = None)"

text \<open>In the window and not acknowledged.\<close>

definition outstanding :: "Sender \<Rightarrow> SequenceNumber \<Rightarrow> bool" where
  "outstanding s sq \<longleftrightarrow>
     lower_bound (s_window s) \<le> sq \<and> sq < upper_bound (s_window s) \<and>
     \<not> (s_selective_repeat s \<and> sq \<in> s_acked_seq_set s)"

definition retries_used :: "Sender \<Rightarrow> SequenceNumber \<Rightarrow> bool" where
  "retries_used s sq \<longleftrightarrow> (\<exists>n. s_retry_count s sq = Some n \<and> s_max_retry_count s \<le> n)"

definition stored :: "Packet option \<Rightarrow> Sender \<Rightarrow> SequenceNumber \<Rightarrow> bool" where
  "stored res s sq \<longleftrightarrow> sq \<in> dom (s_packet_pool s) \<or> map_option seq res = Some sq"

definition tracked :: "Packet option \<Rightarrow> SequenceNumber option \<Rightarrow> Sender \<Rightarrow> SequenceNumber \<Rightarrow> bool" where
  "tracked res popped s sq \<longleftrightarrow>
     sq \<in> container (s_pending_queue s) \<or> sq \<in> pending (s_timer s) \<or>
     popped = Some sq \<or> map_option seq res = Some sq \<or> retries_used s sq"

definition none_lost :: "Packet option \<Rightarrow> SequenceNumber option \<Rightarrow> Sender \<Rightarrow> bool" where
  "none_lost res popped s \<longleftrightarrow>
     (\<forall>sq. outstanding s sq \<longrightarrow> stored res s sq \<and> tracked res popped s sq)"

definition outbox_ok :: "Packet list \<Rightarrow> Sender \<Rightarrow> bool" where
  "outbox_ok hist s \<longleftrightarrow>
     (\<forall>d \<in> snd ` set (outbox (s_channel s)). \<exists>p. in_hist hist p \<and> d = to_bytes p)"

definition acked_ok :: "Sender \<Rightarrow> bool" where
  "acked_ok s \<longleftrightarrow> (\<forall>sq \<in> s_acked_seq_set s. sq < upper_bound (s_window s))"

definition retry_ok :: "Sender \<Rightarrow> bool" where
  "retry_ok s \<longleftrightarrow> (\<forall>sq n. s_retry_count s sq = Some n \<longrightarrow> n \<le> s_max_retry_count s)"

definition sender_inv :: "Packet list \<Rightarrow> Packet option \<Rightarrow> SequenceNumber option \<Rightarrow> Sender \<Rightarrow> bool" where
  "sender_inv hist res popped s \<longleftrightarrow>
     window_ok hist s \<and> pool_ok hist res s \<and> none_lost res popped s \<and> outbox_ok hist s \<and>
     acked_ok s \<and> retry_ok s \<and> timer_inv (s_timer s)"

lemmas sender_inv_defs = window_ok_def pool_ok_def none_lost_def outbox_ok_def acked_ok_def
  retry_ok_def outstanding_def stored_def tracked_def retries_used_def

lemma sender_invI:
  "window_ok hist s \<Longrightarrow> pool_ok hist res s \<Longrightarrow> none_lost res popped s \<Longrightarrow> outbox_ok hist s \<Longrightarrow>
     acked_ok s \<Longrightarrow> retry_ok s \<Longrightarrow> timer_inv (s_timer s) \<Longrightarrow> sender_inv hist res popped s"
  by (simp add: sender_inv_def)

text \<open>The state and the running flag do not matter.\<close>

lemma sender_inv_state [simp]:
  "sender_inv hist res popped (s\<lparr>s_state := st\<rparr>) = sender_inv hist res popped s"
  "sender_inv hist res popped (s\<lparr>s_running := b\<rparr>) = sender_inv hist res popped s"
  "sender_inv hist res popped (s\<lparr>s_peer_addr := addr\<rparr>) = sender_inv hist res popped s"
  "sender_inv hist res popped (s\<lparr>s_actual_max_retry_count := n\<rparr>) = sender_inv hist res popped s"
  "sender_inv hist res popped (s\<lparr>s_ack_dup_times := n\<rparr>) = sender_inv hist res popped s"
  by (simp_all add: sender_inv_def sender_inv_defs)

lemma sender_inv_give_up [simp]:
  "sender_inv hist res popped (give_up s) = sender_inv hist res popped s"
  by (simp add: give_up_def)

lemma sender_inv_switch [simp]:
  "sender_inv hist res popped (enter_state st s) = sender_inv hist res popped s"
  by (simp add: enter_state_def)

subsection \<open>The start\<close>

definition sender_fresh :: "Sender \<Rightarrow> bool" where
  "sender_fresh s \<longleftrightarrow>
     container (s_pending_queue s) = {} \<and> s_packet_pool s = Map.empty \<and>
     s_retry_count s = Map.empty \<and> s_acked_seq_set s = {} \<and> outbox (s_channel s) = []"

lemma sender_inv_init:
  "sender_fresh s \<Longrightarrow> sender_inv [] None None (snd (sender_init s))"
  by (auto simp: sender_init_def sender_fresh_def sender_inv_def sender_inv_defs numbered_def
      in_flight_def sn_def minus_SequenceNumber_def inv_intros)

subsection \<open>send\_packet\<close>

lemma outbox_ok_grow:
  "outbox_ok hist s \<Longrightarrow> s_channel s' = s_channel s \<Longrightarrow> outbox_ok (hist @ xs) s'"
  unfolding outbox_ok_def by (metis in_hist_grow)

lemma sender_inv_reserve:
  assumes inv: "sender_inv hist None popped s" and avail: "window_available (s_window s)"
    and room: "Suc (length hist) < 4294967296"
    and eq: "send_packet_reserve k pl s = (p, s')"
  shows "sender_inv (hist @ [p]) (Some p) popped s'"
proof -
  let ?up = "upper_bound (s_window s)"
  from eq have p: "p = mk_packet NKURDT_VERSION k ?up pl"
    and s': "s' = s\<lparr>s_window := update_upper_bound (s_window s)\<rparr>"
    by (simp_all add: send_packet_reserve_def Let_def)
  have w: "numbered hist" "sn ?up = length hist" "lower_bound (s_window s) \<le> ?up"
    "in_flight (s_window s) < window_limit (s_window s)"
    using inv avail by (simp_all add: sender_inv_def window_ok_def window_available_iff)
  have up: "sn (update_seq ?up) = Suc (length hist)"
    using w(2) room by (simp add: sn_update)
  have num: "numbered (hist @ [p])"
    using w(1,2) room by (auto simp: numbered_def nth_append p mk_packet_def less_Suc_eq)
  have new: "in_hist (hist @ [p]) p"
    using w(2) by (simp add: in_hist_def p mk_packet_def nth_append)
  have le: "lower_bound (s_window s) \<le> update_seq ?up"
    using w(2,3) up by (simp add: seq_le_iff)
  have lt: "sq < update_seq ?up \<longleftrightarrow> sq < ?up \<or> sq = ?up" for sq
    using w(2) up by (auto simp: seq_less_iff less_Suc_eq seq_eq_iff simp del: sn_inject)
  show ?thesis
  proof (rule sender_invI)
    have "window_limit (s_window s) < 4294967296" by (simp add: window_limit_def)
    then show "window_ok (hist @ [p]) s'"
      using num up le w(4) by (simp add: window_ok_def s' in_flight_update_upper)
    have pool: "\<forall>sq q. s_packet_pool s sq = Some q \<longrightarrow> in_hist hist q \<and> seq q = sq"
      using inv by (simp add: sender_inv_def pool_ok_def)
    have "s_packet_pool s ?up = None"
    proof (cases "s_packet_pool s ?up")
      case (Some q)
      with pool have "in_hist hist q" "seq q = ?up" by blast+
      with w(2) show ?thesis by (simp add: in_hist_def)
    qed
    with pool new w(2) show "pool_ok (hist @ [p]) (Some p) s'"
      unfolding pool_ok_def by (auto simp: s' in_hist_grow) (simp_all add: p mk_packet_def)
    show "none_lost (Some p) popped s'"
      using inv unfolding sender_inv_def none_lost_def
      by (auto simp: s' outstanding_def lt stored_def tracked_def retries_used_def p mk_packet_def)
    show "outbox_ok (hist @ [p]) s'"
      using inv by (intro outbox_ok_grow [of hist s]) (simp_all add: sender_inv_def s')
    show "acked_ok s'" using inv unfolding sender_inv_def acked_ok_def by (auto simp: s' lt)
    show "retry_ok s'" using inv unfolding sender_inv_def retry_ok_def by (auto simp: s')
    show "timer_inv (s_timer s')" using inv by (simp add: sender_inv_def s')
  qed
qed

lemma sender_inv_enqueue:
  assumes inv: "sender_inv hist (Some p) popped s"
  shows "sender_inv hist None popped (send_packet_enqueue p s)"
proof -
  have p: "in_hist hist p" "s_packet_pool s (seq p) = None"
    using inv by (simp_all add: sender_inv_def pool_ok_def)
  then have pool: "map_emplace (s_packet_pool s) (seq p) p = (s_packet_pool s)(seq p \<mapsto> p)" by simp
  show ?thesis
  proof (rule sender_invI)
    show "none_lost None popped (send_packet_enqueue p s)"
      using inv unfolding sender_inv_def none_lost_def
      by (auto simp: send_packet_enqueue_def outstanding_def stored_def tracked_def retries_used_def)
  qed (use inv p in \<open>auto simp: sender_inv_def send_packet_enqueue_def pool window_ok_def pool_ok_def
        outbox_ok_def acked_ok_def retry_ok_def\<close>)
qed

subsection \<open>send\_handler\<close>

lemma sender_inv_pop:
  assumes inv: "sender_inv hist res None s" and eq: "send_handler_pop s = (x, s')"
  shows "sender_inv hist res x s'"
proof (cases "s_pending_queue s" rule: queue_wait_pop_cases)
  case empty
  with inv eq show ?thesis by (simp add: send_handler_pop_def)
next
  case (popped y)
  with eq have x: "x = Some y"
    and s': "s' = s\<lparr>s_pending_queue := (s_pending_queue s)\<lparr>container := container (s_pending_queue s) - {y}\<rparr>\<rparr>"
    by (simp_all add: send_handler_pop_def)
  show ?thesis
    using inv unfolding sender_inv_def sender_inv_defs x s' by auto
qed simp

lemma cleanup_frame [frame_simps]:
  "s_window (send_handler_cleanup sq s) = s_window s"
  "s_pending_queue (send_handler_cleanup sq s) = s_pending_queue s"
  "s_acked_seq_set (send_handler_cleanup sq s) = s_acked_seq_set s"
  "s_selective_repeat (send_handler_cleanup sq s) = s_selective_repeat s"
  "s_max_retry_count (send_handler_cleanup sq s) = s_max_retry_count s"
  "s_channel (send_handler_cleanup sq s) = s_channel s"
  "s_state (send_handler_cleanup sq s) = s_state s"
  "s_running (send_handler_cleanup sq s) = s_running s"
  "s_packet_pool (send_handler_cleanup sq s) = map_erase (s_packet_pool s) sq"
  "s_timer (send_handler_cleanup sq s) = remove_event sq (s_timer s)"
  "s_retry_count (send_handler_cleanup sq s) = map_erase (s_retry_count s) sq"
  by (auto simp: send_handler_cleanup_def Let_def fun_eq_iff split: option.splits)

lemma outstanding_cong:
  "s_window s' = s_window s \<Longrightarrow> s_acked_seq_set s' = s_acked_seq_set s \<Longrightarrow>
     s_selective_repeat s' = s_selective_repeat s \<Longrightarrow> outstanding s' = outstanding s"
  by (simp add: outstanding_def fun_eq_iff)

lemma sender_inv_cleanup:
  assumes inv: "sender_inv hist res (Some sq) s" and out: "\<not> outstanding s sq"
  shows "sender_inv hist res None (send_handler_cleanup sq s)"
proof (rule sender_invI)
  let ?s = "send_handler_cleanup sq s"
  have t: "timer_inv (s_timer s)" using inv by (simp add: sender_inv_def)
  then show "timer_inv (s_timer ?s)" by (simp add: frame_simps inv_intros)
  have o: "outstanding ?s = outstanding s" by (rule outstanding_cong) (simp_all add: frame_simps)
  have "stored res ?s x \<and> tracked res None ?s x" if "outstanding s x" for x
  proof -
    have x: "x \<noteq> sq" using that out by auto
    then have "x \<in> pending (s_timer s) \<Longrightarrow> x \<in> pending (remove_event sq (s_timer s))"
      using rt.remove_keeps_other [OF t] by blast
    with x that inv show ?thesis
      by (auto simp: sender_inv_def none_lost_def stored_def tracked_def retries_used_def frame_simps)
  qed
  then show "none_lost res None ?s" by (simp add: none_lost_def o)
qed (use inv in \<open>auto simp: sender_inv_def window_ok_def pool_ok_def outbox_ok_def acked_ok_def
      retry_ok_def frame_simps\<close>)

text \<open>Sending the packet of a popped number, the retry counter having been set.\<close>

lemma sender_inv_transmit:
  assumes inv: "sender_inv hist res (Some sq) s"
  shows "sender_inv hist res None (transmit a now sq s)"
proof (cases "s_packet_pool s sq")
  case (Some p)
  have p: "in_hist hist p" using inv Some by (auto simp: sender_inv_def pool_ok_def)
  have s': "transmit a now sq s =
      s\<lparr>s_channel := snd (socket_send a (s_peer_addr s) (to_bytes p) (s_channel s)),
        s_timer := register_event sq (s_timeout s) now (s_timer s)\<rparr>"
    by (simp add: transmit_def Some)
  show ?thesis
  proof (rule sender_invI)
    show "none_lost res None (transmit a now sq s)"
      using inv unfolding sender_inv_def none_lost_def s'
      by (auto simp: outstanding_def stored_def tracked_def retries_used_def)
    have "set (outbox (s_channel (transmit a now sq s))) \<subseteq>
        insert (s_peer_addr s, to_bytes p) (set (outbox (s_channel s)))"
      using set_outbox_send by (simp add: s')
    with inv p show "outbox_ok hist (transmit a now sq s)"
      unfolding sender_inv_def outbox_ok_def by fastforce
    show "timer_inv (s_timer (transmit a now sq s))"
      using inv by (simp add: s' sender_inv_def inv_intros)
  qed (use inv in \<open>auto simp: s' sender_inv_def window_ok_def pool_ok_def acked_ok_def retry_ok_def\<close>)
next
  case None
  have s': "transmit a now sq s = s\<lparr>s_timer := remove_event sq (s_timer s)\<rparr>"
    by (simp add: transmit_def None)
  have t: "timer_inv (s_timer s)" using inv by (simp add: sender_inv_def)
  have "stored res s x \<and> tracked res None (transmit a now sq s) x" if "outstanding s x" for x
  proof (cases "x = sq")
    case True
    have "stored res s sq" using inv that True by (simp add: sender_inv_def none_lost_def)
    with None have "map_option seq res = Some sq" by (auto simp: stored_def)
    with True show ?thesis by (simp add: stored_def tracked_def)
  next
    case False
    then have "x \<in> pending (s_timer s) \<Longrightarrow> x \<in> pending (remove_event sq (s_timer s))"
      using rt.remove_keeps_other [OF t] by blast
    with False inv that show ?thesis
      by (auto simp: sender_inv_def none_lost_def stored_def tracked_def retries_used_def s')
  qed
  then have "none_lost res None (transmit a now sq s)"
    by (simp add: none_lost_def s' outstanding_def stored_def)
  with inv show ?thesis
    by (auto simp: s' sender_inv_def window_ok_def pool_ok_def acked_ok_def retry_ok_def
        outbox_ok_def inv_intros)
qed

lemma sender_inv_retry:
  assumes inv: "sender_inv hist res (Some sq) s" and n: "n \<le> s_max_retry_count s"
  shows "sender_inv hist res (Some sq) (s\<lparr>s_retry_count := (s_retry_count s)(sq \<mapsto> n)\<rparr>)"
  using inv n unfolding sender_inv_def sender_inv_defs by auto

lemma sender_inv_body:
  assumes inv: "sender_inv hist res (Some sq) s"
  shows "sender_inv hist res None (send_handler_body a now sq s)"
proof -
  consider (clean) "\<not> outstanding s sq" "send_handler_body a now sq s = send_handler_cleanup sq s"
    | (unused) "lower_bound (s_window s) = upper_bound (s_window s)" "send_handler_body a now sq s = s"
    | (exhausted) n where "s_retry_count s sq = Some n" "s_max_retry_count s \<le> n"
        "send_handler_body a now sq s = give_up s"
    | (again) n where "n \<le> s_max_retry_count s"
        "send_handler_body a now sq s = transmit a now sq (s\<lparr>s_retry_count := (s_retry_count s)(sq \<mapsto> n)\<rparr>)"
  proof (cases "s_selective_repeat s \<and> sq \<in> s_acked_seq_set s \<or> sq < lower_bound (s_window s)")
    case True
    then show ?thesis
      by (intro clean) (auto simp: outstanding_def send_handler_body_def)
  next
    case False
    show ?thesis
    proof (cases "lower_bound (s_window s) = upper_bound (s_window s)")
      case True
      with False have "send_handler_body a now sq s = s" by (auto simp: send_handler_body_def)
      with True show ?thesis by (rule unused)
    next
      case ne: False
      show ?thesis
      proof (cases "s_retry_count s sq")
        case None
        with False ne show ?thesis by (intro again [of 0]) (auto simp: send_handler_body_def)
      next
        case (Some n)
        show ?thesis
        proof (cases "s_max_retry_count s \<le> n")
          case True
          with False ne Some show ?thesis by (intro exhausted) (auto simp: send_handler_body_def)
        next
          case le: False
          then have "n + 1 \<le> s_max_retry_count s" by (simp add: inc_le not_le)
          with False ne Some le show ?thesis by (intro again) (auto simp: send_handler_body_def)
        qed
      qed
    qed
  qed
  then show ?thesis
  proof cases
    case clean
    with inv show ?thesis by (simp add: sender_inv_cleanup)
  next
    case unused
    then have "\<not> outstanding s x" for x by (auto simp: outstanding_def)
    with inv unused(2) show ?thesis by (auto simp: sender_inv_def none_lost_def)
  next
    case (exhausted n)
    then have "tracked res None s x" if "tracked res (Some sq) s x" for x
      using that by (auto simp: tracked_def retries_used_def)
    with inv have "sender_inv hist res None s" by (auto simp: sender_inv_def none_lost_def)
    with exhausted(3) show ?thesis by simp
  next
    case (again n)
    with inv show ?thesis by (simp add: sender_inv_transmit sender_inv_retry)
  qed
qed

subsection \<open>recv\_handler\<close>

text \<open>The acknowledgement is one of a packet that was made, or of all of them.\<close>

definition ack_in_range :: "Packet \<Rightarrow> Sender \<Rightarrow> bool" where
  "ack_in_range p s \<longleftrightarrow>
     (if s_selective_repeat s then seq p < upper_bound (s_window s)
      else seq p \<le> upper_bound (s_window s))"

lemma container_push_range:
  "container (push_range lo up q) = container q \<union> {x. lo \<le> x \<and> x < up}"
proof (induction lo up q rule: push_range.induct)
  case (1 lo up q)
  show ?case
  proof (cases "lo < up")
    case True
    have "container (push_range lo up q) =
        insert lo (container q) \<union> {x. update_seq lo \<le> x \<and> x < up}"
      using 1 True by (simp add: push_range.simps [of lo up q])
    then show ?thesis unfolding seq_interval_split [OF True] by blast
  next
    case False
    then show ?thesis by (auto simp: push_range.simps [of lo up q])
  qed
qed

lemma slide_acked_spec:
  assumes "slide_acked acked w = (acked', w')" "\<forall>x \<in> acked. x < upper_bound w"
    and "lower_bound w \<le> upper_bound w"
  shows "lower_bound w \<le> lower_bound w' \<and> lower_bound w' \<le> upper_bound w \<and>
    upper_bound w' = upper_bound w \<and> max_window_size w' = max_window_size w \<and>
    acked' = acked - {x. lower_bound w \<le> x \<and> x < lower_bound w'} \<and>
    {x. lower_bound w \<le> x \<and> x < lower_bound w'} \<subseteq> acked \<and> lower_bound w' \<notin> acked'"
  using assms
proof (induction acked w rule: slide_acked.induct)
  case (1 acked w)
  let ?lo = "lower_bound w" and ?up = "upper_bound w"
  show ?case
  proof (cases "?lo \<in> acked")
    case True
    with "1.prems"(2) have lt: "?lo < ?up" by blast
    have up: "sn (update_seq ?lo) = Suc (sn ?lo)" using lt by (rule sn_update_less)
    have "update_seq ?lo \<le> ?up" using lt up by (simp add: seq_le_iff seq_less_iff)
    moreover have "slide_acked (acked - {?lo}) (update_lower_bound w) = (acked', w')"
      using "1.prems"(1) True by (simp add: slide_acked.simps [of acked w])
    ultimately have IH: "update_seq ?lo \<le> lower_bound w' \<and> lower_bound w' \<le> ?up \<and>
      upper_bound w' = ?up \<and> max_window_size w' = max_window_size w \<and>
      acked' = acked - {?lo} - {x. update_seq ?lo \<le> x \<and> x < lower_bound w'} \<and>
      {x. update_seq ?lo \<le> x \<and> x < lower_bound w'} \<subseteq> acked - {?lo} \<and> lower_bound w' \<notin> acked'"
      using "1.prems"(2) by (intro "1.IH" [OF True, unfolded window_sel]) auto
    then have lo: "?lo < lower_bound w'" by (simp add: update_seq_le_iff [OF lt])
    with IH True show ?thesis
      unfolding seq_interval_split [OF lo] by auto
  next
    case False
    with 1 show ?thesis by (auto simp: slide_acked.simps [of acked w])
  qed
qed

lemma in_flight_lower_mono:
  assumes "lower_bound w \<le> lower_bound w'" "lower_bound w' \<le> upper_bound w'"
    and "upper_bound w' = upper_bound w"
  shows "in_flight w' \<le> in_flight w"
  using assms by (simp add: in_flight_ordered order_trans [OF assms(1)] seq_le_iff)

text \<open>Raising the lower bound and forgetting acknowledged numbers below it.\<close>

lemma sender_inv_slide:
  assumes inv: "sender_inv hist res popped s"
    and w': "lower_bound (s_window s) \<le> lower_bound w'" "lower_bound w' \<le> upper_bound (s_window s)"
      "upper_bound w' = upper_bound (s_window s)" "max_window_size w' = max_window_size (s_window s)"
    and acked: "acked \<subseteq> s_acked_seq_set s"
    and keep: "s_selective_repeat s \<Longrightarrow>
        \<forall>x \<in> s_acked_seq_set s. lower_bound w' \<le> x \<longrightarrow> x \<in> acked"
  shows "sender_inv hist res popped (s\<lparr>s_acked_seq_set := acked, s_window := w'\<rparr>)"
proof -
  let ?s = "s\<lparr>s_acked_seq_set := acked, s_window := w'\<rparr>"
  have "in_flight w' \<le> in_flight (s_window s)"
    using w' by (intro in_flight_lower_mono) simp_all
  then have win: "window_ok hist ?s"
    using inv w' by (simp add: sender_inv_def window_ok_def window_limit_def)
  have "outstanding s x" if "outstanding ?s x" for x
    using that w' keep by (auto simp: outstanding_def)
  with inv have "none_lost res popped ?s"
    by (auto simp: sender_inv_def none_lost_def stored_def tracked_def retries_used_def)
  with win inv acked w' show ?thesis
    by (auto simp: sender_inv_def pool_ok_def outbox_ok_def acked_ok_def retry_ok_def)
qed

lemma sender_inv_acked_insert:
  assumes "sender_inv hist res popped s" "sq < upper_bound (s_window s)"
  shows "sender_inv hist res popped (s\<lparr>s_acked_seq_set := insert sq (s_acked_seq_set s)\<rparr>)"
  using assms unfolding sender_inv_def sender_inv_defs by auto

lemma sender_inv_duplicate:
  assumes "sender_inv hist res popped s"
  shows "sender_inv hist res popped (duplicate_ack s)"
proof -
  have "sender_inv hist res popped
      (s\<lparr>s_pending_queue := push_range (lower_bound (s_window s)) (upper_bound (s_window s)) (s_pending_queue s)\<rparr>)"
    using assms unfolding sender_inv_def sender_inv_defs by (auto simp: container_push_range)
  with assms show ?thesis by (simp add: duplicate_ack_def Let_def)
qed

text \<open>In go-back-n the acked set is emptied of the number again.\<close>

lemma gbn_acked_eq:
  assumes "\<not> s_selective_repeat s"
  shows "recv_handler_acked p s =
     (if lower_bound (s_window s) = seq p then duplicate_ack s
      else if lower_bound (s_window s) < seq p
      then s\<lparr>s_ack_dup_times := 0, s_window := set_lower_bound (seq p) (s_window s)\<rparr>
      else s)\<lparr>s_acked_seq_set := s_acked_seq_set s - {seq p}\<rparr>"
  using assms by (simp add: recv_handler_acked_def Let_def duplicate_ack_def)

lemma sender_inv_acked:
  assumes inv: "sender_inv hist res popped s" and range: "ack_in_range p s"
  shows "sender_inv hist res popped (recv_handler_acked p s)"
proof (cases "s_selective_repeat s")
  case True
  let ?s = "s\<lparr>s_acked_seq_set := insert (seq p) (s_acked_seq_set s)\<rparr>"
  have inv1: "sender_inv hist res popped ?s"
    using inv range True by (intro sender_inv_acked_insert) (simp_all add: ack_in_range_def)
  obtain acked w' where sl: "slide_acked (s_acked_seq_set ?s) (s_window ?s) = (acked, w')"
    by (metis surj_pair)
  have "\<forall>x \<in> s_acked_seq_set ?s. x < upper_bound (s_window ?s)"
    "lower_bound (s_window ?s) \<le> upper_bound (s_window ?s)"
    using inv1 by (simp_all add: sender_inv_def acked_ok_def window_ok_def)
  note spec = slide_acked_spec [OF sl this]
  have "sender_inv hist res popped (?s\<lparr>s_acked_seq_set := acked, s_window := w'\<rparr>)"
    using spec by (intro sender_inv_slide [OF inv1]) auto
  with True sl show ?thesis by (simp add: recv_handler_acked_def)
next
  case False
  have set: "sender_inv hist res popped (t\<lparr>s_acked_seq_set := A\<rparr>)"
    if "sender_inv hist res popped t" "A \<subseteq> s_acked_seq_set t" "\<not> s_selective_repeat t" for A t
    using that sender_inv_slide [of hist res popped t "s_window t" A]
    by (simp add: sender_inv_def window_ok_def)
  have low: "sender_inv hist res popped (s\<lparr>s_ack_dup_times := 0, s_window := set_lower_bound (seq p) (s_window s)\<rparr>)"
    if "lower_bound (s_window s) < seq p"
    using that range False inv
      sender_inv_slide [of hist res popped "s\<lparr>s_ack_dup_times := 0\<rparr>"
        "set_lower_bound (seq p) (s_window s)" "s_acked_seq_set s"]
    by (simp add: ack_in_range_def)
  have dup: "s_acked_seq_set (duplicate_ack s) = s_acked_seq_set s"
    "s_selective_repeat (duplicate_ack s) = s_selective_repeat s"
    by (simp_all add: duplicate_ack_def Let_def)
  show ?thesis
    unfolding gbn_acked_eq [OF False]
    using False dup sender_inv_duplicate [OF inv] low inv
    by (auto intro!: set)
qed

subsection \<open>The timer\<close>

lemma sender_inv_timeout:
  assumes inv: "sender_inv hist res popped s" and order: "set order = timed_out_events (s_timer s)"
  shows "sender_inv hist res popped (timeout_handler_iter order s)"
proof (cases "has_timed_out (s_timer s)")
  case True
  let ?s = "s\<lparr>s_pending_queue := fold queue_unsafe_push order (s_pending_queue s),
    s_timer := timer_collect (s_timer s)\<rparr>"
  have s': "timeout_handler_iter order s = ?s"
    using True by (simp add: timeout_handler_iter_def map_timed_out_events_def timer_collect_def)
  have t: "timer_inv (s_timer s)" using inv by (simp add: sender_inv_def)
  have "tracked res popped ?s x" if "tracked res popped s x" for x
    using that rt.collected_or_pending [OF t, of x] order
    by (auto simp: tracked_def retries_used_def)
  with inv have "none_lost res popped ?s"
    by (auto simp: sender_inv_def none_lost_def outstanding_def stored_def)
  moreover have "timer_inv (s_timer ?s)" using rt.invar_collect [OF t] by simp
  ultimately show ?thesis
    using inv unfolding s'
    by (auto simp: sender_inv_def window_ok_def pool_ok_def outbox_ok_def acked_ok_def retry_ok_def)
next
  case False
  with inv show ?thesis by (simp add: timeout_handler_iter_def)
qed

lemma sender_inv_turn:
  assumes inv: "sender_inv hist res popped s"
  shows "sender_inv hist res popped (sender_timer_turn clk s)"
proof -
  have t: "timer_inv (s_timer s)" using inv by (simp add: sender_inv_def)
  have "timer_inv (snd (thread_turn clk (s_timer s)))"
    "pending (snd (thread_turn clk (s_timer s))) = pending (s_timer s)"
    using rt.invar_turn [OF t] rt.pend_turn [OF t] by simp_all
  with inv show ?thesis
    by (auto simp: sender_timer_turn_def sender_inv_def sender_inv_defs)
qed

end
