(* ===== verification/Client.thy ===== *)
theory Client
  imports SenderInv
begin

text \<open>
  A running sender: the \<open>Sender\<close> object, the caller's thread and the worker threads, each
  at its control point. One step is one atomic piece of one thread, so the runs are all the
  interleavings of the threads. A worker reads \<open>running_\<close> at the head of its loop, before it
  waits, so its wait may end after the flag has been cleared; here it may always do so (the
  theory Workers has the heads of the loops). \<open>c_locked\<close> tells that the send thread holds the mutexes of
  the pool and of the acknowledged set, which it takes for the number it has popped: the
  caller cannot enter a packet into the pool then, nor the receive thread handle an
  acknowledgement. Two fields are ghosts: \<open>c_hist\<close> is the packets made so far,
  \<open>c_file\<close> the octets of all packets made before the last call of \<open>send\<close> with the octets
  of the stream it was given.
\<close>

record Client =
  c_sender :: Sender
  c_api :: ApiPc
  c_popped :: "SequenceNumber option"
  c_locked :: bool
  c_got :: "Packet option"
  c_enter :: "SenderState option"
  c_hist :: "Packet list"
  c_file :: bytes

text \<open>The packet that is numbered but not yet in the pool.\<close>

fun send_reserved :: "SendPc \<Rightarrow> Packet option" where
  "send_reserved (SpPoll k pl) = None"
| "send_reserved (SpReserved p) = Some p"

fun send_pc_of :: "ApiPc \<Rightarrow> SendPc option" where
  "send_pc_of (ConnectSend pc) = Some pc"
| "send_pc_of (PushSend pc is) = Some pc"
| "send_pc_of (DataSend pc is n) = Some pc"
| "send_pc_of (StopSend pc n) = Some pc"
| "send_pc_of (DisconnectSend pc) = Some pc"
| "send_pc_of _ = None"

lemma send_pc_of_wait [simp]:
  "send_pc_of (connect_wait s) = None" "send_pc_of (disconnect_wait s) = None"
  by (simp_all add: connect_wait_def disconnect_wait_def)

definition reserved_of :: "ApiPc \<Rightarrow> Packet option" where
  "reserved_of pc = Option.bind (send_pc_of pc) send_reserved"

definition new_packets :: "ApiPc \<Rightarrow> ApiPc \<Rightarrow> Packet list" where
  "new_packets pc pc' =
     (case (reserved_of pc, reserved_of pc') of (None, Some p) \<Rightarrow> [p] | _ \<Rightarrow> [])"

text \<open>The caller is not inside a call.\<close>

fun api_free :: "ApiPc \<Rightarrow> bool" where
  "api_free Ready = True"
| "api_free (Returned e) = True"
| "api_free _ = False"

lemma mutex_not_free: "holds_state_mutex pc \<Longrightarrow> \<not> api_free pc"
  by (cases pc) auto

definition api_call :: "Sender \<Rightarrow> ApiPc \<times> Sender \<Rightarrow> bool" where
  "api_call s out \<longleftrightarrow>
     (\<exists>addr. out = connect_call addr s) \<or> (\<exists>is. out = send_call is s) \<or> out = disconnect_call s"

definition stream_bytes :: "istream \<Rightarrow> bytes" where
  "stream_bytes is = (if is_good is then is_rest is else [])"

fun call_file :: "ApiPc \<Rightarrow> Packet list \<Rightarrow> bytes \<Rightarrow> bytes" where
  "call_file (PushSend sp is) hist file = concat (map payload hist) @ stream_bytes is"
| "call_file _ hist file = file"

text \<open>The user begins a call.\<close>

definition start_call :: "ApiPc \<times> Sender \<Rightarrow> Client \<Rightarrow> Client" where
  "start_call out c =
     c\<lparr>c_api := fst out, c_sender := snd out, c_file := call_file (fst out) (c_hist c) (c_file c)\<rparr>"

text \<open>The label of a step: the user begins a call, or stops the sender; a call or a thread goes
  on; the receive thread gets an answer of \<open>recvfrom\<close>.\<close>

datatype step_label = Calls | Stops | Works | Hears recvfrom_answer

inductive client_step :: "step_label \<Rightarrow> Client \<Rightarrow> Client \<Rightarrow> bool" where
  client_call: "api_free (c_api c) \<Longrightarrow> api_call (c_sender c) (pc, s) \<Longrightarrow>
    client_step Calls c
      (c\<lparr>c_api := pc, c_sender := s, c_file := call_file pc (c_hist c) (c_file c)\<rparr>)"
| client_api: "api_step duration (c_api c) (c_sender c) = Inr (pc, s) \<Longrightarrow>
    reserved_of (c_api c) = None \<or> \<not> c_locked c \<Longrightarrow>
    client_step Works c
      (c\<lparr>c_api := pc, c_sender := s, c_hist := c_hist c @ new_packets (c_api c) pc\<rparr>)"
| client_pop: "c_popped c = None \<Longrightarrow>
    send_handler_pop (c_sender c) = (x, s) \<Longrightarrow>
    client_step Works c (c\<lparr>c_popped := x, c_sender := s\<rparr>)"
| client_lock: "c_popped c \<noteq> None \<Longrightarrow> \<not> c_locked c \<Longrightarrow>
    client_step Works c (c\<lparr>c_locked := True\<rparr>)"
| client_body: "c_popped c = Some sq \<Longrightarrow> c_locked c \<Longrightarrow>
    holds_state_mutex (c_api c) \<longrightarrow> \<not> reaches_give_up sq (c_sender c) \<Longrightarrow>
    client_step Works c
      (c\<lparr>c_popped := None, c_locked := False, c_sender := send_handler_body a now sq (c_sender c)\<rparr>)"
| client_receive: "c_got c = None \<Longrightarrow>
    recv_handler_recv d (c_sender c) = Inr (got, s) \<Longrightarrow>
    client_step (Hears d) c
      (c\<lparr>c_got := got, c_enter := Option.bind got (\<lambda>p. recv_handler_switch p s), c_sender := s\<rparr>)"
| client_enter: "c_enter c = Some st \<Longrightarrow> \<not> holds_state_mutex (c_api c) \<Longrightarrow>
    client_step Works c (c\<lparr>c_enter := None, c_sender := enter_state st (c_sender c)\<rparr>)"
| client_acked: "c_got c = Some p \<Longrightarrow> c_enter c = None \<Longrightarrow> \<not> c_locked c \<Longrightarrow>
    client_step Works c (c\<lparr>c_got := None, c_sender := recv_handler_acked p (c_sender c)\<rparr>)"
| client_timeout: "set order = timed_out_events (s_timer (c_sender c)) \<Longrightarrow>
    distinct order \<Longrightarrow>
    client_step Works c (c\<lparr>c_sender := timeout_handler_iter order (c_sender c)\<rparr>)"
| client_timer:
    "client_step Works c (c\<lparr>c_sender := sender_timer_turn clk (c_sender c)\<rparr>)"
| client_stop: "api_free (c_api c) \<Longrightarrow>
    client_step Stops c (c\<lparr>c_sender := snd (sender_stop (c_sender c))\<rparr>)"

lemma client_start_call:
  "api_free (c_api c) \<Longrightarrow> api_call (c_sender c) out \<Longrightarrow> client_step Calls c (start_call out c)"
  unfolding start_call_def by (rule client_call) simp_all

inductive_cases client_stepE: "client_step l c c'"

subsection \<open>The caller's thread\<close>

text \<open>
  What a step of the caller's thread does to the sender: nothing but the state, taking a
  number for the packet it made, or entering the packet it holds.
\<close>

definition control_only :: "Sender \<Rightarrow> Sender \<Rightarrow> bool" where
  "control_only s s' \<longleftrightarrow>
     (\<exists>st addr n. s' = s\<lparr>s_state := st, s_peer_addr := addr, s_actual_max_retry_count := n\<rparr>)"

lemma control_onlyI:
  "s' = s\<lparr>s_state := st, s_peer_addr := addr, s_actual_max_retry_count := n\<rparr> \<Longrightarrow> control_only s s'"
  by (auto simp: control_only_def)

lemma control_only_refl [simp]: "control_only s s"
  by (rule control_onlyI [where st = "s_state s" and addr = "s_peer_addr s" and n = "s_actual_max_retry_count s"]) (cases s, simp)

lemma control_only_state [simp]: "control_only s (s\<lparr>s_state := st\<rparr>)"
  by (rule control_onlyI [where st = "st" and addr = "s_peer_addr s" and n = "s_actual_max_retry_count s"]) (cases s, simp)

lemma control_only_connect [simp]: "control_only s (s\<lparr>s_state := st, s_peer_addr := addr\<rparr>)"
  by (rule control_onlyI [where st = "st" and addr = "addr" and n = "s_actual_max_retry_count s"]) (cases s, simp)

lemma control_only_send [simp]: "control_only s (s\<lparr>s_actual_max_retry_count := n, s_state := st\<rparr>)"
  by (rule control_onlyI [where st = "st" and addr = "s_peer_addr s" and n = "n"]) (cases s, simp)

lemma api_call_control:
  "api_call s (pc, s') \<Longrightarrow> control_only s s' \<and> reserved_of pc = None"
  by (auto simp: api_call_def connect_call_def send_call_def disconnect_call_def reserved_of_def
      split: if_splits)

lemma send_packet_step_cases:
  assumes "send_packet_step pc s = (pc', s')"
  obtains (stay) "s' = s" "Option.bind pc' send_reserved = None" "send_reserved pc = None"
    | (reserve) p k pl where "window_available (s_window s)" "send_packet_reserve k pl s = (p, s')"
        "pc = SpPoll k pl" "pc' = Some (SpReserved p)"
    | (enter) p where "pc = SpReserved p" "pc' = None" "s' = send_packet_enqueue p s"
  using assms
  by (cases pc) (auto simp: send_packet_poll_def split: poll.splits if_splits prod.splits)

lemma api_step_cases:
  assumes "api_step duration pc s = Inr (pc', s')"
  obtains (control) "control_only s s'" "reserved_of pc = None" "reserved_of pc' = None"
    | (reserve) p k pl where "window_available (s_window s)" "send_packet_reserve k pl s = (p, s')"
        "send_pc_of pc = Some (SpPoll k pl)" "reserved_of pc = None" "reserved_of pc' = Some p"
    | (enter) p where "reserved_of pc = Some p" "reserved_of pc' = None"
        "s' = send_packet_enqueue p s"
proof (cases "send_pc_of pc")
  case None
  with assms that(1) show ?thesis
    by (cases pc) (auto simp: reserved_of_def istream_read_def split: if_splits prod.splits)
next
  case (Some sp)
  obtain sp' s2 where step: "send_packet_step sp s = (sp', s2)" by (metis surj_pair)
  have s2: "s' = s2" and pc': "reserved_of pc' = Option.bind sp' send_reserved"
    using assms Some step by (cases pc; auto simp: reserved_of_def split: option.splits)+
  from step show ?thesis
    by (cases rule: send_packet_step_cases)
      (use that Some s2 pc' in \<open>auto simp: reserved_of_def\<close>)
qed

subsection \<open>What the packets look like\<close>

text \<open>Every packet the sender makes has a kind that asks for an acknowledgement and a payload that fits.\<close>

definition sendable :: "PacketKind \<Rightarrow> bytes \<Rightarrow> bool" where
  "sendable k pl \<longleftrightarrow> kind_ok k \<and> get_ack_kind k \<noteq> None \<and>
     length pl \<le> NKURDT_MAX_PAYLOAD_SIZE \<and> (pl \<noteq> [] \<longrightarrow> k = Data)"

fun send_pc_ok :: "SendPc \<Rightarrow> bool" where
  "send_pc_ok (SpPoll k pl) = sendable k pl"
| "send_pc_ok (SpReserved p) = sendable (kind p) (payload p)"

definition api_ok :: "ApiPc \<Rightarrow> bool" where
  "api_ok pc \<longleftrightarrow> (case send_pc_of pc of Some sp \<Rightarrow> send_pc_ok sp | None \<Rightarrow> True)"

definition hist_ok :: "Packet list \<Rightarrow> bool" where
  "hist_ok hist \<longleftrightarrow> (\<forall>p \<in> set hist. sendable (kind p) (payload p))"

lemma sendable_packet_ok: "sendable (kind p) (payload p) \<Longrightarrow> packet_ok p"
  by (simp add: sendable_def packet_ok_def NKURDT_MAX_PAYLOAD_SIZE_def NKURDT_MAX_PACKET_SIZE_def)

lemma hist_ok_packet: "hist_ok hist \<Longrightarrow> in_hist hist p \<Longrightarrow> packet_ok p"
  by (metis hist_ok_def in_hist_def nth_mem sendable_packet_ok)

lemma sendable_control [simp]:
  "sendable ConnReq []" "sendable DataPush []" "sendable DataStop []" "sendable DisconnReq []"
  by (simp_all add: sendable_def kind_ok_def get_ack_kind_def)

lemma istream_read_length: "istream_read n is = (pl, is') \<Longrightarrow> length pl \<le> n"
  by (auto simp: istream_read_def split: if_splits)

lemma sendable_data [simp]: "length pl \<le> NKURDT_MAX_PAYLOAD_SIZE \<Longrightarrow> sendable Data pl"
  by (simp add: sendable_def kind_ok_def get_ack_kind_def)

lemma send_packet_step_ok:
  "send_packet_step pc s = (Some pc', s') \<Longrightarrow> send_pc_ok pc \<Longrightarrow> send_pc_ok pc'"
  by (cases pc) (auto simp: send_packet_reserve_def mk_packet_def Let_def split: poll.splits)

lemma api_call_ok: "api_call s (pc, s') \<Longrightarrow> api_ok pc"
  by (auto simp: api_call_def connect_call_def send_call_def disconnect_call_def api_ok_def
      split: if_splits)

lemma api_step_ok: "api_step duration pc s = Inr (pc', s') \<Longrightarrow> api_ok pc \<Longrightarrow> api_ok pc'"
  by (cases pc)
    (auto simp: api_ok_def send_packet_step_ok istream_read_length
       split: if_splits option.splits prod.splits)

lemma api_ok_reserved: "api_ok pc \<Longrightarrow> reserved_of pc = Some p \<Longrightarrow> sendable (kind p) (payload p)"
  by (cases "send_pc_of pc"; simp add: api_ok_def reserved_of_def)
    (metis option.distinct(1) option.inject send_pc_ok.simps(2) send_reserved.elims)

subsection \<open>The invariant\<close>

text \<open>Every datagram sent fits into the buffer of the socket.\<close>

definition fits :: "Socket \<Rightarrow> bool" where
  "fits ch \<longleftrightarrow> (\<forall>d \<in> snd ` set (outbox ch). length d \<le> unat (max_buf_size ch))"

lemma fits_send: "fits ch \<Longrightarrow> fits (snd (socket_send a addr d ch))"
  by (auto simp: fits_def outbox_send)

definition client_inv :: "Client \<Rightarrow> bool" where
  "client_inv c \<longleftrightarrow>
     sender_inv (c_hist c) (reserved_of (c_api c)) (c_popped c) (c_sender c) \<and>
     api_ok (c_api c) \<and> hist_ok (c_hist c) \<and> fits (s_channel (c_sender c))"

text \<open>What is fixed: the mode, the buffer size; and the only way the socket is used.\<close>

definition same_config :: "Sender \<Rightarrow> Sender \<Rightarrow> bool" where
  "same_config s s' \<longleftrightarrow>
     s_selective_repeat s' = s_selective_repeat s \<and>
     (s_channel s' = s_channel s \<or>
      (\<exists>a addr d. s_channel s' = snd (socket_send a addr d (s_channel s))))"

lemma same_config_fits: "same_config s s' \<Longrightarrow> fits (s_channel s) \<Longrightarrow> fits (s_channel s')"
  by (auto simp: same_config_def fits_send)

lemma same_config_max: "same_config s s' \<Longrightarrow>
    max_buf_size (s_channel s') = max_buf_size (s_channel s) \<and>
    s_selective_repeat s' = s_selective_repeat s"
  by (auto simp: same_config_def)

lemma same_config_body: "same_config s (send_handler_body a now sq s)"
  by (auto simp: same_config_def send_handler_body_def frame_simps give_up_def transmit_def
      split: option.splits)

lemma same_config_acked: "same_config s (recv_handler_acked p s)"
  by (auto simp: same_config_def recv_handler_acked_def duplicate_ack_def Let_def split: prod.splits)

lemma same_config_enter: "same_config s (enter_state st s)"
  by (simp add: same_config_def enter_state_def)

lemma recv_handler_recv_effect:
  assumes "recv_handler_recv d s = Inr (got, s')"
  shows "s' = s" "got = Some p \<Longrightarrow> \<exists>bs addr. d = RecvDatagram bs addr \<and>
      from_bytes (take (unat (max_buf_size (s_channel s))) bs) = Inr (Some p)"
proof -
  have "from_bytes [] = Inl OutOfBounds"
    by (simp add: from_bytes_fault)
  with assms show "s' = s" "got = Some p \<Longrightarrow> \<exists>bs addr. d = RecvDatagram bs addr \<and>
      from_bytes (take (unat (max_buf_size (s_channel s))) bs) = Inr (Some p)"
    by (auto simp: recv_handler_recv_def socket_recv_def Let_def bind_result_Inr_iff
        split: recvfrom_answer.splits if_splits)
qed

lemma client_step_config: "client_step l c c' \<Longrightarrow> same_config (c_sender c) (c_sender c')"
proof (induction rule: client_step.induct)
  case (client_api duration c pc s)
  then show ?case
    by (cases rule: api_step_cases)
      (auto simp: same_config_def control_only_def send_packet_reserve_def send_packet_enqueue_def Let_def)
next
  case (client_call c pc s)
  from api_call_control [OF client_call(2)] show ?case
    by (auto simp: same_config_def control_only_def)
next
  case (client_receive c d got s)
  then show ?case
    using recv_handler_recv_effect(1) [OF client_receive(2)] by (simp add: same_config_def)
next
  case (client_enter c st)
  show ?case by (simp add: same_config_enter)
next
  case (client_acked c p)
  show ?case by (simp add: same_config_acked)
next
  case (client_body c sq a now)
  show ?case by (simp add: same_config_body)
next
  case (client_pop c x s)
  then show ?case by (auto simp: same_config_def send_handler_pop_def split: prod.splits)
next
  case (client_timeout c order)
  show ?case by (simp add: same_config_def timeout_handler_iter_def split: prod.splits)
qed (simp_all add: same_config_def sender_timer_turn_def sender_stop_def)

lemma sender_inv_control:
  "control_only s s' \<Longrightarrow> sender_inv hist res popped s' = sender_inv hist res popped s"
  unfolding control_only_def by auto

lemma sender_inv_stop: "sender_inv hist res popped s \<Longrightarrow> sender_inv hist res popped (snd (sender_stop s))"
proof -
  have "pending (timer_stop (s_timer s)) = pending (s_timer s)"
    by (simp add: timer_stop_def pending_def)
  then show "sender_inv hist res popped s \<Longrightarrow> ?thesis"
    by (simp add: sender_stop_def sender_inv_def sender_inv_defs inv_intros)
qed

lemma hist_grows: "client_step l c c' \<Longrightarrow> \<exists>new. c_hist c' = c_hist c @ new"
  by (cases rule: client_step.cases, assumption) auto

text \<open>The sender keeps its invariant when the acknowledgements it gets are in range.\<close>

lemma client_step_sender_inv:
  assumes "client_step l c c'"
    and "sender_inv (c_hist c) (reserved_of (c_api c)) (c_popped c) (c_sender c)"
    and "\<forall>p. c_got c = Some p \<longrightarrow> ack_in_range p (c_sender c)"
    and "length (c_hist c') < 4294967296"
  shows "sender_inv (c_hist c') (reserved_of (c_api c')) (c_popped c') (c_sender c')"
  using assms
proof (induction rule: client_step.induct)
  case (client_call c pc s)
  from api_call_control [OF client_call(2)] client_call(1,3) show ?case
    by (cases "c_api c") (auto simp: sender_inv_control reserved_of_def)
next
  case (client_api duration c pc s)
  from client_api(1) show ?case
  proof (cases rule: api_step_cases)
    case control
    with client_api show ?thesis by (simp add: sender_inv_control new_packets_def)
  next
    case (reserve p k pl)
    then have "c_hist c @ new_packets (c_api c) pc = c_hist c @ [p]"
      by (simp add: new_packets_def)
    with reserve client_api show ?thesis
      by (simp add: sender_inv_reserve)
  next
    case (enter p)
    with client_api show ?thesis by (simp add: sender_inv_enqueue new_packets_def)
  qed
next
  case (client_pop c x s)
  then show ?case by (simp add: sender_inv_pop)
next
  case (client_lock c)
  then show ?case by simp
next
  case (client_body c sq a now)
  then show ?case by (simp add: sender_inv_body)
next
  case (client_receive c d got s)
  then show ?case
    using recv_handler_recv_effect(1) [OF client_receive(2)] by simp
next
  case (client_enter c st)
  then show ?case by simp
next
  case (client_acked c p)
  then show ?case by (simp add: sender_inv_acked)
next
  case (client_timeout c order)
  then show ?case by (simp add: sender_inv_timeout)
next
  case (client_timer c clk)
  then show ?case by (simp add: sender_inv_turn)
next
  case (client_stop c)
  then show ?case by (simp add: sender_inv_stop)
qed

lemma client_step_api:
  assumes "client_step l c c'" "api_ok (c_api c)" "hist_ok (c_hist c)"
  shows "api_ok (c_api c') \<and> hist_ok (c_hist c')"
  using assms
proof (cases rule: client_step.cases)
  case (client_api duration pc s)
  then have ok: "api_ok pc" using assms(2) by (auto intro: api_step_ok)
  then have "hist_ok (new_packets (c_api c) pc)"
    using api_ok_reserved by (auto simp: hist_ok_def new_packets_def split: option.splits)
  with ok client_api assms(3) show ?thesis by (auto simp: hist_ok_def)
qed (auto dest: api_call_ok)

lemma client_step_inv:
  assumes "client_step l c c'" "client_inv c"
    and "\<forall>p. c_got c = Some p \<longrightarrow> ack_in_range p (c_sender c)"
    and "length (c_hist c') < 4294967296"
  shows "client_inv c'"
  using assms client_step_sender_inv client_step_api client_step_config same_config_fits
  unfolding client_inv_def by blast

subsection \<open>The state machine\<close>

text \<open>The changes of state a step can make: a state is entered only from the states in which
  the exchange that leads to it is under way.\<close>

fun state_from :: "SenderState \<Rightarrow> SenderState \<Rightarrow> bool" where
  "state_from st Sending = (st = Pushing)"
| "state_from st Connected = (st = Connecting \<or> st = Pushing \<or> st = Stopping)"
| "state_from st Idle = (st = Connecting \<or> st = Disconnecting)"
| "state_from st Disconnecting = (st \<noteq> Idle)"
| "state_from st _ = True"

lemma state_body: "s_state (send_handler_body a now sq s) = s_state s \<or>
    state_from (s_state s) (s_state (send_handler_body a now sq s))"
  by (cases "s_state s")
    (auto simp: send_handler_body_def frame_simps give_up_def transmit_def split: option.splits)

lemma state_acked: "s_state (recv_handler_acked p s) = s_state s"
  by (simp add: recv_handler_acked_def duplicate_ack_def Let_def split: prod.splits)

lemma state_switch: "recv_handler_switch p s = Some st \<Longrightarrow> state_from (s_state s) st"
  by (auto simp: recv_handler_switch_def split: SenderState.splits if_splits)

lemma state_api: "api_step duration pc s = Inr (pc', s') \<Longrightarrow> s_state s' = s_state s \<or> s_state s' = Stopping"
  by (cases pc)
    (auto simp: send_packet_reserve_def send_packet_enqueue_def Let_def
       split: if_splits option.splits prod.splits poll.splits elim!: send_packet_step.elims)

lemma state_step:
  assumes "client_step l c c'" "s_state (c_sender c') \<noteq> s_state (c_sender c)"
  shows "state_from (s_state (c_sender c)) (s_state (c_sender c')) \<or>
    c_enter c = Some (s_state (c_sender c')) \<and> c_enter c' = None"
  using assms(1)
proof (cases rule: client_step.cases)
  case (client_call pc s)
  with assms(2) show ?thesis
    by (auto simp: api_call_def connect_call_def send_call_def disconnect_call_def split: if_splits)
next
  case (client_api duration pc s)
  with assms(2) state_api [OF client_api(3)] show ?thesis by auto
next
  case (client_pop x s)
  with assms(2) show ?thesis by (auto simp: send_handler_pop_def split: prod.splits)
next
  case client_lock
  with assms(2) show ?thesis by simp
next
  case (client_body sq a now)
  with assms(2) state_body show ?thesis by auto
next
  case (client_receive d got s)
  with assms(2) recv_handler_recv_effect(1) [OF client_receive(4)] show ?thesis by simp
next
  case (client_enter st)
  then show ?thesis by (simp add: enter_state_def)
next
  case (client_acked p)
  with assms(2) show ?thesis by (simp add: state_acked)
next
  case (client_timeout order)
  with assms(2) show ?thesis by (auto simp: timeout_handler_iter_def split: prod.splits if_splits)
next
  case (client_timer clk)
  with assms(2) show ?thesis by (simp add: sender_timer_turn_def)
next
  case client_stop
  with assms(2) show ?thesis by (simp add: sender_stop_def)
qed

text \<open>What the receive thread is about to enter it has decided in a state it can be entered from.\<close>

lemma enter_decided:
  assumes "client_step l c c'" "c_enter c' = Some st" "c_enter c \<noteq> Some st"
  shows "state_from (s_state (c_sender c)) st"
  using assms(1)
proof (cases rule: client_step.cases)
  case (client_receive d got s)
  with assms(2) recv_handler_recv_effect(1) [OF client_receive(4)] show ?thesis
    by (auto intro: state_switch split: bind_splits)
qed (use assms(2,3) in auto)

end
