(* ===== verification/Transition.thy ===== *)
theory Transition
  imports Main
begin

text \<open>
  Runs of a transition system and how an invariant of all reachable states is proved. A
  system is a predicate on its initial states and a step relation. Counters of the program
  are bounded, so an invariant may only have to hold of the states inside a bound that no
  step can re-enter from outside.
\<close>

inductive reach :: "('s \<Rightarrow> bool) \<Rightarrow> ('s \<Rightarrow> 's \<Rightarrow> bool) \<Rightarrow> 's \<Rightarrow> bool"
  for start :: "'s \<Rightarrow> bool" and step :: "'s \<Rightarrow> 's \<Rightarrow> bool" where
  reach_start: "start s \<Longrightarrow> reach start step s"
| reach_step: "reach start step s \<Longrightarrow> step s s' \<Longrightarrow> reach start step s'"

inductive_simps reach_unfold: "reach start step s"

lemma reach_run: "reach start step s \<Longrightarrow> step\<^sup>*\<^sup>* s s' \<Longrightarrow> reach start step s'"
  by (rotate_tac 1, induction rule: rtranclp_induct) (auto intro: reach_step)

text \<open>The contract: an invariant that holds at the start and that every step inside the bound
  keeps.\<close>

locale invariant_system =
  fixes start :: "'s \<Rightarrow> bool" and step :: "'s \<Rightarrow> 's \<Rightarrow> bool"
    and inv :: "'s \<Rightarrow> bool" and bound :: "'s \<Rightarrow> bool"
  assumes inv_start: "start s \<Longrightarrow> inv s"
    and inv_step: "step s s' \<Longrightarrow> inv s \<Longrightarrow> bound s' \<Longrightarrow> inv s'"
    and bound_back: "step s s' \<Longrightarrow> bound s' \<Longrightarrow> bound s"
begin

lemma reach_inv: "reach start step s \<Longrightarrow> bound s \<Longrightarrow> inv s"
proof (induction rule: reach.induct)
  case (reach_start s)
  show ?case by (rule inv_start) (rule reach_start)
next
  case (reach_step s s')
  with bound_back [of s s'] show ?case by (blast intro: inv_step)
qed

end

text \<open>One system implements another: seen through a projection, every step is a run of the other,
  possibly an empty one. What is reachable in the one then is in the other.\<close>

locale simulation =
  fixes start :: "'s \<Rightarrow> bool" and step :: "'s \<Rightarrow> 's \<Rightarrow> bool"
    and astart :: "'a \<Rightarrow> bool" and astep :: "'a \<Rightarrow> 'a \<Rightarrow> bool" and proj :: "'s \<Rightarrow> 'a"
  assumes sim_start: "start s \<Longrightarrow> astart (proj s)"
    and sim_step: "step s s' \<Longrightarrow> astep\<^sup>*\<^sup>* (proj s) (proj s')"
begin

lemma sim_reach: "reach start step s \<Longrightarrow> reach astart astep (proj s)"
proof (induction rule: reach.induct)
  case (reach_start s)
  then show ?case by (blast intro: reach.reach_start sim_start)
next
  case (reach_step s s')
  then show ?case by (blast intro: reach_run sim_step)
qed

end

end
