(* ===== verification/System.thy ===== *)
theory System
  imports Client Transition
begin

text \<open>
  One sender and one receiver joined by a network that may lose, delay, repeat and reorder
  datagrams, and damage them in any way the decoder notices. A datagram stays in the outbox
  of the socket that sent it and can be delivered from there any number of times, or never.
  The receiver's turns interleave with the steps of all the sender's threads. Two ghosts
  count the connections the receiver has opened and keep the number that opened the last.
  Datagrams from elsewhere that make a decoder read outside its buffer (Packet, \<open>decoder_faults_exactly\<close>)
  have no defined effect in C++ and are no step of the network.
\<close>

record System =
  y_client :: Client
  y_receiver :: Receiver
  y_done :: bool
  y_opened :: nat
  y_base :: "nat option"

abbreviation y_sender :: "System \<Rightarrow> Sender" where
  "y_sender y \<equiv> c_sender (y_client y)"

abbreviation y_hist :: "System \<Rightarrow> Packet list" where
  "y_hist y \<equiv> c_hist (y_client y)"

subsection \<open>Steps\<close>

definition deliverable :: "Socket \<Rightarrow> Socket \<Rightarrow> recvfrom_answer \<Rightarrow> bool" where
  "deliverable src dst a \<longleftrightarrow>
     (case a of
        RecvFailed err \<Rightarrow> True
      | RecvDatagram bs addr \<Rightarrow>
          bs \<in> snd ` set (outbox src) \<or> from_bytes (take (unat (max_buf_size dst)) bs) = Inr None)"

text \<open>The packet a turn of the receiver handles.\<close>

definition turn_packet :: "recvfrom_answer \<Rightarrow> Receiver \<Rightarrow> Packet option" where
  "turn_packet d r =
     (case d of
        RecvFailed err \<Rightarrow> None
      | RecvDatagram bs addr \<Rightarrow>
          (case from_bytes (take (unat (max_buf_size (r_channel r))) bs) of Inl e \<Rightarrow> None | Inr po \<Rightarrow> po))"

definition opened_at :: "recvfrom_answer \<Rightarrow> Receiver \<Rightarrow> nat option" where
  "opened_at d r =
     (case turn_packet d r of
        None \<Rightarrow> None
      | Some p \<Rightarrow> if opens p r then Some (sn (seq p)) else None)"

inductive sys_step :: "System \<Rightarrow> System \<Rightarrow> bool" where
  sys_client: "client_step l (y_client y) c \<Longrightarrow>
    \<forall>d. l = Hears d \<longrightarrow> deliverable (r_channel (y_receiver y)) (s_channel (y_sender y)) d \<Longrightarrow>
    sys_step y (y\<lparr>y_client := c\<rparr>)"
| sys_receiver: "\<not> y_done y \<Longrightarrow> r_running (y_receiver y) \<Longrightarrow>
    deliverable (s_channel (y_sender y)) (r_channel (y_receiver y)) d \<Longrightarrow>
    recv_iter a d (y_receiver y) = Inr (ctl, r) \<Longrightarrow>
    sys_step y
      (y\<lparr>y_receiver := r, y_done := (ctl = LeaveLoop),
         y_opened := y_opened y + (if opened_at d (y_receiver y) = None then 0 else 1),
         y_base := (if opened_at d (y_receiver y) = None then y_base y else opened_at d (y_receiver y))\<rparr>)"

text \<open>
  The start: a sender after \<open>init\<close>, a receiver at the head of the loop of \<open>recv\<close> with an
  empty stream, both in the same mode and with buffers of the same size.
\<close>

definition receiver_fresh :: "Receiver \<Rightarrow> bool" where
  "receiver_fresh r \<longleftrightarrow>
     r_recv_buffer r = [] \<and> r_peer_addr r = None \<and> r_os r = Some [] \<and> outbox (r_channel r) = []"

definition sys_start :: "System \<Rightarrow> bool" where
  "sys_start y \<longleftrightarrow>
     (\<exists>s r. sender_fresh s \<and> receiver_fresh r \<and>
        s_selective_repeat s = r_selective_repeat r \<and>
        max_buf_size (s_channel s) = max_buf_size (r_channel r) \<and>
        y = \<lparr>y_client = \<lparr>c_sender = snd (sender_init s), c_api = Ready, c_popped = None, c_locked = False,
                          c_got = None, c_enter = None, c_hist = [], c_file = []\<rparr>,
             y_receiver = recv_start r, y_done = False, y_opened = 0, y_base = None\<rparr>)"

abbreviation sys_reach :: "System \<Rightarrow> bool" where
  "sys_reach \<equiv> reach sys_start sys_step"

text \<open>The numbers stay below the wrap-around.\<close>

definition sys_bound :: "System \<Rightarrow> bool" where
  "sys_bound y \<longleftrightarrow> length (y_hist y) < 4294967296"

subsection \<open>Turns of the receiver\<close>

lemma recv_iter_cases:
  assumes "recv_iter a d r = Inr (ctl, r')"
  obtains (quiet) "turn_packet d r = None" "r' = r \<or> r' = r\<lparr>r_running := False\<rparr>"
  | (packet) p bs addr where "d = RecvDatagram bs addr" "turn_packet d r = Some p"
      "from_bytes (take (unat (max_buf_size (r_channel r))) bs) = Inr (Some p)"
      "recv_packet a p addr r = Inr (ctl, r')"
proof (cases d)
  case (RecvFailed err)
  have "from_bytes [] = Inl OutOfBounds" by (simp add: from_bytes_fault)
  with RecvFailed assms show ?thesis
    by (intro quiet) (auto simp: recv_iter_def socket_recv_def turn_packet_def split: if_splits)
next
  case (RecvDatagram bs addr)
  let ?b = "take (unat (max_buf_size (r_channel r))) bs"
  obtain po where po: "from_bytes ?b = Inr po"
    using assms RecvDatagram
    by (auto simp: recv_iter_def socket_recv_def bind_result_Inr_iff)
  then have it: "recv_iter a d r = (case po of None \<Rightarrow> Inr (NextTurn, r) | Some p \<Rightarrow> recv_packet a p addr r)"
    and tp: "turn_packet d r = po"
    by (simp_all add: RecvDatagram recv_iter_def socket_recv_def turn_packet_def)
  show ?thesis
  proof (cases po)
    case None
    with it tp assms show ?thesis by (intro quiet) simp_all
  next
    case (Some p)
    with it tp assms po RecvDatagram show ?thesis by (intro packet) simp_all
  qed
qed

subsection \<open>The invariant of every run\<close>

text \<open>An acknowledgement of a packet that was made (selective repeat), or of a prefix of them
  (go-back-n).\<close>

definition ack_known :: "Packet list \<Rightarrow> bool \<Rightarrow> Packet \<Rightarrow> bool" where
  "ack_known hist sr p \<longleftrightarrow>
     is_ack p \<and> packet_ok p \<and>
     (if sr then sn (seq p) < length hist else sn (seq p) \<le> length hist)"

definition acks_known :: "Packet list \<Rightarrow> Receiver \<Rightarrow> bool" where
  "acks_known hist r \<longleftrightarrow>
     (\<forall>d \<in> snd ` set (outbox (r_channel r)).
        \<exists>p. d = to_bytes p \<and> ack_known hist (r_selective_repeat r) p)"

definition receiver_inv :: "Packet list \<Rightarrow> Receiver \<Rightarrow> bool" where
  "receiver_inv hist r \<longleftrightarrow>
     buffer_ok hist (r_recv_buffer r) \<and> sn (r_window_first r) \<le> length hist \<and>
     acks_known hist r \<and> fits (r_channel r)"

definition sys_inv :: "System \<Rightarrow> bool" where
  "sys_inv y \<longleftrightarrow>
     client_inv (y_client y) \<and> receiver_inv (y_hist y) (y_receiver y) \<and>
     s_selective_repeat (y_sender y) = r_selective_repeat (y_receiver y) \<and>
     max_buf_size (s_channel (y_sender y)) = max_buf_size (r_channel (y_receiver y)) \<and>
     (\<forall>p. c_got (y_client y) = Some p \<longrightarrow>
        ack_known (y_hist y) (r_selective_repeat (y_receiver y)) p)"

lemma ack_known_grow: "ack_known hist sr p \<Longrightarrow> ack_known (hist @ xs) sr p"
  by (auto simp: ack_known_def split: if_splits)

lemma receiver_inv_grow: "receiver_inv hist r \<Longrightarrow> receiver_inv (hist @ xs) r"
  unfolding receiver_inv_def acks_known_def using ack_known_grow [of hist "r_selective_repeat r"]
  by (force simp: buffer_ok_grow)

lemma ack_known_range:
  "ack_known hist sr p \<Longrightarrow> window_ok hist s \<Longrightarrow> s_selective_repeat s = sr \<Longrightarrow> ack_in_range p s"
  by (auto simp: ack_known_def ack_in_range_def window_ok_def seq_le_iff seq_less_iff)

text \<open>What a delivered packet is: one of the other side's.\<close>

lemma delivered_packet:
  assumes "deliverable src dst (RecvDatagram bs addr)" "fits src" "max_buf_size src = max_buf_size dst"
    and "from_bytes (take (unat (max_buf_size dst)) bs) = Inr (Some p)"
  shows "bs \<in> snd ` set (outbox src) \<and> from_bytes bs = Inr (Some p)"
  using assms by (auto simp: deliverable_def fits_def)

lemma delivered_to_receiver:
  assumes "sys_inv y" "deliverable (s_channel (y_sender y)) (r_channel (y_receiver y)) (RecvDatagram bs addr)"
    and "from_bytes (take (unat (max_buf_size (r_channel (y_receiver y)))) bs) = Inr (Some p)"
  shows "in_hist (y_hist y) p"
proof -
  have "bs \<in> snd ` set (outbox (s_channel (y_sender y)))" "from_bytes bs = Inr (Some p)"
    using delivered_packet [OF assms(2) _ _ assms(3)] assms(1)
    by (simp_all add: sys_inv_def client_inv_def)
  moreover from this obtain q where "in_hist (y_hist y) q" "bs = to_bytes q"
    using assms(1) by (auto simp: sys_inv_def client_inv_def sender_inv_def outbox_ok_def)
  moreover from this have "packet_ok q"
    using assms(1) by (intro hist_ok_packet [of "y_hist y"]) (simp_all add: sys_inv_def client_inv_def)
  ultimately show ?thesis by (simp add: decode_encode_ok)
qed

text \<open>So a delivered datagram never makes the decoder fault.\<close>

lemma delivered_outcome:
  assumes "sys_inv y" "deliverable (s_channel (y_sender y)) (r_channel (y_receiver y)) (RecvDatagram bs addr)"
  shows "from_bytes (take (unat (max_buf_size (r_channel (y_receiver y)))) bs) = Inr None \<or>
    (\<exists>p. in_hist (y_hist y) p \<and>
       from_bytes (take (unat (max_buf_size (r_channel (y_receiver y)))) bs) = Inr (Some p))"
proof (cases "from_bytes (take (unat (max_buf_size (r_channel (y_receiver y)))) bs) = Inr None")
  case False
  then have bs: "bs \<in> snd ` set (outbox (s_channel (y_sender y)))"
    using assms(2) by (simp add: deliverable_def)
  then obtain q where q: "in_hist (y_hist y) q" "bs = to_bytes q"
    using assms(1) by (auto simp: sys_inv_def client_inv_def sender_inv_def outbox_ok_def)
  have "packet_ok q"
    using assms(1) q(1) by (intro hist_ok_packet [of "y_hist y"]) (simp_all add: sys_inv_def client_inv_def)
  moreover have "length bs \<le> unat (max_buf_size (r_channel (y_receiver y)))"
    using assms(1) bs by (auto simp: sys_inv_def client_inv_def fits_def)
  ultimately show ?thesis using q by (auto simp: decode_encode_ok)
qed simp

lemma delivered_to_sender:
  assumes "sys_inv y" "deliverable (r_channel (y_receiver y)) (s_channel (y_sender y)) (RecvDatagram bs addr)"
    and "from_bytes (take (unat (max_buf_size (s_channel (y_sender y)))) bs) = Inr (Some p)"
  shows "to_bytes p \<in> snd ` set (outbox (r_channel (y_receiver y))) \<and>
    ack_known (y_hist y) (r_selective_repeat (y_receiver y)) p"
proof -
  have bs: "bs \<in> snd ` set (outbox (r_channel (y_receiver y)))" "from_bytes bs = Inr (Some p)"
    using delivered_packet [OF assms(2) _ _ assms(3)] assms(1)
    by (simp_all add: sys_inv_def receiver_inv_def)
  then obtain q where q: "bs = to_bytes q"
    "ack_known (y_hist y) (r_selective_repeat (y_receiver y)) q"
    using assms(1) unfolding sys_inv_def receiver_inv_def acks_known_def by blast
  then have "p = q" using bs(2) by (simp add: ack_known_def decode_encode_ok)
  with bs(1) q show ?thesis by simp
qed

text \<open>What a step of the sender can have received.\<close>

lemma client_got_cases:
  assumes "client_step l c c'" "c_got c' = Some p"
  obtains (old) "c_got c = Some p"
  | (new) bs addr where "l = Hears (RecvDatagram bs addr)"
      "from_bytes (take (unat (max_buf_size (s_channel (c_sender c)))) bs) = Inr (Some p)"
  using assms
proof (cases rule: client_step.cases)
  case (client_receive d got s)
  then show ?thesis
    using recv_handler_recv_effect(2) [OF client_receive(4), of p] assms(2) that(2) by auto
qed (use assms(2) that(1) in auto)

lemma sys_inv_client:
  assumes inv: "sys_inv y" and step: "client_step l (y_client y) c"
    and l: "\<forall>d. l = Hears d \<longrightarrow> deliverable (r_channel (y_receiver y)) (s_channel (y_sender y)) d"
    and bound: "length (c_hist c) < 4294967296"
  shows "sys_inv (y\<lparr>y_client := c\<rparr>)"
proof -
  let ?r = "y_receiver y"
  obtain new where grow: "c_hist c = y_hist y @ new" using hist_grows [OF step] by blast
  have win: "window_ok (y_hist y) (y_sender y)"
    using inv by (simp add: sys_inv_def client_inv_def sender_inv_def)
  have "client_inv c"
  proof (rule client_step_inv [OF step _ _ bound])
    show "client_inv (y_client y)" using inv by (simp add: sys_inv_def)
    show "\<forall>p. c_got (y_client y) = Some p \<longrightarrow> ack_in_range p (y_sender y)"
      using inv win unfolding sys_inv_def by (blast intro: ack_known_range)
  qed
  moreover have "receiver_inv (c_hist c) ?r"
    unfolding grow using inv by (simp add: sys_inv_def receiver_inv_grow)
  moreover have "ack_known (c_hist c) (r_selective_repeat ?r) p" if "c_got c = Some p" for p
    using step that
  proof (cases rule: client_got_cases)
    case old
    with inv show ?thesis by (simp add: sys_inv_def grow ack_known_grow)
  next
    case (new bs addr)
    with delivered_to_sender [OF inv _ new(2)] l show ?thesis by (simp add: grow ack_known_grow)
  qed
  moreover have "s_selective_repeat (c_sender c) = r_selective_repeat ?r \<and>
      max_buf_size (s_channel (c_sender c)) = max_buf_size (r_channel ?r)"
    using same_config_max [OF client_step_config [OF step]] inv by (simp add: sys_inv_def)
  ultimately show ?thesis by (simp add: sys_inv_def)
qed

text \<open>
  One turn of the receiver on a numbered packet. \<open>vouched\<close> is what an acknowledgement
  promises: the packet is in the buffer or behind the window (selective repeat), or the
  window has reached the number (go-back-n).
\<close>

definition received :: "Receiver \<Rightarrow> SequenceNumber \<Rightarrow> bool" where
  "received r sq \<longleftrightarrow> sq < r_window_first r \<or> sq \<in> seq ` set (r_recv_buffer r)"

definition vouched :: "Receiver \<Rightarrow> Packet \<Rightarrow> bool" where
  "vouched r p \<longleftrightarrow>
     (if r_selective_repeat r then received r (seq p) else seq p \<le> r_window_first r)"

text \<open>What a turn that does not open a connection cannot take back.\<close>

definition advances :: "Receiver \<Rightarrow> Receiver \<Rightarrow> bool" where
  "advances r r' \<longleftrightarrow>
     r_selective_repeat r' = r_selective_repeat r \<and>
     r_window_first r \<le> r_window_first r' \<and> (\<forall>sq. received r sq \<longrightarrow> received r' sq)"

lemma vouched_advances: "advances r r' \<Longrightarrow> vouched r p \<Longrightarrow> vouched r' p"
  by (auto simp: advances_def vouched_def intro: order_trans)

lemma buffered_known:
  "buffer_ok hist (r_recv_buffer r) \<Longrightarrow> sn (r_window_first r) \<le> length hist \<Longrightarrow>
     received r sq \<Longrightarrow> sn sq < length hist"
  by (auto simp: received_def buffer_ok_def in_hist_def seq_less_iff)

lemma vouched_known:
  assumes "receiver_inv hist r" "vouched r (ack_packet k' sq)" "get_ack_kind k = Some k'"
  shows "ack_known hist (r_selective_repeat r) (ack_packet k' sq)"
  using assms buffered_known [of hist r sq] get_ack_kind_is_ack [OF assms(3), of sq]
  by (auto simp: ack_known_def vouched_def receiver_inv_def packet_ok_def seq_le_iff)

lemma accept_vouched:
  assumes "numbered hist" "buffer_ok hist (r_recv_buffer r)" "in_hist hist p"
    and "sn (r_window_first r) \<le> length hist" and r'_def: "r' = accept_packet a k p addr r"
  shows "vouched r' (ack_packet k' (ack_seq p r'))"
proof -
  note spec = accept_packet_spec [OF assms(1-4) r'_def]
  have "received r' (seq p)"
    using spec(5) by (auto simp: received_def seq_less_iff)
  then show ?thesis by (simp add: vouched_def ack_seq_def)
qed

lemma accept_advances:
  assumes "numbered hist" "buffer_ok hist (r_recv_buffer r)" "in_hist hist p"
    and "sn (r_window_first r) \<le> length hist" and r'_def: "r' = accept_packet a k p addr r"
    and "\<not> opens p r"
  shows "advances r r'"
proof -
  note spec = accept_packet_spec [OF assms(1-4) r'_def]
  have first: "turn_first p r = r_window_first r" using assms(6) by (simp add: turn_first_def)
  have "received r' sq" if "received r sq" for sq
    using that spec(1,5) unfolding first by (auto simp: received_def seq_less_iff subset_iff)
  with spec(1) first show ?thesis
    by (simp add: advances_def seq_le_iff r'_def accept_packet_frame)
qed

lemma drop_vouched:
  assumes "dropped p r" "\<not> (r_selective_repeat r \<and> \<not> seq p < r_window_first r)"
  shows "vouched r (ack_packet k (ack_seq p r))"
  using assms by (auto simp: vouched_def ack_seq_def received_def)

lemma drop_advances: "advances r (drop_packet a k p r)"
  by (simp add: advances_def drop_packet_frame received_def)

lemma reply_ack_fits: "fits (r_channel r) \<Longrightarrow> fits (r_channel (reply_ack a k sq r))"
  by (simp add: reply_ack_def fits_send split: option.splits)

text \<open>The new acknowledgement of a turn, if any, is vouched for.\<close>

definition one_ack :: "Receiver \<Rightarrow> Receiver \<Rightarrow> bool" where
  "one_ack r r' \<longleftrightarrow>
     (\<forall>d \<in> snd ` set (outbox (r_channel r')).
        d \<in> snd ` set (outbox (r_channel r)) \<or>
        (\<exists>k k' sq. get_ack_kind k = Some k' \<and> d = to_bytes (ack_packet k' sq) \<and>
           vouched r' (ack_packet k' sq) \<and> r_peer_addr r' \<noteq> None))"

lemma one_ack_refl [simp]: "one_ack r r"
  by (simp add: one_ack_def)

lemma one_ackI:
  assumes "set (outbox (r_channel r')) \<subseteq> set (outbox (r_channel r)) \<union>
      (case r_peer_addr r' of None \<Rightarrow> {} | Some addr \<Rightarrow> {(addr, to_bytes (ack_packet k' sq))})"
    and "get_ack_kind k = Some k'" "vouched r' (ack_packet k' sq)"
  shows "one_ack r r'"
proof (cases "r_peer_addr r'")
  case None
  with assms(1) have "set (outbox (r_channel r')) \<subseteq> set (outbox (r_channel r))" by simp
  then show ?thesis by (auto simp: one_ack_def)
next
  case (Some addr)
  with assms(1) have "snd ` set (outbox (r_channel r')) \<subseteq>
      insert (to_bytes (ack_packet k' sq)) (snd ` set (outbox (r_channel r)))" by force
  with assms(2,3) Some show ?thesis unfolding one_ack_def by blast
qed

lemma drop_one_ack:
  assumes "dropped p r" "get_ack_kind k = Some k'"
  shows "one_ack r (drop_packet a k' p r)"
proof (cases "r_selective_repeat r \<and> \<not> seq p < r_window_first r")
  case True
  then show ?thesis by (simp add: drop_packet_def)
next
  case False
  let ?r = "drop_packet a k' p r"
  have r': "?r = reply_ack a k' (ack_seq p r) r" using False by (simp only: drop_packet_def if_False)
  have peer: "r_peer_addr ?r = r_peer_addr r" by (rule drop_packet_frame)
  have v: "vouched ?r (ack_packet k' (ack_seq p r))"
    using drop_vouched [OF assms(1) False, of k']
    by (simp add: vouched_def received_def drop_packet_frame split: if_splits)
  show ?thesis
    by (rule one_ackI [OF _ assms(2) v], unfold peer, unfold r', rule reply_ack_outbox)
qed

lemma recv_packet_turn:
  assumes "numbered hist" "buffer_ok hist (r_recv_buffer r)" "sn (r_window_first r) \<le> length hist"
    and "in_hist hist p" "fits (r_channel r)"
    and turn: "recv_packet a p addr r = Inr (ctl, r')"
  shows "one_ack r r'" and "\<not> opens p r \<Longrightarrow> advances r r'"
    and "buffer_ok hist (r_recv_buffer r')" and "sn (r_window_first r') \<le> length hist"
    and "fits (r_channel r')" and "r_selective_repeat r' = r_selective_repeat r"
    and "max_buf_size (r_channel r') = max_buf_size (r_channel r)"
proof -
  from turn have "one_ack r r' \<and> (\<not> opens p r \<longrightarrow> advances r r') \<and>
    buffer_ok hist (r_recv_buffer r') \<and> sn (r_window_first r') \<le> length hist \<and>
    fits (r_channel r') \<and> r_selective_repeat r' = r_selective_repeat r \<and>
    max_buf_size (r_channel r') = max_buf_size (r_channel r)"
  proof (cases rule: recv_packet_cases)
    case ack
    with assms show ?thesis by (auto simp: one_ack_def advances_def)
  next
    case (dropped k)
    have "one_ack r r'" unfolding dropped(4) by (rule drop_one_ack [OF dropped(2,1)])
    with assms dropped show ?thesis
      by (simp add: drop_packet_frame drop_advances) (simp add: drop_packet_def reply_ack_fits)
  next
    case (accepted k)
    note spec = accept_packet_spec [OF assms(1,2,4,3) accepted(3)]
    have "vouched r' (ack_packet k (ack_seq p r'))"
      by (rule accept_vouched [OF assms(1,2,4,3) accepted(3)])
    then have "one_ack r r'"
      using accept_packet_outbox [of a k p addr r] accepted(1) unfolding accepted(3) [symmetric]
      by (intro one_ackI)
    moreover have "fits (r_channel r')"
      using assms(5) by (simp add: accepted(3) accept_packet_def Let_def reply_ack_fits frame_simps)
    ultimately show ?thesis
      using spec accept_advances [OF assms(1,2,4,3) accepted(3)] accepted(3)
      by (simp add: accept_packet_frame)
  qed
  then show "one_ack r r'" "\<not> opens p r \<Longrightarrow> advances r r'"
    "buffer_ok hist (r_recv_buffer r')" "sn (r_window_first r') \<le> length hist"
    "fits (r_channel r')" "r_selective_repeat r' = r_selective_repeat r"
    "max_buf_size (r_channel r') = max_buf_size (r_channel r)" by blast+
qed

lemma one_ack_known:
  assumes "one_ack r r'" "receiver_inv hist r" "r_selective_repeat r' = r_selective_repeat r"
    and "buffer_ok hist (r_recv_buffer r')" "sn (r_window_first r') \<le> length hist"
    and "fits (r_channel r')"
  shows "receiver_inv hist r'"
proof -
  have new: "ack_known hist (r_selective_repeat r') (ack_packet k' sq)"
    if "get_ack_kind k = Some k'" "vouched r' (ack_packet k' sq)" for k k' sq
    using that(2) buffered_known [OF assms(4,5), of sq] assms(5) get_ack_kind_is_ack [OF that(1), of sq]
    by (auto simp: ack_known_def vouched_def packet_ok_def seq_le_iff split: if_splits)
  have "\<exists>q. d = to_bytes q \<and> ack_known hist (r_selective_repeat r') q"
    if "d \<in> snd ` set (outbox (r_channel r'))" for d
  proof (cases "d \<in> snd ` set (outbox (r_channel r))")
    case True
    with assms(2,3) show ?thesis by (auto simp: receiver_inv_def acks_known_def)
  next
    case False
    with assms(1) that obtain k k' sq where "get_ack_kind k = Some k'"
      "d = to_bytes (ack_packet k' sq)" "vouched r' (ack_packet k' sq)"
      unfolding one_ack_def by blast
    with new show ?thesis by blast
  qed
  with assms show ?thesis by (simp add: receiver_inv_def acks_known_def)
qed

lemma receiver_inv_running [simp]:
  "receiver_inv hist (r\<lparr>r_running := b\<rparr>) = receiver_inv hist r"
  by (simp add: receiver_inv_def acks_known_def)

lemma sys_inv_hist: "sys_inv y \<Longrightarrow> numbered (y_hist y)"
  by (simp add: sys_inv_def client_inv_def sender_inv_def window_ok_def)

text \<open>What a turn of the receiver is in the system.\<close>

lemma sys_turn_cases:
  assumes inv: "sys_inv y" and turn: "recv_iter a d (y_receiver y) = Inr (ctl, r)"
    and d: "deliverable (s_channel (y_sender y)) (r_channel (y_receiver y)) d"
  obtains (quiet) "turn_packet d (y_receiver y) = None"
      "r = y_receiver y \<or> r = (y_receiver y)\<lparr>r_running := False\<rparr>"
  | (packet) p addr where "turn_packet d (y_receiver y) = Some p" "in_hist (y_hist y) p"
      "recv_packet a p addr (y_receiver y) = Inr (ctl, r)"
  using turn
proof (cases rule: recv_iter_cases)
  case quiet
  then show ?thesis by (rule that(1))
next
  case (packet p bs addr)
  have "in_hist (y_hist y) p"
    using d packet(3) unfolding packet(1) by (rule delivered_to_receiver [OF inv])
  with packet show ?thesis by (intro that(2))
qed

lemma sys_inv_receiver:
  assumes inv: "sys_inv y" and turn: "recv_iter a d (y_receiver y) = Inr (ctl, r)"
    and d: "deliverable (s_channel (y_sender y)) (r_channel (y_receiver y)) d"
  shows "sys_inv (y\<lparr>y_receiver := r, y_done := e, y_opened := n, y_base := b\<rparr>)"
proof -
  let ?r = "y_receiver y"
  have ri: "receiver_inv (y_hist y) ?r" using inv by (simp add: sys_inv_def)
  have "receiver_inv (y_hist y) r \<and> r_selective_repeat r = r_selective_repeat ?r \<and>
      max_buf_size (r_channel r) = max_buf_size (r_channel ?r)"
    using inv turn d
  proof (cases rule: sys_turn_cases)
    case quiet
    with ri show ?thesis by auto
  next
    case (packet p addr)
    note spec = recv_packet_turn [OF sys_inv_hist [OF inv] _ _ packet(2) _ packet(3)]
    show ?thesis
      using ri spec one_ack_known [of ?r r "y_hist y"] by (simp add: receiver_inv_def)
  qed
  with inv show ?thesis by (simp add: sys_inv_def)
qed

lemma sys_inv_start: "sys_start y \<Longrightarrow> sys_inv y"
proof -
  assume "sys_start y"
  then obtain s r where s: "sender_fresh s" and r: "receiver_fresh r"
    and eq: "s_selective_repeat s = r_selective_repeat r"
      "max_buf_size (s_channel s) = max_buf_size (r_channel r)"
    and y: "y = \<lparr>y_client = \<lparr>c_sender = snd (sender_init s), c_api = Ready, c_popped = None, c_locked = False,
                          c_got = None, c_enter = None, c_hist = [], c_file = []\<rparr>,
             y_receiver = recv_start r, y_done = False, y_opened = 0, y_base = None\<rparr>"
    unfolding sys_start_def by blast
  have ch: "s_channel (snd (sender_init s)) = s_channel s"
    "s_selective_repeat (snd (sender_init s)) = s_selective_repeat s"
    by (simp_all add: sender_init_def)
  have "client_inv (y_client y)"
    using sender_inv_init [OF s] s
    by (simp add: y client_inv_def api_ok_def hist_ok_def reserved_of_def ch fits_def sender_fresh_def)
  moreover have "receiver_inv [] (recv_start r)"
    using r by (simp add: receiver_inv_def recv_start_def receiver_fresh_def acks_known_def fits_def)
  ultimately show "sys_inv y"
    using eq by (simp add: y sys_inv_def ch recv_start_def)
qed

lemma sys_step_inv:
  assumes "sys_step y y'" "sys_inv y" "sys_bound y'"
  shows "sys_inv y'"
  using assms(1)
proof (cases rule: sys_step.cases)
  case (sys_client l c)
  with assms(2,3) show ?thesis by (auto simp: sys_bound_def intro!: sys_inv_client)
next
  case (sys_receiver d a ctl r)
  show ?thesis
    unfolding sys_receiver(1) by (rule sys_inv_receiver [OF assms(2) sys_receiver(5,4)])
qed

lemma sys_bound_back: "sys_step y y' \<Longrightarrow> sys_bound y' \<Longrightarrow> sys_bound y"
  by (cases rule: sys_step.cases, assumption) (auto simp: sys_bound_def dest!: hist_grows)

interpretation sys: invariant_system sys_start sys_step sys_inv sys_bound
  by unfold_locales (blast intro: sys_inv_start sys_step_inv sys_bound_back)+

end
