(* ===== verification/Delivery.thy ===== *)
theory Delivery
  imports System
begin

text \<open>
  What the sender and the receiver achieve together, in every run with at most one opening
  of a connection: the stream is always the payloads of the numbers below the receiver's
  window, and the sender's window never passes what the receiver has. The second opening is
  left out because a delayed connect request that arrives after a disconnection moves the
  window back.
\<close>

subsection \<open>Before the first answer\<close>

text \<open>A sender that has got no packet yet: nothing is acknowledged and no payload is made.\<close>

fun send_pc_empty :: "SendPc \<Rightarrow> bool" where
  "send_pc_empty (SpPoll k pl) = (pl = [])"
| "send_pc_empty (SpReserved p) = (payload p = [])"

fun api_silent :: "ApiPc \<Rightarrow> bool" where
  "api_silent (ConnectSend sp) = send_pc_empty sp"
| "api_silent (PushSend sp is) = send_pc_empty sp"
| "api_silent (DisconnectSend sp) = send_pc_empty sp"
| "api_silent (DataRead is n) = False"
| "api_silent (DataSend sp is n) = False"
| "api_silent (ZeroWait n) = False"
| "api_silent (StopSend sp n) = False"
| "api_silent (StopWait n) = False"
| "api_silent _ = True"

definition no_payload :: "Packet list \<Rightarrow> bool" where
  "no_payload hist \<longleftrightarrow> (\<forall>p \<in> set hist. payload p = [])"

definition unanswered :: "Client \<Rightarrow> bool" where
  "unanswered c \<longleftrightarrow>
     c_got c = None \<and> c_enter c = None \<and> lower_bound (s_window (c_sender c)) = SequenceNumber 0 \<and>
     s_acked_seq_set (c_sender c) = {} \<and> s_state (c_sender c) \<noteq> Sending \<and>
     api_silent (c_api c) \<and> no_payload (c_hist c)"

lemma payloads_none: "no_payload hist \<Longrightarrow> j \<le> length hist \<Longrightarrow> payloads hist i j = []"
  by (auto simp: payloads_def no_payload_def)

lemma api_call_silent:
  "api_call s (pc, s') \<Longrightarrow> api_silent pc \<and> s_state s' \<in> {s_state s, Connecting, Pushing, Disconnecting}"
  by (auto simp: api_call_def connect_call_def send_call_def disconnect_call_def split: if_splits)

lemma send_packet_step_silent:
  "send_packet_step sp s = (Some sp', s') \<Longrightarrow> send_pc_empty sp \<Longrightarrow> send_pc_empty sp'"
  by (cases sp) (auto simp: send_packet_reserve_def mk_packet_def Let_def split: poll.splits)

lemma api_silent_wait [simp]: "api_silent (connect_wait s)" "api_silent (disconnect_wait s)"
  by (simp_all add: connect_wait_def disconnect_wait_def)

lemma api_step_silent:
  "api_step duration pc s = Inr (pc', s') \<Longrightarrow> api_silent pc \<Longrightarrow> s_state s \<noteq> Sending \<Longrightarrow> api_silent pc'"
  by (cases pc) (auto split: if_splits option.splits prod.splits dest: send_packet_step_silent)

lemma api_silent_reserved: "api_silent pc \<Longrightarrow> reserved_of pc = Some p \<Longrightarrow> payload p = []"
  by (cases pc; simp add: reserved_of_def) (metis option.distinct(1) option.inject
      send_pc_empty.simps(2) send_reserved.elims)+

text \<open>The acknowledged numbers move only in the step that handles an acknowledgement.\<close>

definition same_acks :: "Sender \<Rightarrow> Sender \<Rightarrow> bool" where
  "same_acks s s' \<longleftrightarrow>
     lower_bound (s_window s') = lower_bound (s_window s) \<and>
     s_acked_seq_set s' = s_acked_seq_set s"

lemma same_acks_body:
  "same_acks s (send_handler_body a now sq s) \<and>
     (s_state (send_handler_body a now sq s) = Sending \<longrightarrow> s_state s = Sending)"
  by (auto simp: same_acks_def send_handler_body_def frame_simps give_up_def transmit_def
      split: option.splits)

lemma api_step_state:
  "api_step duration pc s = Inr (pc', s') \<Longrightarrow> s_state s' \<in> {s_state s, Stopping}"
  by (cases pc)
    (auto simp: send_packet_reserve_def send_packet_enqueue_def Let_def
       split: if_splits option.splits prod.splits poll.splits elim!: send_packet_step.elims)

lemma client_step_acks:
  assumes "client_step l c c'"
  shows "same_acks (c_sender c) (c_sender c') \<or>
    (\<exists>p. c_got c = Some p \<and> c_got c' = None \<and> c_hist c' = c_hist c \<and>
       c_sender c' = recv_handler_acked p (c_sender c))"
  using assms
proof (cases rule: client_step.cases)
  case (client_call pc s)
  from api_call_control [OF client_call(4)] show ?thesis
    by (auto simp: client_call(2) same_acks_def control_only_def)
next
  case (client_api duration pc s)
  from client_api(3) show ?thesis
    by (cases rule: api_step_cases)
      (auto simp: client_api(2) same_acks_def control_only_def send_packet_reserve_def
        send_packet_enqueue_def Let_def)
next
  case (client_pop x s)
  then show ?thesis by (auto simp: same_acks_def send_handler_pop_def split: prod.splits)
next
  case client_lock
  then show ?thesis by (simp add: same_acks_def)
next
  case (client_body sq a now)
  then show ?thesis by (simp add: same_acks_body)
next
  case (client_receive d got s)
  from recv_handler_recv_effect(1) [OF client_receive(4)] show ?thesis
    by (simp add: client_receive(2) same_acks_def)
next
  case (client_enter st)
  then show ?thesis by (simp add: same_acks_def enter_state_def)
next
  case (client_acked p)
  then show ?thesis by auto
next
  case (client_timeout order)
  then show ?thesis by (auto simp: same_acks_def timeout_handler_iter_def split: prod.splits)
next
  case (client_timer clk)
  then show ?thesis by (auto simp: same_acks_def sender_timer_turn_def)
next
  case client_stop
  then show ?thesis by (auto simp: same_acks_def sender_stop_def)
qed

lemma client_step_state:
  assumes "client_step l c c'" "c_got c = None" "c_got c' = None" "c_enter c = None"
    and "s_state (c_sender c) \<noteq> Sending"
  shows "s_state (c_sender c') \<noteq> Sending \<and> c_enter c' = None"
  using assms(1)
proof (cases rule: client_step.cases)
  case (client_call pc s)
  with api_call_silent [OF client_call(4)] assms(4,5) show ?thesis by auto
next
  case (client_api duration pc s)
  with api_step_state [OF client_api(3)] assms(4,5) show ?thesis by auto
next
  case (client_pop x s)
  with assms(4,5) show ?thesis by (auto simp: send_handler_pop_def split: prod.splits)
next
  case client_lock
  with assms(4,5) show ?thesis by simp
next
  case (client_body sq a now)
  with same_acks_body [of "c_sender c" a now sq] assms(4,5) show ?thesis by auto
next
  case (client_receive d got s)
  with recv_handler_recv_effect(1) [OF client_receive(4)] assms(3,4,5) show ?thesis by simp
next
  case (client_enter st)
  with assms(4) show ?thesis by simp
next
  case (client_acked p)
  with assms(2) show ?thesis by simp
next
  case (client_timeout order)
  with assms(4,5) show ?thesis by (auto simp: timeout_handler_iter_def split: prod.splits)
next
  case (client_timer clk)
  with assms(4,5) show ?thesis by (simp add: sender_timer_turn_def)
next
  case client_stop
  with assms(4,5) show ?thesis by (simp add: sender_stop_def)
qed

lemma client_step_silent:
  assumes "client_step l c c'" "api_silent (c_api c)" "no_payload (c_hist c)"
    and "s_state (c_sender c) \<noteq> Sending"
  shows "api_silent (c_api c') \<and> no_payload (c_hist c')"
  using assms(1)
proof (cases rule: client_step.cases)
  case (client_call pc s)
  with api_call_silent [OF client_call(4)] assms show ?thesis by simp
next
  case (client_api duration pc s)
  then have ok: "api_silent pc" using assms by (auto intro: api_step_silent)
  then have "no_payload (new_packets (c_api c) pc)"
    using api_silent_reserved by (auto simp: no_payload_def new_packets_def split: option.splits)
  with ok client_api assms(3) show ?thesis by (auto simp: no_payload_def)
qed (use assms in simp_all)

lemma client_step_unanswered:
  assumes "client_step l c c'" "unanswered c" "c_got c' = None"
  shows "unanswered c'"
  using client_step_acks [OF assms(1)] client_step_state [OF assms(1) _ assms(3)]
    client_step_silent [OF assms(1)] assms(2,3)
  by (auto simp: unanswered_def same_acks_def)

subsection \<open>Handling an acknowledgement\<close>

lemma gbn_lower:
  assumes "\<not> s_selective_repeat s"
  shows "lower_bound (s_window (recv_handler_acked p s)) = max (lower_bound (s_window s)) (seq p)"
  using assms by (auto simp: gbn_acked_eq duplicate_ack_def Let_def max_def)

lemma below_absorb:
  fixes lo :: SequenceNumber
  assumes "lo \<le> lo'" "{x. lo \<le> x \<and> x < lo'} \<subseteq> A"
  shows "{x. x < lo'} \<union> (A - {x. lo \<le> x \<and> x < lo'}) = {x. x < lo} \<union> A"
proof -
  have "{x. x < lo'} = {x. x < lo} \<union> {x. lo \<le> x \<and> x < lo'}"
    using assms(1) by (auto simp: not_less intro: order_less_le_trans)
  with assms(2) show ?thesis by blast
qed

lemma sr_acked:
  assumes "s_selective_repeat s" "acked_ok s" "lower_bound (s_window s) \<le> upper_bound (s_window s)"
    and "seq p < upper_bound (s_window s)"
  shows "{x. x < lower_bound (s_window (recv_handler_acked p s))} \<union> s_acked_seq_set (recv_handler_acked p s)
    = insert (seq p) ({x. x < lower_bound (s_window s)} \<union> s_acked_seq_set s)"
proof -
  let ?A = "insert (seq p) (s_acked_seq_set s)"
  obtain acked w' where sl: "slide_acked ?A (s_window s) = (acked, w')" by (metis surj_pair)
  have "\<forall>x \<in> ?A. x < upper_bound (s_window s)" using assms(2,4) by (simp add: acked_ok_def)
  note spec = slide_acked_spec [OF sl this assms(3)]
  have "s_acked_seq_set (recv_handler_acked p s) = acked" "s_window (recv_handler_acked p s) = w'"
    using assms(1) sl by (simp_all add: recv_handler_acked_def)
  then show ?thesis
    using spec below_absorb [of "lower_bound (s_window s)" "lower_bound w'" ?A] by simp
qed

subsection \<open>The invariant of one session\<close>

text \<open>Everything the sender counts as acknowledged has arrived.\<close>

definition acks_true :: "Sender \<Rightarrow> Receiver \<Rightarrow> bool" where
  "acks_true s r \<longleftrightarrow>
     (if r_selective_repeat r
      then \<forall>x. x < lower_bound (s_window s) \<or> x \<in> s_acked_seq_set s \<longrightarrow> received r x
      else lower_bound (s_window s) \<le> r_window_first r)"

text \<open>Every acknowledgement under way is one the receiver vouches for.\<close>

definition net_true :: "Client \<Rightarrow> Receiver \<Rightarrow> bool" where
  "net_true c r \<longleftrightarrow>
     (\<forall>p. c_got c = Some p \<longrightarrow> vouched r p) \<and>
     (\<forall>p. to_bytes p \<in> snd ` set (outbox (r_channel r)) \<and> packet_ok p \<longrightarrow> vouched r p)"

definition untouched :: "Client \<Rightarrow> Receiver \<Rightarrow> bool" where
  "untouched c r \<longleftrightarrow>
     unanswered c \<and> r_peer_addr r = None \<and> outbox (r_channel r) = [] \<and> r_state r = RIdle"

definition unblocked :: "Receiver \<Rightarrow> bool" where
  "unblocked r \<longleftrightarrow> (\<forall>q \<in> set (r_recv_buffer r). r_window_first r < seq q)"

definition session_inv :: "System \<Rightarrow> bool" where
  "session_inv y \<longleftrightarrow>
     sys_inv y \<and>
     r_os (y_receiver y) = Some (payloads (y_hist y) 0 (sn (r_window_first (y_receiver y)))) \<and>
     acks_true (y_sender y) (y_receiver y) \<and> net_true (y_client y) (y_receiver y) \<and>
     (y_opened y = 0 \<longrightarrow> untouched (y_client y) (y_receiver y) \<and> y_base y = None) \<and>
     (y_base y = Some 0 \<and> r_state (y_receiver y) \<noteq> RIdle \<longrightarrow> unblocked (y_receiver y))"

lemma acks_true_advances: "advances r r' \<Longrightarrow> acks_true s r \<Longrightarrow> acks_true s r'"
  by (auto simp: advances_def acks_true_def intro: order_trans)

lemma acks_true_same: "same_acks s s' \<Longrightarrow> acks_true s' r = acks_true s r"
  by (simp add: same_acks_def acks_true_def)

lemma acks_true_acked:
  assumes "acks_true s r" "vouched r p" "ack_in_range p s" "window_ok hist s" "acked_ok s"
    and "s_selective_repeat s = r_selective_repeat r"
  shows "acks_true (recv_handler_acked p s) r"
proof (cases "s_selective_repeat s")
  case True
  have "seq p < upper_bound (s_window s)" using assms(3) True by (simp add: ack_in_range_def)
  then have eq: "{x. x < lower_bound (s_window (recv_handler_acked p s))} \<union>
      s_acked_seq_set (recv_handler_acked p s)
    = insert (seq p) ({x. x < lower_bound (s_window s)} \<union> s_acked_seq_set s)"
    using assms(4,5) True by (intro sr_acked) (simp_all add: window_ok_def)
  have "x = seq p \<or> x < lower_bound (s_window s) \<or> x \<in> s_acked_seq_set s"
    if "x < lower_bound (s_window (recv_handler_acked p s)) \<or>
      x \<in> s_acked_seq_set (recv_handler_acked p s)" for x
    using that eq by blast
  with True assms(1,2,6) show ?thesis unfolding acks_true_def vouched_def by metis
next
  case False
  with assms(1,2,6) show ?thesis by (simp add: acks_true_def vouched_def gbn_lower)
qed

lemma session_sys_inv: "session_inv y \<Longrightarrow> sys_inv y"
  by (simp add: session_inv_def)

lemma session_inv_client:
  assumes inv: "session_inv y" and step: "client_step l (y_client y) c"
    and l: "\<forall>d. l = Hears d \<longrightarrow> deliverable (r_channel (y_receiver y)) (s_channel (y_sender y)) d"
    and bound: "length (c_hist c) < 4294967296"
  shows "session_inv (y\<lparr>y_client := c\<rparr>)"
proof -
  let ?r = "y_receiver y" and ?s = "y_sender y"
  note sys = session_sys_inv [OF inv]
  obtain new where grow: "c_hist c = y_hist y @ new" using hist_grows [OF step] by blast
  have got: "vouched ?r p \<and> (c_got (y_client y) = None \<longrightarrow> outbox (r_channel ?r) \<noteq> [])"
    if "c_got c = Some p" for p
    using step that
  proof (cases rule: client_got_cases)
    case old
    with inv show ?thesis by (simp add: session_inv_def net_true_def)
  next
    case (new bs addr)
    then have "to_bytes p \<in> snd ` set (outbox (r_channel ?r))" "packet_ok p"
      using delivered_to_sender [OF sys _ new(2)] l by (simp_all add: ack_known_def)
    with inv show ?thesis by (auto simp: session_inv_def net_true_def)
  qed
  have "acks_true (c_sender c) ?r"
    using client_step_acks [OF step]
  proof (elim disjE exE conjE)
    assume "same_acks ?s (c_sender c)"
    with inv show ?thesis by (simp add: session_inv_def acks_true_same)
  next
    fix p assume p: "c_got (y_client y) = Some p" "c_sender c = recv_handler_acked p ?s"
    have win: "window_ok (y_hist y) ?s" "acked_ok ?s" "s_selective_repeat ?s = r_selective_repeat ?r"
      "ack_known (y_hist y) (r_selective_repeat ?r) p"
      using sys p(1) by (simp_all add: sys_inv_def client_inv_def sender_inv_def)
    have "acks_true (recv_handler_acked p ?s) ?r"
      using inv p(1) win by (intro acks_true_acked [OF _ _ ack_known_range [OF win(4,1,3)] win(1-3)])
        (simp_all add: session_inv_def net_true_def)
    then show ?thesis by (simp add: p(2))
  qed
  moreover have "r_os ?r = Some (payloads (c_hist c) 0 (sn (r_window_first ?r)))"
    using inv sys by (simp add: session_inv_def grow payloads_grow sys_inv_def receiver_inv_def)
  moreover have "untouched c ?r" if "y_opened y = 0"
  proof -
    have u: "unanswered (y_client y)" "outbox (r_channel ?r) = []"
      using inv that by (simp_all add: session_inv_def untouched_def)
    have "c_got (y_client y) = None" using u(1) by (simp add: unanswered_def)
    then have "c_got c = None" using got u(2) by (cases "c_got c") auto
    then show ?thesis
      using client_step_unanswered [OF step u(1)] inv that by (simp add: session_inv_def untouched_def)
  qed
  moreover have "net_true c ?r"
    using got inv by (simp add: session_inv_def net_true_def)
  moreover have "sys_inv (y\<lparr>y_client := c\<rparr>)"
    by (rule sys_inv_client [OF sys step l bound])
  ultimately show ?thesis using inv by (simp add: session_inv_def)
qed

text \<open>The parts of a receiver's turn that the session needs.\<close>

lemma net_true_turn:
  assumes "net_true c r" "one_ack r r'" "\<And>p. vouched r p \<Longrightarrow> vouched r' p"
  shows "net_true c r'"
proof -
  have "vouched r' p" if p: "to_bytes p \<in> snd ` set (outbox (r_channel r'))" "packet_ok p" for p
  proof (cases "to_bytes p \<in> snd ` set (outbox (r_channel r))")
    case True
    with assms(1,3) p(2) show ?thesis by (simp add: net_true_def)
  next
    case False
    with assms(2) p(1) obtain k k' sq where q: "get_ack_kind k = Some k'"
      "to_bytes p = to_bytes (ack_packet k' sq)" "vouched r' (ack_packet k' sq)"
      unfolding one_ack_def by blast
    have "packet_ok (ack_packet k' sq)"
      using get_ack_kind_is_ack [OF q(1)] by (simp add: packet_ok_def)
    then have "p = ack_packet k' sq"
      using p(2) q(2) decode_encode_ok by (metis option.inject sum.inject(2))
    with q(3) show ?thesis by simp
  qed
  with assms(1,3) show ?thesis by (simp add: net_true_def)
qed

lemma recv_packet_os:
  assumes "numbered hist" "buffer_ok hist (r_recv_buffer r)" "sn (r_window_first r) \<le> length hist"
    and "in_hist hist p" and os: "r_os r = Some (payloads hist 0 (sn (r_window_first r)))"
    and turn: "recv_packet a p addr r = Inr (ctl, r')"
    and first: "turn_first p r = r_window_first r \<or> no_payload hist"
  shows "r_os r' = Some (payloads hist 0 (sn (r_window_first r')))"
  using turn
proof (cases rule: recv_packet_cases)
  case (accepted k)
  note spec = accept_packet_spec [OF assms(1,2,4,3) accepted(3)]
  from first show ?thesis
  proof
    assume eq: "turn_first p r = r_window_first r"
    have "payloads hist 0 (sn (r_window_first r)) @
        payloads hist (sn (r_window_first r)) (sn (r_window_first r')) =
        payloads hist 0 (sn (r_window_first r'))"
      using spec(1) eq by (intro payloads_append) simp_all
    then show ?thesis using spec(4) os eq by (simp add: os_write_def)
  next
    assume "no_payload hist"
    with spec(2,4) os assms(3) show ?thesis by (simp add: payloads_none os_write_def)
  qed
qed (use os in \<open>simp_all add: drop_packet_frame\<close>)

lemma recv_packet_peer:
  assumes "recv_packet a p addr r = Inr (ctl, r')" "\<not> opens p r"
  shows "r_peer_addr r' = r_peer_addr r \<and> (r_state r = RIdle \<longrightarrow> r_state r' = RIdle)"
  using assms(1)
proof (cases rule: recv_packet_cases)
  case (dropped k)
  show ?thesis unfolding dropped(4) by (simp add: drop_packet_frame)
next
  case (accepted k)
  show ?thesis
    unfolding accepted(3) using assms(2) by (auto simp: accept_packet_frame recv_switch_state opens_def)
qed simp

lemma recv_packet_unblocked:
  assumes "numbered hist" "buffer_ok hist (r_recv_buffer r)" "in_hist hist p"
    and turn: "recv_packet a p addr r = Inr (ctl, r')"
    and old: "r_state r \<noteq> RIdle \<and> unblocked r \<or> opens p r \<and> sn (seq p) = 0"
  shows "unblocked r'"
  using turn
proof (cases rule: recv_packet_cases)
  case ack
  with old show ?thesis by (auto simp: opens_def is_ack_def)
next
  case (dropped k)
  with old show ?thesis
    by (auto simp: unblocked_def drop_packet_frame dropped_def opens_def)
next
  case (accepted k)
  have "\<forall>q \<in> set (r_recv_buffer r). turn_first p r \<le> seq q" "turn_first p r \<le> seq p"
    using old accepted(2)
    by (auto simp: unblocked_def turn_first_def opens_def dropped_def seq_le_iff seq_less_iff not_less)
  from accept_packet_above [OF assms(1-3) this accepted(3)] show ?thesis
    by (simp add: unblocked_def)
qed

lemma session_running:
  "acks_true s (r\<lparr>r_running := b\<rparr>) = acks_true s r"
  "net_true c (r\<lparr>r_running := b\<rparr>) = net_true c r"
  "untouched c (r\<lparr>r_running := b\<rparr>) = untouched c r"
  "unblocked (r\<lparr>r_running := b\<rparr>) = unblocked r"
  by (simp_all add: acks_true_def net_true_def untouched_def unblocked_def received_def vouched_def)

lemma session_inv_receiver:
  assumes inv: "session_inv y" and turn: "recv_iter a d (y_receiver y) = Inr (ctl, r)"
    and d: "deliverable (s_channel (y_sender y)) (r_channel (y_receiver y)) d"
    and y': "y' = y\<lparr>y_receiver := r, y_done := e,
        y_opened := y_opened y + (if opened_at d (y_receiver y) = None then 0 else 1),
        y_base := (if opened_at d (y_receiver y) = None then y_base y else opened_at d (y_receiver y))\<rparr>"
    and once: "y_opened y' \<le> 1"
  shows "session_inv y'"
proof -
  let ?r = "y_receiver y" and ?c = "y_client y"
  note sys = session_sys_inv [OF inv]
  have sys': "sys_inv y'" unfolding y' by (rule sys_inv_receiver [OF sys turn d])
  show ?thesis
    using sys turn d
  proof (cases rule: sys_turn_cases)
    case quiet
    then have o: "opened_at d ?r = None" by (simp add: opened_at_def)
    obtain b where "r = ?r\<lparr>r_running := b\<rparr>"
      using quiet(2) by (metis Receiver.surjective Receiver.update_convs(8))
    then show ?thesis
      using sys' inv o by (simp add: y' session_inv_def session_running)
  next
    case (packet p addr)
    have ri: "buffer_ok (y_hist y) (r_recv_buffer ?r)" "sn (r_window_first ?r) \<le> length (y_hist y)"
      "fits (r_channel ?r)"
      using sys by (simp_all add: sys_inv_def receiver_inv_def)
    note num = sys_inv_hist [OF sys]
    note spec = recv_packet_turn [OF num ri(1,2) packet(2) ri(3) packet(3)]
    note os = recv_packet_os [OF num ri(1,2) packet(2) _ packet(3)]
    note free = recv_packet_unblocked [OF num ri(1) packet(2,3)]
    show ?thesis
    proof (cases "opens p ?r")
      case False
      have o: "opened_at d ?r = None" using packet(1) False by (simp add: opened_at_def)
      have peer: "r_peer_addr r = r_peer_addr ?r" "r_state ?r = RIdle \<Longrightarrow> r_state r = RIdle"
        using recv_packet_peer [OF packet(3) False] by simp_all
      have adv: "advances ?r r" using spec(2) False by simp
      have "r_os r = Some (payloads (y_hist y) 0 (sn (r_window_first r)))"
        using inv False by (intro os) (simp_all add: session_inv_def turn_first_def)
      moreover have "acks_true (y_sender y) r"
        using inv by (intro acks_true_advances [OF adv]) (simp add: session_inv_def)
      moreover have "net_true ?c r"
        using inv by (intro net_true_turn [OF _ spec(1)] vouched_advances [OF adv])
          (simp_all add: session_inv_def)
      moreover have "untouched ?c r" if "y_opened y = 0"
      proof -
        have u: "untouched ?c ?r" using inv that by (simp add: session_inv_def)
        have "snd ` set (outbox (r_channel r)) = {}"
          using spec(1) u peer(1) unfolding one_ack_def untouched_def by auto
        with u peer show ?thesis by (auto simp: untouched_def)
      qed
      moreover have "unblocked r" if "y_base y = Some 0" "r_state r \<noteq> RIdle"
        using free that peer inv by (auto simp: session_inv_def)
      ultimately show ?thesis using sys' inv o by (simp add: y' session_inv_def)
    next
      case True
      have o: "opened_at d ?r = Some (sn (seq p))" using packet(1) True by (simp add: opened_at_def)
      with once have "y_opened y = 0" by (simp add: y')
      then have u: "unanswered ?c" "outbox (r_channel ?r) = []"
        using inv by (simp_all add: session_inv_def untouched_def)
      have "r_os r = Some (payloads (y_hist y) 0 (sn (r_window_first r)))"
        using inv u(1) by (intro os) (simp_all add: session_inv_def unanswered_def)
      moreover have "acks_true (y_sender y) r"
        using u(1) by (simp add: acks_true_def unanswered_def seq_le_iff seq_less_iff)
      moreover have "net_true ?c r"
      proof -
        have "net_true ?c (r\<lparr>r_channel := r_channel ?r\<rparr>)"
          using u by (simp add: net_true_def unanswered_def)
        moreover have "one_ack (r\<lparr>r_channel := r_channel ?r\<rparr>) r"
          using spec(1) u(2) by (simp add: one_ack_def)
        ultimately show ?thesis
          by (rule net_true_turn) (simp add: vouched_def received_def split: if_splits)
      qed
      moreover have "unblocked r" if "sn (seq p) = 0"
        using free that True by simp
      ultimately show ?thesis using sys' o by (simp add: y' session_inv_def)
    qed
  qed
qed

definition session_bound :: "System \<Rightarrow> bool" where
  "session_bound y \<longleftrightarrow> sys_bound y \<and> y_opened y \<le> 1"

lemma session_inv_start: "sys_start y \<Longrightarrow> session_inv y"
proof -
  assume start: "sys_start y"
  then obtain s r where s: "sender_fresh s" and r: "receiver_fresh r"
    and y: "y = \<lparr>y_client = \<lparr>c_sender = snd (sender_init s), c_api = Ready, c_popped = None, c_locked = False,
                          c_got = None, c_enter = None, c_hist = [], c_file = []\<rparr>,
             y_receiver = recv_start r, y_done = False, y_opened = 0, y_base = None\<rparr>"
    unfolding sys_start_def by blast
  have "unanswered (y_client y)"
    using s by (simp add: y unanswered_def sender_init_def sender_fresh_def no_payload_def)
  then show "session_inv y"
    using sys_inv_start [OF start] r
    by (simp add: session_inv_def y recv_start_def receiver_fresh_def untouched_def acks_true_def
        net_true_def unanswered_def seq_less_iff seq_le_iff)
qed

lemma session_step_inv:
  assumes "sys_step y y'" "session_inv y" "session_bound y'"
  shows "session_inv y'"
  using assms(1)
proof (cases rule: sys_step.cases)
  case (sys_client l c)
  with assms(2,3) show ?thesis
    by (auto simp: session_bound_def sys_bound_def intro!: session_inv_client)
next
  case (sys_receiver d a ctl r)
  show ?thesis
    by (rule session_inv_receiver [OF assms(2) sys_receiver(5,4,1)])
      (use assms(3) in \<open>simp add: session_bound_def\<close>)
qed

lemma session_bound_back:
  assumes "sys_step y y'" "session_bound y'"
  shows "session_bound y"
proof -
  from assms(1) have "y_opened y \<le> y_opened y'" by (cases rule: sys_step.cases) auto
  with assms sys_bound_back show ?thesis by (auto simp: session_bound_def)
qed

interpretation session: invariant_system sys_start sys_step session_inv session_bound
  by unfold_locales (blast intro: session_inv_start session_step_inv session_bound_back)+

end
