(* ===== verification/EndToEnd.thy ===== *)
theory EndToEnd
  imports Delivery
begin

text \<open>
  From the stream given to \<open>send\<close> to the stream the receiver writes. While the sender runs,
  the packets made, the payload in hand and the unread rest of the stream are together the
  whole file; when \<open>send\<close> leaves the wait for an empty window, the receiver has written it.
\<close>

subsection \<open>Cutting the stream into packets\<close>

fun held :: "ApiPc \<Rightarrow> bytes" where
  "held (DataSend (SpPoll k pl) is n) = pl"
| "held _ = []"

fun unread :: "ApiPc \<Rightarrow> bytes" where
  "unread (PushSend sp is) = stream_bytes is"
| "unread (PushWait is) = stream_bytes is"
| "unread (DataRead is n) = stream_bytes is"
| "unread (DataSend sp is n) = stream_bytes is"
| "unread _ = []"

fun in_send :: "ApiPc \<Rightarrow> bool" where
  "in_send (PushSend sp is) = True"
| "in_send (PushWait is) = True"
| "in_send (DataRead is n) = True"
| "in_send (DataSend sp is n) = True"
| "in_send (ZeroWait n) = True"
| "in_send (StopSend sp n) = True"
| "in_send (StopWait n) = True"
| "in_send _ = False"

fun at_stop :: "ApiPc \<Rightarrow> bool" where
  "at_stop (StopSend sp n) = True"
| "at_stop (StopWait n) = True"
| "at_stop _ = False"

text \<open>Only \<open>DataSend\<close> carries a payload.\<close>

fun api_plain :: "ApiPc \<Rightarrow> bool" where
  "api_plain (ConnectSend sp) = send_pc_empty sp"
| "api_plain (PushSend sp is) = send_pc_empty sp"
| "api_plain (StopSend sp n) = send_pc_empty sp"
| "api_plain (DisconnectSend sp) = send_pc_empty sp"
| "api_plain _ = True"

lemma outside_send_wait [simp]:
  "api_plain (connect_wait s)" "api_plain (disconnect_wait s)"
  "\<not> in_send (connect_wait s)" "\<not> in_send (disconnect_wait s)"
  "\<not> at_stop (connect_wait s)" "\<not> at_stop (disconnect_wait s)"
  by (simp_all add: connect_wait_def disconnect_wait_def)

definition file_inv :: "Client \<Rightarrow> bool" where
  "file_inv c \<longleftrightarrow>
     api_plain (c_api c) \<and>
     (s_running (c_sender c) \<and> in_send (c_api c) \<longrightarrow>
        concat (map payload (c_hist c)) @ held (c_api c) @ unread (c_api c) = c_file c)"

lemma istream_read_bytes:
  "istream_read n is = (pl, is') \<Longrightarrow> is_good is \<Longrightarrow> pl @ stream_bytes is' = stream_bytes is"
  by (auto simp: istream_read_def stream_bytes_def split: if_splits)

lemma api_call_plain: "api_call s (pc, s') \<Longrightarrow> api_plain pc"
  by (auto simp: api_call_def connect_call_def send_call_def disconnect_call_def split: if_splits)

lemma api_step_plain: "api_step duration pc s = Inr (pc', s') \<Longrightarrow> api_plain pc \<Longrightarrow> api_plain pc'"
  by (cases pc) (auto split: if_splits option.splits prod.splits dest: send_packet_step_silent)

lemma api_plain_reserved:
  "api_plain pc \<Longrightarrow> reserved_of pc = Some p \<Longrightarrow> payload p \<noteq> [] \<Longrightarrow> \<exists>is n. pc = DataSend (SpReserved p) is n"
  by (cases pc; simp add: reserved_of_def) (auto elim!: send_reserved.elims)

text \<open>One step of the caller inside \<open>send\<close> moves octets between the three places.\<close>

lemma api_step_file:
  assumes "api_step duration pc s = Inr (pc', s')" "in_send pc'" "api_plain pc" "s_running s"
  shows "in_send pc \<and>
    concat (map payload (new_packets pc pc')) @ held pc' @ unread pc' = held pc @ unread pc"
proof (cases pc)
  case (DataRead "is" n)
  show ?thesis
  proof (cases "is_good is")
    case True
    obtain pl is' where rd: "istream_read NKURDT_MAX_PAYLOAD_SIZE is = (pl, is')" by (metis surj_pair)
    from istream_read_bytes [OF rd True] assms(1) DataRead rd True show ?thesis
      by (auto simp: new_packets_def reserved_of_def)
  next
    case False
    with assms(1) DataRead show ?thesis by (auto simp: new_packets_def reserved_of_def stream_bytes_def)
  qed
next
  case (DataSend sp "is" n)
  with assms(1,4) show ?thesis
    by (cases sp)
      (auto simp: new_packets_def reserved_of_def send_packet_poll_def send_packet_reserve_def
         mk_packet_def Let_def split: poll.splits if_splits)
next
  case (PushSend sp "is")
  with assms(1,3,4) show ?thesis
    by (cases sp)
      (auto simp: new_packets_def reserved_of_def send_packet_poll_def send_packet_reserve_def
         mk_packet_def Let_def split: poll.splits if_splits)
next
  case (StopSend sp n)
  with assms(1,3,4) show ?thesis
    by (cases sp)
      (auto simp: new_packets_def reserved_of_def send_packet_poll_def send_packet_reserve_def
         mk_packet_def Let_def split: poll.splits if_splits)
qed (use assms(1,2) in \<open>auto simp: new_packets_def reserved_of_def split: if_splits prod.splits option.splits\<close>)

lemma running_body: "s_running (send_handler_body a now sq s) \<Longrightarrow> s_running s"
  by (auto simp: send_handler_body_def frame_simps give_up_def transmit_def
      split: option.splits if_splits)

lemma running_acked: "s_running (recv_handler_acked p s) = s_running s"
  by (simp add: recv_handler_acked_def duplicate_ack_def Let_def split: prod.splits)

lemma running_timeout: "s_running (timeout_handler_iter order s) = s_running s"
  by (simp add: timeout_handler_iter_def split: prod.splits)

lemma running_enter: "s_running (enter_state st s) = s_running s"
  by (simp add: enter_state_def)

lemma client_step_running:
  assumes "client_step l c c'" "s_running (c_sender c')"
  shows "s_running (c_sender c)"
  using assms(1)
proof (cases rule: client_step.cases)
  case (client_call pc s)
  with api_call_control [OF client_call(4)] assms(2) show ?thesis by (auto simp: control_only_def)
next
  case (client_api duration pc s)
  from client_api(3) assms(2) show ?thesis
    by (cases rule: api_step_cases)
      (auto simp: client_api(2) control_only_def send_packet_reserve_def send_packet_enqueue_def Let_def)
next
  case client_lock
  with assms(2) show ?thesis by simp
next
  case (client_body sq a now)
  with assms(2) running_body show ?thesis by simp
next
  case (client_acked p)
  with assms(2) show ?thesis by (simp add: running_acked)
next
  case (client_timeout order)
  with assms(2) show ?thesis by (simp add: running_timeout)
next
  case (client_enter st)
  with assms(2) show ?thesis by (simp add: running_enter)
next
  case (client_pop x s)
  with assms(2) show ?thesis by (auto simp: send_handler_pop_def split: prod.splits)
next
  case (client_receive d got s)
  with assms(2) recv_handler_recv_effect(1) [OF client_receive(4)] show ?thesis by auto
next
  case client_stop
  with assms(2) show ?thesis by (simp add: sender_stop_def)
next
  case (client_timer clk)
  with assms(2) show ?thesis by (simp add: sender_timer_turn_def)
qed

lemma file_inv_step:
  assumes "client_step l c c'" "file_inv c"
  shows "file_inv c'"
  using assms(1)
proof (cases rule: client_step.cases)
  case (client_call pc s)
  have "in_send pc \<Longrightarrow> held pc = [] \<and>
      call_file pc (c_hist c) (c_file c) = concat (map payload (c_hist c)) @ unread pc"
    using client_call(4)
    by (auto simp: api_call_def connect_call_def send_call_def disconnect_call_def split: if_splits)
  with client_call api_call_plain [OF client_call(4)] show ?thesis by (auto simp: file_inv_def)
next
  case (client_api duration pc s)
  have "s_running s \<Longrightarrow> s_running (c_sender c)"
    using client_step_running [OF assms(1)] by (simp add: client_api(2))
  with client_api assms(2) api_step_file [OF client_api(3)] api_step_plain [OF client_api(3)]
  show ?thesis by (auto simp: file_inv_def)
qed (use assms(2) client_step_running [OF assms(1)] in \<open>simp_all add: file_inv_def\<close>)

subsection \<open>What the receiver has when the sender's window is empty\<close>

lemma window_empty_first:
  assumes inv: "session_inv y" and zero: "window_zero (s_window (y_sender y))"
    and sr: "r_selective_repeat (y_receiver y) \<longrightarrow> unblocked (y_receiver y)"
  shows "sn (r_window_first (y_receiver y)) = length (y_hist y)"
proof -
  let ?r = "y_receiver y" and ?w = "s_window (y_sender y)"
  have le: "sn (r_window_first ?r) \<le> length (y_hist y)"
    using inv by (simp add: session_inv_def sys_inv_def receiver_inv_def)
  have win: "sn (upper_bound ?w) = length (y_hist y)" "lower_bound ?w = upper_bound ?w"
    using inv zero
    by (simp_all add: session_inv_def sys_inv_def client_inv_def sender_inv_def window_ok_def window_zero_def)
  have acks: "acks_true (y_sender y) ?r" using inv by (simp add: session_inv_def)
  show ?thesis
  proof (cases "r_selective_repeat ?r")
    case True
    have "\<not> received ?r (r_window_first ?r)"
      using sr True by (auto simp: unblocked_def received_def)
    then have "\<not> r_window_first ?r < lower_bound ?w"
      using acks True by (auto simp: acks_true_def)
    with le win show ?thesis by (simp add: seq_less_iff)
  next
    case False
    with acks have "lower_bound ?w \<le> r_window_first ?r" by (simp add: acks_true_def)
    with le win show ?thesis by (simp add: seq_le_iff)
  qed
qed

lemma session_stream:
  assumes "session_inv y"
  shows "r_os (y_receiver y) =
    Some (concat (map payload (take (sn (r_window_first (y_receiver y))) (y_hist y))))"
proof -
  let ?n = "sn (r_window_first (y_receiver y))"
  have le: "?n \<le> length (y_hist y)"
    using assms by (simp add: session_inv_def sys_inv_def receiver_inv_def)
  then have "payloads (y_hist y) 0 ?n = payloads (take ?n (y_hist y)) 0 ?n"
    using payloads_grow [of ?n "take ?n (y_hist y)" "drop ?n (y_hist y)" 0] by simp
  also have "\<dots> = concat (map payload (take ?n (y_hist y)))"
    using payloads_all [of "take ?n (y_hist y)"] le by (simp add: min_absorb2)
  finally show ?thesis using assms by (simp add: session_inv_def)
qed

subsection \<open>The invariant of a transfer\<close>

text \<open>The receiver leaves \<open>Connected\<close> for \<open>Idle\<close> only on a disconnect request.\<close>

definition no_disconnect :: "Packet list \<Rightarrow> bool" where
  "no_disconnect hist \<longleftrightarrow> (\<forall>p \<in> set hist. kind p \<noteq> DisconnReq)"

definition open_inv :: "System \<Rightarrow> bool" where
  "open_inv y \<longleftrightarrow>
     (y_opened y = 1 \<and> no_disconnect (y_hist y) \<longrightarrow> r_state (y_receiver y) \<noteq> RIdle)"

text \<open>Go-back-n, or selective repeat on a connection opened by the very first packet.\<close>

definition clean :: "System \<Rightarrow> bool" where
  "clean y \<longleftrightarrow>
     r_selective_repeat (y_receiver y) \<longrightarrow> y_base y = Some 0 \<and> no_disconnect (y_hist y)"

definition whole :: "System \<Rightarrow> bool" where
  "whole y \<longleftrightarrow> r_os (y_receiver y) = Some (concat (map payload (y_hist y)))"

definition transfer_inv :: "System \<Rightarrow> bool" where
  "transfer_inv y \<longleftrightarrow>
     session_inv y \<and> open_inv y \<and> file_inv (y_client y) \<and>
     (at_stop (c_api (y_client y)) \<and> clean y \<longrightarrow> whole y)"

lemma recv_packet_connected:
  assumes "recv_packet a p addr r = Inr (ctl, r')" "kind p \<noteq> DisconnReq" "r_state r \<noteq> RIdle \<or> opens p r"
  shows "r_state r' \<noteq> RIdle"
  using assms(1)
proof (cases rule: recv_packet_cases)
  case ack
  with assms(3) show ?thesis by (auto simp: opens_def is_ack_def)
next
  case (dropped k)
  then show ?thesis by (simp add: drop_packet_frame dropped_def)
next
  case (accepted k)
  then show ?thesis
    using assms(2,3) by (auto simp: accept_packet_frame recv_switch_state opens_def split: ReceiverState.splits)
qed

lemma in_hist_no_disconnect: "in_hist hist p \<Longrightarrow> no_disconnect hist \<Longrightarrow> kind p \<noteq> DisconnReq"
  by (metis in_hist_def no_disconnect_def nth_mem)

text \<open>A stream that is the whole of the packets stays so while no payload is added.\<close>

lemma whole_first:
  assumes "session_inv y" "sn (r_window_first (y_receiver y)) = length (y_hist y)"
  shows "whole y"
  using session_stream [OF assms(1)] assms(2) by (simp add: whole_def)

lemma concat_take_whole:
  "concat (take n xs) = concat xs \<longleftrightarrow> (\<forall>x \<in> set (drop n xs). x = [])"
proof -
  have "concat xs = concat (take n xs) @ concat (drop n xs)"
    by (metis append_take_drop_id concat_append)
  then show ?thesis by auto
qed

lemma whole_mono:
  assumes "session_inv y'" "y_hist y' = y_hist y" "whole y" "session_inv y"
    and "sn (r_window_first (y_receiver y)) \<le> sn (r_window_first (y_receiver y'))"
  shows "whole y'"
proof -
  let ?n = "sn (r_window_first (y_receiver y))" and ?n' = "sn (r_window_first (y_receiver y'))"
  let ?ps = "map payload (y_hist y)"
  have "\<forall>x \<in> set (drop ?n ?ps). x = []"
    using session_stream [OF assms(4)] assms(3) by (simp add: whole_def take_map flip: concat_take_whole)
  then have "concat (take ?n' ?ps) = concat ?ps"
    using set_drop_subset_set_drop [OF assms(5), of ?ps] by (auto simp: concat_take_whole)
  then show ?thesis using session_stream [OF assms(1)] assms(2) by (simp add: whole_def take_map)
qed

lemma api_step_at_stop:
  "api_step duration pc s = Inr (pc', s') \<Longrightarrow> at_stop pc' \<Longrightarrow>
     at_stop pc \<or> (\<exists>n. pc = ZeroWait n \<and> window_zero (s_window s) \<and> new_packets pc pc' = [])"
  by (cases pc)
    (auto simp: new_packets_def reserved_of_def split: if_splits option.splits prod.splits)

lemma at_stop_step:
  assumes "client_step l c c'" "at_stop (c_api c')"
  obtains (stay) "at_stop (c_api c)"
  | (leave) n where "c_api c = ZeroWait n" "window_zero (s_window (c_sender c))" "c_hist c' = c_hist c"
  using assms(1)
proof (cases rule: client_step.cases)
  case (client_call pc s)
  with assms(2) show ?thesis
    by (auto simp: api_call_def connect_call_def send_call_def disconnect_call_def split: if_splits)
next
  case (client_api duration pc s)
  then show ?thesis
    using api_step_at_stop [OF client_api(3)] assms(2) stay leave by auto
qed (use assms(2) stay in simp_all)

lemma at_stop_payload:
  assumes "client_step l c c'" "api_plain (c_api c)" "at_stop (c_api c')" "at_stop (c_api c)"
  shows "concat (map payload (c_hist c')) = concat (map payload (c_hist c))"
  using assms(1)
proof (cases rule: client_step.cases)
  case (client_api duration pc s)
  have "payload p = []" if "reserved_of pc = Some p" for p
  proof (rule ccontr)
    assume "payload p \<noteq> []"
    with api_plain_reserved [OF api_step_plain [OF client_api(3) assms(2)] that]
    obtain "is" n where "pc = DataSend (SpReserved p) is n" by blast
    with assms(3) client_api(2) show False by simp
  qed
  with client_api show ?thesis by (auto simp: new_packets_def split: option.splits)
qed auto

lemma no_disconnect_grow: "client_step l c c' \<Longrightarrow> no_disconnect (c_hist c') \<Longrightarrow> no_disconnect (c_hist c)"
  using hist_grows [of l c c'] by (auto simp: no_disconnect_def)

lemma transfer_inv_client:
  assumes inv: "transfer_inv y" and step: "client_step l (y_client y) c"
    and once: "y_opened y \<le> 1" and sess: "session_inv (y\<lparr>y_client := c\<rparr>)"
  shows "transfer_inv (y\<lparr>y_client := c\<rparr>)"
proof -
  let ?y = "y\<lparr>y_client := c\<rparr>"
  note earlier = no_disconnect_grow [OF step]
  have old: "session_inv y" "file_inv (y_client y)" "open_inv y"
    using inv by (simp_all add: transfer_inv_def)
  have "whole ?y" if stop: "at_stop (c_api c)" and "clean ?y"
  proof -
    have clean: "clean y" using \<open>clean ?y\<close> earlier by (auto simp: clean_def)
    show ?thesis
      using step stop
    proof (cases rule: at_stop_step)
      case stay
      with clean inv have "whole y" by (simp add: transfer_inv_def)
      with at_stop_payload [OF step _ stop stay] old(2) show ?thesis
        by (simp add: whole_def file_inv_def)
    next
      case (leave n)
      then have "y_opened y \<noteq> 0"
        using old(1) by (auto simp: session_inv_def untouched_def unanswered_def)
      with once have "y_opened y = 1" by linarith
      with clean old have "r_selective_repeat (y_receiver y) \<longrightarrow> unblocked (y_receiver y)"
        by (auto simp: clean_def open_inv_def session_inv_def)
      with leave old(1) have "whole y" by (intro whole_first window_empty_first)
      with leave show ?thesis by (simp add: whole_def)
    qed
  qed
  with old sess earlier file_inv_step [OF step] show ?thesis
    by (auto simp: transfer_inv_def open_inv_def)
qed

lemma transfer_inv_receiver:
  assumes inv: "transfer_inv y" and turn: "recv_iter a d (y_receiver y) = Inr (ctl, r)"
    and d: "deliverable (s_channel (y_sender y)) (r_channel (y_receiver y)) d"
    and y': "y' = y\<lparr>y_receiver := r, y_done := e,
        y_opened := y_opened y + (if opened_at d (y_receiver y) = None then 0 else 1),
        y_base := (if opened_at d (y_receiver y) = None then y_base y else opened_at d (y_receiver y))\<rparr>"
    and once: "y_opened y' \<le> 1" and sess: "session_inv y'"
  shows "transfer_inv y'"
proof -
  let ?r = "y_receiver y"
  have old: "session_inv y" "file_inv (y_client y)" "open_inv y"
    using inv by (simp_all add: transfer_inv_def)
  note sys = session_sys_inv [OF old(1)]
  have "open_inv y' \<and> (opened_at d ?r = None \<longrightarrow> sn (r_window_first ?r) \<le> sn (r_window_first r))"
    using sys turn d
  proof (cases rule: sys_turn_cases)
    case quiet
    then show ?thesis using old(3) by (auto simp: y' open_inv_def opened_at_def)
  next
    case (packet p addr)
    have ri: "buffer_ok (y_hist y) (r_recv_buffer ?r)" "sn (r_window_first ?r) \<le> length (y_hist y)"
      "fits (r_channel ?r)"
      using sys by (simp_all add: sys_inv_def receiver_inv_def)
    note spec = recv_packet_turn [OF sys_inv_hist [OF sys] ri(1,2) packet(2) ri(3) packet(3)]
    have "r_state r \<noteq> RIdle" if "y_opened y' = 1" "no_disconnect (y_hist y)"
      using recv_packet_connected [OF packet(3)] in_hist_no_disconnect [OF packet(2)] that packet(1) old(3)
      by (auto simp: y' open_inv_def opened_at_def split: if_splits)
    with spec(2) packet(1) show ?thesis
      by (auto simp: open_inv_def y' opened_at_def advances_def seq_le_iff split: if_splits)
  qed
  moreover have "whole y'" if "at_stop (c_api (y_client y'))" "clean y'"
  proof (cases "opened_at d ?r")
    case None
    with that have "at_stop (c_api (y_client y))" "clean y"
      using recv_packet_turn(6) turn sess old(1) by (auto simp: y' clean_def session_inv_def sys_inv_def)
    with inv have "whole y" by (simp add: transfer_inv_def)
    with calculation None show ?thesis
      by (intro whole_mono [OF sess _ _ old(1)]) (simp_all add: y')
  next
    case (Some b)
    then have "y_opened y = 0" using once by (simp add: y')
    then have "unanswered (y_client y)" using old(1) by (simp add: session_inv_def untouched_def)
    with that(1) show ?thesis by (cases "c_api (y_client y)") (auto simp: y' unanswered_def)
  qed
  ultimately show ?thesis using old(2) sess by (simp add: transfer_inv_def) (simp add: y')
qed

lemma transfer_step_inv:
  assumes "sys_step y y'" "transfer_inv y" "session_bound y'"
  shows "transfer_inv y'"
proof -
  have sess: "session_inv y'"
    by (rule session_step_inv [OF assms(1) _ assms(3)]) (use assms(2) in \<open>simp add: transfer_inv_def\<close>)
  from assms(1) show ?thesis
  proof (cases rule: sys_step.cases)
    case (sys_client l c)
    with assms(2,3) sess show ?thesis by (auto simp: session_bound_def intro!: transfer_inv_client)
  next
    case (sys_receiver d a ctl r)
    show ?thesis
      by (rule transfer_inv_receiver [OF assms(2) sys_receiver(5,4,1) _ sess])
        (use assms(3) in \<open>simp add: session_bound_def\<close>)
  qed
qed

lemma transfer_inv_start: "sys_start y \<Longrightarrow> transfer_inv y"
proof -
  assume start: "sys_start y"
  then have o: "y_opened y = 0" and pc: "c_api (y_client y) = Ready"
    unfolding sys_start_def by (elim exE conjE, simp)+
  then have "open_inv y" "file_inv (y_client y)" by (simp_all add: open_inv_def file_inv_def)
  with session_inv_start [OF start] pc show "transfer_inv y" by (simp add: transfer_inv_def)
qed

interpretation transfer: invariant_system sys_start sys_step transfer_inv session_bound
  by unfold_locales (blast intro: transfer_inv_start transfer_step_inv session_bound_back)+

end
