(* ===== verification/Schedule.thy ===== *)
theory Schedule
  imports EndToEnd
begin

text \<open>
  Executable runs of the system. A schedule is a list of actions, each naming a step and
  the choices the environment makes in it; \<open>run\<close> performs them and fails where a step is not
  enabled. Every run is a run of \<open>sys_step\<close>, so a schedule that evaluates shows that a
  state is reachable.
\<close>

datatype action =
    DoConnect SocketAddr
  | DoSend istream
  | DoDisconnect
  | DoApi int
  | DoPop
  | DoLock
  | DoBody os_answer time_point
  | DoReceive nat SocketAddr
  | DoEnter
  | DoAcked
  | DoTimeout "SequenceNumber list"
  | DoTimer time_point
  | DoReceiver os_answer nat SocketAddr

text \<open>The datagram in place i of an outbox.\<close>

definition datagram :: "nat \<Rightarrow> Socket \<Rightarrow> bytes option" where
  "datagram i ch = (if i < length (outbox ch) then Some (snd (outbox ch ! i)) else None)"

definition exec_call :: "ApiPc \<times> Sender \<Rightarrow> Client \<Rightarrow> Client option" where
  "exec_call out c =
     (if api_free (c_api c) then Some (start_call out c) else None)"

definition exec_receive :: "recvfrom_answer \<Rightarrow> Client \<Rightarrow> Client option" where
  "exec_receive d c =
     (if c_got c = None
      then case recv_handler_recv d (c_sender c) of
             Inl e \<Rightarrow> None
           | Inr (got, s) \<Rightarrow>
               Some (c\<lparr>c_got := got, c_enter := Option.bind got (\<lambda>p. recv_handler_switch p s),
                 c_sender := s\<rparr>)
      else None)"

definition exec_receiver :: "os_answer \<Rightarrow> recvfrom_answer \<Rightarrow> System \<Rightarrow> System option" where
  "exec_receiver a d y =
     (if \<not> y_done y \<and> r_running (y_receiver y)
      then case recv_iter a d (y_receiver y) of
             Inl e \<Rightarrow> None
           | Inr (ctl, r) \<Rightarrow>
               let b = opened_at d (y_receiver y)
               in Some (y\<lparr>y_receiver := r, y_done := (ctl = LeaveLoop),
                    y_opened := y_opened y + (if b = None then 0 else 1),
                    y_base := (if b = None then y_base y else b)\<rparr>)
      else None)"

fun exec_client :: "action \<Rightarrow> Client \<Rightarrow> Client option" where
  "exec_client (DoConnect addr) c = exec_call (connect_call addr (c_sender c)) c"
| "exec_client (DoSend is) c = exec_call (send_call is (c_sender c)) c"
| "exec_client DoDisconnect c = exec_call (disconnect_call (c_sender c)) c"
| "exec_client (DoApi duration) c =
     (if reserved_of (c_api c) \<noteq> None \<and> c_locked c then None
      else
        case api_step duration (c_api c) (c_sender c) of
          Inl e \<Rightarrow> None
        | Inr (pc, s) \<Rightarrow>
            Some (c\<lparr>c_api := pc, c_sender := s, c_hist := c_hist c @ new_packets (c_api c) pc\<rparr>))"
| "exec_client DoPop c =
     (if c_popped c = None
      then let (x, s) = send_handler_pop (c_sender c) in Some (c\<lparr>c_popped := x, c_sender := s\<rparr>)
      else None)"
| "exec_client DoLock c =
     (if c_popped c = None \<or> c_locked c then None else Some (c\<lparr>c_locked := True\<rparr>))"
| "exec_client (DoBody a now) c =
     (case c_popped c of
        None \<Rightarrow> None
      | Some sq \<Rightarrow>
          if \<not> c_locked c \<or> holds_state_mutex (c_api c) \<and> reaches_give_up sq (c_sender c) then None
          else Some (c\<lparr>c_popped := None, c_locked := False, c_sender := send_handler_body a now sq (c_sender c)\<rparr>))"
| "exec_client DoEnter c =
     (if holds_state_mutex (c_api c) then None
      else map_option (\<lambda>st. c\<lparr>c_enter := None, c_sender := enter_state st (c_sender c)\<rparr>) (c_enter c))"
| "exec_client DoAcked c =
     (if c_enter c = None \<and> \<not> c_locked c
      then map_option (\<lambda>p. c\<lparr>c_got := None, c_sender := recv_handler_acked p (c_sender c)\<rparr>) (c_got c)
      else None)"
| "exec_client (DoTimeout order) c =
     (if set order = timed_out_events (s_timer (c_sender c)) \<and> distinct order
      then Some (c\<lparr>c_sender := timeout_handler_iter order (c_sender c)\<rparr>) else None)"
| "exec_client (DoTimer now) c =
     Some (c\<lparr>c_sender := sender_timer_turn (\<lambda>k. now) (c_sender c)\<rparr>)"
| "exec_client _ c = None"

fun exec :: "action \<Rightarrow> System \<Rightarrow> System option" where
  "exec (DoReceive i addr) y =
     Option.bind (datagram i (r_channel (y_receiver y))) (\<lambda>d.
       map_option (\<lambda>c. y\<lparr>y_client := c\<rparr>) (exec_receive (RecvDatagram d addr) (y_client y)))"
| "exec (DoReceiver a i addr) y =
     Option.bind (datagram i (s_channel (y_sender y))) (\<lambda>d. exec_receiver a (RecvDatagram d addr) y)"
| "exec act y = map_option (\<lambda>c. y\<lparr>y_client := c\<rparr>) (exec_client act (y_client y))"

fun run :: "action list \<Rightarrow> System \<Rightarrow> System option" where
  "run [] y = Some y"
| "run (act # acts) y = Option.bind (exec act y) (run acts)"

lemma run_append: "run (xs @ ys) y = Option.bind (run xs y) (run ys)"
  by (induction xs arbitrary: y) (auto split: bind_splits)

lemma exec_call_step:
  "exec_call out c = Some c' \<Longrightarrow> api_call (c_sender c) out \<Longrightarrow> client_step Calls c c'"
  by (auto simp: exec_call_def split: if_splits intro: client_start_call)

fun label_of :: "action \<Rightarrow> step_label" where
  "label_of (DoConnect addr) = Calls"
| "label_of (DoSend is) = Calls"
| "label_of DoDisconnect = Calls"
| "label_of _ = Works"

lemma label_not_hears [simp]: "label_of act \<noteq> Hears d"
  by (cases act) simp_all

lemma exec_client_step: "exec_client act c = Some c' \<Longrightarrow> client_step (label_of act) c c'"
proof (induction act c rule: exec_client.induct)
  case (1 addr c)
  then show ?case using exec_call_step [of "connect_call addr (c_sender c)"] by (auto simp: api_call_def)
next
  case (2 "is" c)
  then show ?case using exec_call_step [of "send_call is (c_sender c)"] by (auto simp: api_call_def)
next
  case (3 c)
  then show ?case using exec_call_step [of "disconnect_call (c_sender c)"] by (auto simp: api_call_def)
next
  case (4 duration c)
  then show ?case by (auto split: sum.splits if_splits intro: client_api)
next
  case (5 c)
  then show ?case by (auto split: if_splits prod.splits intro: client_pop)
next
  case (6 c)
  then show ?case by (auto split: if_splits intro: client_lock)
next
  case (7 a now c)
  then show ?case by (auto split: option.splits if_splits intro!: client_body)
next
  case (8 c)
  then show ?case by (auto split: if_splits intro: client_enter)
next
  case (9 c)
  then show ?case by (auto split: if_splits intro: client_acked)
next
  case (10 order c)
  then show ?case by (auto split: if_splits intro: client_timeout)
next
  case (11 now c)
  then show ?case by (auto intro: client_timer)
qed simp_all

lemma exec_step: "exec act y = Some y' \<Longrightarrow> sys_step y y'"
proof (induction act y rule: exec.induct)
  case (1 i addr y)
  then obtain d c where d: "datagram i (r_channel (y_receiver y)) = Some d"
    and c: "exec_receive (RecvDatagram d addr) (y_client y) = Some c" and y': "y' = y\<lparr>y_client := c\<rparr>"
    by (auto split: bind_splits)
  have "client_step (Hears (RecvDatagram d addr)) (y_client y) c"
    using c by (auto simp: exec_receive_def split: if_splits sum.splits intro: client_receive)
  moreover have "deliverable (r_channel (y_receiver y)) s (RecvDatagram d addr)" for s
    using d by (auto simp: deliverable_def datagram_def split: if_splits)
  ultimately show ?case unfolding y' by (intro sys_client) auto
next
  case (2 a i addr y)
  then obtain d where d: "datagram i (s_channel (y_sender y)) = Some d"
    and e: "exec_receiver a (RecvDatagram d addr) y = Some y'"
    by (auto split: bind_splits)
  have del: "deliverable (s_channel (y_sender y)) s (RecvDatagram d addr)" for s
    using d by (auto simp: deliverable_def datagram_def split: if_splits)
  obtain ctl r where it: "recv_iter a (RecvDatagram d addr) (y_receiver y) = Inr (ctl, r)"
    and on: "\<not> y_done y" "r_running (y_receiver y)"
    using e by (auto simp: exec_receiver_def split: if_splits sum.splits)
  show ?case
    using sys_receiver [OF on del it] e it on by (simp add: exec_receiver_def Let_def)
qed (auto simp del: exec_client.simps label_of.simps intro!: sys_client dest: exec_client_step)

lemma run_reach: "run acts y = Some y' \<Longrightarrow> sys_reach y \<Longrightarrow> sys_reach y'"
proof (induction acts arbitrary: y)
  case (Cons act acts)
  then obtain y1 where y1: "exec act y = Some y1" "run acts y1 = Some y'"
    by (auto split: bind_splits)
  have "sys_reach y1" using Cons.prems(2) exec_step [OF y1(1)] by (rule reach_step)
  with Cons.IH y1(2) show ?case by blast
qed simp

lemma run_steps: "run acts y = Some y' \<Longrightarrow> sys_step\<^sup>*\<^sup>* y y'"
proof (induction acts arbitrary: y)
  case (Cons act acts)
  then obtain y1 where "exec act y = Some y1" "run acts y1 = Some y'" by (auto split: bind_splits)
  with Cons.IH show ?case by (blast intro: exec_step converse_rtranclp_into_rtranclp)
qed simp

subsection \<open>A start and a transfer\<close>

text \<open>For evaluation, the length of a payload is compared in binary.\<close>

lemma payload_bytes_code [code]:
  "payload_bytes p =
     (if payload p \<noteq> [] \<and> int (length (payload p)) \<le> 65535
      then let n = (of_nat (length (payload p)) :: size_t)
           in [ucast (n AND 0xFF), ucast (drop_bit 8 n AND 0xFF)] @ payload p
      else [])"
  by (simp add: payload_bytes_def)

definition small_socket :: Socket where
  "small_socket = socket_new 64"

definition sender_at_rest :: "bool \<Rightarrow> Sender" where
  "sender_at_rest sr =
     \<lparr>s_pending_queue = queue_new,
      s_timer = \<lparr>events = [], registered_events = Map.empty, timed_out_events = {}, timer_running = False\<rparr>,
      s_packet_pool = Map.empty, s_retry_count = Map.empty, s_acked_seq_set = {},
      s_window = \<lparr>lower_bound = seq_default, upper_bound = seq_default, max_window_size = 5\<rparr>,
      s_max_retry_count = 100, s_actual_max_retry_count = 0, s_state = Idle, s_timeout = 1000,
      s_running = False, s_selective_repeat = sr, s_fast_retransmit = False, s_ack_dup_times = 0,
      s_channel = small_socket, s_peer_addr = addr_zero\<rparr>"

definition receiver_at_rest :: "bool \<Rightarrow> Receiver" where
  "receiver_at_rest sr =
     \<lparr>r_window_first = seq_default, r_window_second = seq_default, r_recv_buffer = [],
      r_channel = small_socket, r_peer_addr = None, r_max_window_size = 5, r_state = RIdle,
      r_running = False, r_selective_repeat = sr, r_os = Some []\<rparr>"

definition system_at_start :: "bool \<Rightarrow> System" where
  "system_at_start sr =
     \<lparr>y_client = \<lparr>c_sender = snd (sender_init (sender_at_rest sr)), c_api = Ready, c_popped = None, c_locked = False,
                  c_got = None, c_enter = None, c_hist = [], c_file = []\<rparr>,
      y_receiver = recv_start (receiver_at_rest sr), y_done = False, y_opened = 0, y_base = None\<rparr>"

lemma system_at_start: "sys_start (system_at_start sr)"
  unfolding sys_start_def
  by (intro exI [of _ "sender_at_rest sr"] exI [of _ "receiver_at_rest sr"])
    (simp add: system_at_start_def sender_fresh_def receiver_fresh_def sender_at_rest_def
      receiver_at_rest_def queue_new_def small_socket_def socket_new_def)

definition os_ok :: os_answer where
  "os_ok = \<lparr>os_result = 0, os_errno = 0\<rparr>"

text \<open>Datagram i to the receiver, its answer back, and the sender's handling of it; a change of
  state is entered when the answer decides one.\<close>

definition exchange :: "action list \<Rightarrow> nat \<Rightarrow> action list" where
  "exchange enter i = [DoApi 1, DoApi 1, DoPop, DoLock, DoBody os_ok 0, DoReceiver os_ok i addr_zero,
     DoReceive i addr_zero] @ enter @ [DoAcked, DoApi 1]"

definition connected_run :: "action list" where
  "connected_run = DoConnect addr_zero # exchange [DoEnter] 0"

definition transfer_run :: "action list" where
  "transfer_run =
     connected_run @ DoSend \<lparr>is_rest = [1, 2, 3], is_good = True\<rparr> # exchange [DoEnter] 1 @
     DoApi 1 # exchange [] 2 @ [DoApi 1]"

definition after_transfer :: "bool \<Rightarrow> System" where
  "after_transfer sr = the (run transfer_run (system_at_start sr))"

text \<open>What the end of the transfer looks like, as one evaluation in each mode.\<close>

definition transfer_summary :: "bool \<Rightarrow> System \<Rightarrow> bool" where
  "transfer_summary sr y \<longleftrightarrow>
     at_stop (c_api (y_client y)) \<and> s_running (y_sender y) \<and> y_opened y = 1 \<and> y_base y = Some 0 \<and>
     c_file (y_client y) = [1, 2, 3] \<and> map kind (y_hist y) = [ConnReq, DataPush, Data] \<and>
     lower_bound (s_window (y_sender y)) = SequenceNumber 3 \<and>
     upper_bound (s_window (y_sender y)) = SequenceNumber 3 \<and>
     r_window_first (y_receiver y) = SequenceNumber 3 \<and> r_recv_buffer (y_receiver y) = [] \<and>
     r_selective_repeat (y_receiver y) = sr \<and> s_selective_repeat (y_sender y) = sr \<and>
     map (map_sum id (map_option seq) \<circ> from_bytes \<circ> snd) (outbox (s_channel (y_sender y))) =
       [Inr (Some (SequenceNumber 0)), Inr (Some (SequenceNumber 1)), Inr (Some (SequenceNumber 2))] \<and>
     length (outbox (r_channel (y_receiver y))) = 3"

definition summary_option :: "bool \<Rightarrow> System option \<Rightarrow> bool" where
  "summary_option sr yo = (case yo of None \<Rightarrow> False | Some y \<Rightarrow> transfer_summary sr y)"

lemma transfer_evaluates: "summary_option sr (run transfer_run (system_at_start sr))"
proof (cases sr)
  case True
  have "summary_option True (run transfer_run (system_at_start True))" by code_simp
  with True show ?thesis by simp
next
  case False
  have "summary_option False (run transfer_run (system_at_start False))" by code_simp
  with False show ?thesis by simp
qed

lemma after_transfer_run: "run transfer_run (system_at_start sr) = Some (after_transfer sr)"
  using transfer_evaluates [of sr] by (auto simp: summary_option_def after_transfer_def split: option.splits)

lemma reach_after_transfer: "sys_reach (after_transfer sr)"
  by (rule run_reach [OF after_transfer_run reach_start [of sys_start, OF system_at_start]])

lemma after_transfer: "transfer_summary sr (after_transfer sr)"
  using transfer_evaluates [of sr] by (simp add: summary_option_def after_transfer_run)

lemma after_transfer_hist: "length (y_hist (after_transfer sr)) = 3"
  using after_transfer [of sr] length_map [of kind "y_hist (after_transfer sr)"]
  by (simp add: transfer_summary_def)

lemma after_transfer_no_disconnect: "no_disconnect (y_hist (after_transfer sr))"
proof -
  have "kind ` set (y_hist (after_transfer sr)) = {ConnReq, DataPush, Data}"
    using after_transfer [of sr] by (simp add: transfer_summary_def flip: set_map)
  then show ?thesis unfolding no_disconnect_def by (metis PacketKind.distinct image_eqI insertE singletonD)
qed

lemmas after_transfer_simps = after_transfer [unfolded transfer_summary_def] after_transfer_hist
  reach_after_transfer

text \<open>A packet under way: numbered 1, sent once, not acknowledged.\<close>

definition in_transit_run :: "action list" where
  "in_transit_run =
     connected_run @ [DoSend \<lparr>is_rest = [1, 2, 3], is_good = True\<rparr>, DoApi 1, DoApi 1, DoPop, DoLock, DoBody os_ok 0]"

definition in_transit :: System where
  "in_transit = the (run in_transit_run (system_at_start True))"

definition in_transit_summary :: "System \<Rightarrow> bool" where
  "in_transit_summary y \<longleftrightarrow>
     lower_bound (s_window (y_sender y)) = SequenceNumber 1 \<and>
     upper_bound (s_window (y_sender y)) = SequenceNumber 2 \<and>
     SequenceNumber 1 \<notin> s_acked_seq_set (y_sender y) \<and> y_opened y = 1 \<and>
     map kind (y_hist y) = [ConnReq, DataPush] \<and> s_retry_count (y_sender y) (SequenceNumber 1) = Some 0 \<and>
     query_event (SequenceNumber 1) (s_timer (y_sender y)) = Normal \<and>
     length (outbox (s_channel (y_sender y))) = 2 \<and>
     s_running (y_sender y) \<and> r_running (y_receiver y) \<and> \<not> y_done y \<and>
     r_state (y_receiver y) = RConnected \<and> r_max_window_size (y_receiver y) = 5 \<and>
     c_popped (y_client y) = None \<and> \<not> holds_state_mutex (c_api (y_client y)) \<and> s_max_retry_count (y_sender y) = 100 \<and> y_base y = Some 0 \<and>
     max_buf_size (s_channel (y_sender y)) = 64 \<and> map payload (y_hist y) = [[], []]"

lemma in_transit_evaluates:
  "case run in_transit_run (system_at_start True) of None \<Rightarrow> False | Some y \<Rightarrow> in_transit_summary y"
  by code_simp

lemma in_transit: "in_transit_summary in_transit"
  using in_transit_evaluates by (simp add: in_transit_def split: option.splits)

lemma reach_in_transit: "sys_reach in_transit"
proof -
  have "run in_transit_run (system_at_start True) = Some in_transit"
    using in_transit_evaluates by (simp add: in_transit_def split: option.splits)
  then show ?thesis by (rule run_reach [OF _ reach_start [of sys_start, OF system_at_start]])
qed

lemma in_transit_hist: "length (y_hist in_transit) = 2"
  using in_transit length_map [of kind "y_hist in_transit"] by (simp add: in_transit_summary_def)

lemma in_transit_outbox: "length (outbox (s_channel (y_sender in_transit))) = 2"
  using in_transit by (simp add: in_transit_summary_def)

lemmas in_transit_simps = in_transit [unfolded in_transit_summary_def] in_transit_hist reach_in_transit

end
