(* ===== verification/SenderProps.thy ===== *)
theory SenderProps
  imports Schedule
begin

text \<open>
  What single steps of the sender do, and where the code of the sender leaves its own
  contract: a fatal receive error, an acknowledgement from outside the window, a transfer
  that takes less than a millisecond.
\<close>

text \<open>A sender with the numbers 1 to 4 in its window.\<close>

definition sender_busy :: "bool \<Rightarrow> Sender" where
  "sender_busy sr =
     (sender_at_rest sr)\<lparr>s_window := \<lparr>lower_bound = SequenceNumber 1, upper_bound = SequenceNumber 5,
         max_window_size = 5\<rparr>,
       s_state := Sending, s_running := True\<rparr>"

definition ack_of :: "u32 \<Rightarrow> Packet" where
  "ack_of n = mk_packet NKURDT_VERSION DataAck (SequenceNumber n) []"

text \<open>C21: a step of any thread changes the state only along the protocol: \<open>Sending\<close> is entered
  from \<open>Pushing\<close> alone, \<open>Connected\<close> from \<open>Connecting\<close>, \<open>Pushing\<close> or \<open>Stopping\<close>, \<open>Idle\<close> from
  \<open>Connecting\<close> or \<open>Disconnecting\<close>, and \<open>Disconnecting\<close> never from \<open>Idle\<close>. The one exception is
  the receive thread, which assigns a state it has chosen in an earlier step; it chooses along
  the protocol, by the state at that time.\<close>

theorem state_follows_protocol:
  assumes "client_step l c c'"
  shows "(s_state (c_sender c') \<noteq> s_state (c_sender c) \<longrightarrow>
      state_from (s_state (c_sender c)) (s_state (c_sender c')) \<or>
      c_enter c = Some (s_state (c_sender c')) \<and> c_enter c' = None) \<and>
    (\<forall>st. c_enter c' = Some st \<and> c_enter c \<noteq> Some st \<longrightarrow> state_from (s_state (c_sender c)) st)"
  using state_step [OF assms] enter_decided [OF assms] by blast

theorem state_follows_protocol_witness:
  "state_from (s_state (sender_at_rest True)) (s_state (snd (connect_call addr_zero (sender_at_rest True))))"
proof -
  let ?c = "\<lparr>c_sender = sender_at_rest True, c_api = Ready, c_popped = None, c_locked = False, c_got = None, c_enter = None,
    c_hist = [], c_file = []\<rparr>"
  obtain pc s where out: "connect_call addr_zero (sender_at_rest True) = (pc, s)" by (metis surj_pair)
  have "client_step Calls ?c (?c\<lparr>c_api := pc, c_sender := s, c_file := call_file pc (c_hist ?c) (c_file ?c)\<rparr>)"
    by (rule client_call) (auto simp: api_call_def out [symmetric])
  from state_follows_protocol [OF this] out show ?thesis
    by (auto simp: connect_call_def sender_at_rest_def)
qed

text \<open>C20: in selective repeat, where only numbers below the upper bound are acknowledged, the window
  slides over exactly the run of acknowledged numbers at its lower end, and those are forgotten.\<close>

theorem window_slides_over_acked:
  assumes "slide_acked acked w = (acked', w')" "\<forall>x \<in> acked. x < upper_bound w"
    and "lower_bound w \<le> upper_bound w"
  shows "(\<forall>x. lower_bound w \<le> x \<and> x < lower_bound w' \<longrightarrow> x \<in> acked) \<and>
    lower_bound w' \<notin> acked' \<and> acked' = acked - {x. lower_bound w \<le> x \<and> x < lower_bound w'} \<and>
    lower_bound w' \<le> upper_bound w \<and> upper_bound w' = upper_bound w"
  using slide_acked_spec [OF assms] by blast

theorem window_slides_over_acked_witness:
  "lower_bound (snd (slide_acked {SequenceNumber 1, SequenceNumber 2, SequenceNumber 4}
     (s_window (sender_busy True)))) \<le> SequenceNumber 5"
proof -
  let ?A = "{SequenceNumber 1, SequenceNumber 2, SequenceNumber 4}" and ?w = "s_window (sender_busy True)"
  obtain acked' w' where sl: "slide_acked ?A ?w = (acked', w')" by (metis surj_pair)
  have "\<forall>x \<in> ?A. x < upper_bound ?w" "lower_bound ?w \<le> upper_bound ?w"
    by (simp_all add: sender_busy_def less_SequenceNumber_def less_eq_SequenceNumber_def)
  from window_slides_over_acked [OF sl this] sl show ?thesis by (simp add: sender_busy_def)
qed

text \<open>What some acknowledgements of the lower bound leave behind, counted from a moved window.\<close>

definition after_duplicates :: "nat \<Rightarrow> Sender \<Rightarrow> Sender \<Rightarrow> bool" where
  "after_duplicates n s s' \<longleftrightarrow>
     s_window s' = s_window s \<and> s_selective_repeat s' = s_selective_repeat s \<and>
     s_fast_retransmit s' = s_fast_retransmit s \<and>
     container (s_pending_queue s') = container (s_pending_queue s) \<union>
       (if s_fast_retransmit s \<and> 3 \<le> n \<and> 1 < max_window_size (s_window s)
        then {x. lower_bound (s_window s) \<le> x \<and> x < upper_bound (s_window s)} else {}) \<and>
     (if 1 < max_window_size (s_window s) then n < 3 \<longrightarrow> s_ack_dup_times s' = of_nat n
      else s_ack_dup_times s' = of_nat (min n 1))"

lemma after_duplicates_step:
  assumes "after_duplicates n s s'" "\<not> s_selective_repeat s" "seq p = lower_bound (s_window s)"
  shows "after_duplicates (Suc n) s (recv_handler_acked p s')"
proof -
  have dup: "recv_handler_acked p s' = (duplicate_ack s')\<lparr>s_acked_seq_set := s_acked_seq_set s' - {seq p}\<rparr>"
    using assms by (simp add: gbn_acked_eq after_duplicates_def)
  show ?thesis
  proof (cases "1 < max_window_size (s_window s)")
    case True
    consider "n = 0" | "n = 1" | "n = 2" | "3 \<le> n" by linarith
    then show ?thesis
      using assms(1) True
      by cases (auto simp: dup after_duplicates_def duplicate_ack_def Let_def container_push_range linorder_not_less)
  next
    case False
    then show ?thesis
      using assms(1)
      by (cases n) (auto simp: dup after_duplicates_def duplicate_ack_def Let_def linorder_not_less)
  qed
qed

lemma after_duplicates_fold:
  assumes "\<not> s_selective_repeat s" "s_ack_dup_times s = 0" "\<forall>p \<in> set ps. seq p = lower_bound (s_window s)"
  shows "after_duplicates (length ps) s (fold recv_handler_acked ps s)"
  using assms(3)
proof (induction ps rule: rev_induct)
  case Nil
  then show ?case using assms(2) by (simp add: after_duplicates_def)
next
  case (snoc p ps)
  then show ?case using after_duplicates_step [OF _ assms(1)] by simp
qed

text \<open>C26: fast retransmission in go-back-n. After the window has moved, which sets the counter of
  duplicates to zero, any number of acknowledgements of its lower bound leave the window where it
  is, and all the numbers of the window are queued again exactly if there were at least three,
  fast retransmission is on, and the maximum window size is above one: with a window of one packet
  the counter never gets to the third.\<close>

theorem fast_retransmit_refills:
  assumes "\<not> s_selective_repeat s" "s_ack_dup_times s = 0" "\<forall>p \<in> set ps. seq p = lower_bound (s_window s)"
  shows "container (s_pending_queue (fold recv_handler_acked ps s)) = container (s_pending_queue s) \<union>
      (if s_fast_retransmit s \<and> 3 \<le> length ps \<and> 1 < max_window_size (s_window s)
       then {x. lower_bound (s_window s) \<le> x \<and> x < upper_bound (s_window s)} else {}) \<and>
    s_window (fold recv_handler_acked ps s) = s_window s"
  using after_duplicates_fold [OF assms] by (simp add: after_duplicates_def)

theorem fast_retransmit_refills_witness:
  "SequenceNumber 4 \<in> container (s_pending_queue (fold recv_handler_acked [ack_of 1, ack_of 1, ack_of 1]
     ((sender_busy False)\<lparr>s_fast_retransmit := True\<rparr>)))"
  using fast_retransmit_refills
    [of "(sender_busy False)\<lparr>s_fast_retransmit := True\<rparr>" "[ack_of 1, ack_of 1, ack_of 1]"]
  by (simp add: sender_busy_def sender_at_rest_def ack_of_def mk_packet_def
      less_SequenceNumber_def less_eq_SequenceNumber_def)

text \<open>C23: a packet that has used up its retries is not sent again; the exchange under way is
  given up, and a transfer stops the sender.\<close>

theorem exhausted_gives_up:
  assumes "s_retry_count s sq = Some n" "s_max_retry_count s \<le> n"
    and "lower_bound (s_window s) \<le> sq" "lower_bound (s_window s) \<noteq> upper_bound (s_window s)"
    and "\<not> (s_selective_repeat s \<and> sq \<in> s_acked_seq_set s)"
  shows "s_channel (send_handler_body a now sq s) = s_channel s \<and>
    (s_state (send_handler_body a now sq s), s_running (send_handler_body a now sq s)) =
      (case s_state s of
         Stopping \<Rightarrow> (Connected, s_running s) | Pushing \<Rightarrow> (Connected, s_running s)
       | Connecting \<Rightarrow> (Idle, s_running s) | Disconnecting \<Rightarrow> (Idle, s_running s)
       | st \<Rightarrow> (st, False))"
proof -
  have "send_handler_body a now sq s = give_up s"
    using assms by (auto simp: send_handler_body_def)
  then show ?thesis by (cases "s_state s") (simp_all add: give_up_def)
qed

theorem exhausted_gives_up_witness:
  "s_running (send_handler_body os_ok 0 (SequenceNumber 2)
     ((sender_busy False)\<lparr>s_retry_count := [SequenceNumber 2 \<mapsto> 100]\<rparr>)) = False"
  using exhausted_gives_up [of "(sender_busy False)\<lparr>s_retry_count := [SequenceNumber 2 \<mapsto> 100]\<rparr>"
      "SequenceNumber 2" 100 os_ok 0]
  by (simp add: sender_busy_def sender_at_rest_def less_eq_SequenceNumber_def)

text \<open>the caller's thread has one fault: a transfer that ends within the millisecond it
  began in is divided by its duration, zero.\<close>

theorem caller_fault_exactly:
  "api_step duration pc s = Inl e \<longleftrightarrow>
     e = DivisionByZero \<and> duration = 0 \<and> window_zero (s_window s) \<and> (\<exists>n. pc = ZeroWait n)"
  by (cases pc) (auto split: option.splits prod.splits)

text \<open>any receive error that is not a timeout makes the receive thread decode an empty
  buffer, which reads outside it.\<close>

theorem fatal_receive_reads_outside:
  assumes "err \<noteq> EAGAIN"
  shows "recv_handler_recv (RecvFailed err) s = Inl OutOfBounds"
proof -
  have "from_bytes [] = Inl OutOfBounds" by (simp add: from_bytes_fault)
  with assms show ?thesis
    by (simp add: recv_handler_recv_def socket_recv_def is_fatal_error_iff EAGAIN_def)
qed

theorem fatal_receive_reads_outside_witness:
  "recv_handler_recv (RecvFailed 9) (sender_busy True) = Inl OutOfBounds"
  by (rule fatal_receive_reads_outside) (simp add: EAGAIN_def)

text \<open>C37: in go-back-n an acknowledgement above the window is taken: the lower bound passes the
  upper bound, so the window is neither empty nor, for the usual sizes, available, and
  every caller waiting for either waits on.\<close>

theorem unknown_ack_breaks_window:
  assumes "\<not> s_selective_repeat s" "lower_bound (s_window s) \<le> upper_bound (s_window s)"
    and "upper_bound (s_window s) < seq p"
    and "sn (seq p) - sn (upper_bound (s_window s)) + window_limit (s_window s) \<le> 4294967296"
  shows "upper_bound (s_window (recv_handler_acked p s)) < lower_bound (s_window (recv_handler_acked p s)) \<and>
    \<not> window_zero (s_window (recv_handler_acked p s)) \<and>
    \<not> window_available (s_window (recv_handler_acked p s))"
proof -
  let ?w = "s_window (recv_handler_acked p s)" and ?u = "upper_bound (s_window s)"
  have lt: "lower_bound (s_window s) < seq p" using assms(2,3) by (rule order_le_less_trans)
  then have w: "?w = set_lower_bound (seq p) (s_window s)"
    using assms(1) by (auto simp: gbn_acked_eq)
  have n: "unat (get ?u) < unat (get (seq p))" using assms(3) by (simp add: seq_less_iff sn_def)
  then have "unat (get ?u - get (seq p)) = 4294967296 + unat (get ?u) - unat (get (seq p))"
    by (simp add: unat_sub_if')
  then have "in_flight ?w = 4294967296 + sn ?u - sn (seq p)"
    by (simp add: w in_flight_def sn_def minus_SequenceNumber_def)
  then have "window_limit (s_window s) \<le> in_flight ?w"
    using assms(4) n by (simp add: sn_def)
  with assms(3) show ?thesis
    by (auto simp: w window_zero_def window_available_iff)
qed

theorem unknown_ack_breaks_window_witness:
  "\<not> window_zero (s_window (recv_handler_acked (ack_of 9) (sender_busy False)))"
  using unknown_ack_breaks_window [of "sender_busy False" "ack_of 9"]
  by (simp add: sender_busy_def sender_at_rest_def ack_of_def mk_packet_def sn_def window_limit_def
      less_SequenceNumber_def less_eq_SequenceNumber_def)

end
