(* ===== verification/Races.thy ===== *)
theory Races
  imports SenderProps
begin

text \<open>
  Where the threads of a sender come into each other's way: a change of state that is lost, and
  two deadlocks. Each is a run of the whole system that evaluates, and for the deadlocks a
  predicate that no step of any thread leaves.
\<close>

subsection \<open>A race on the state\<close>

text \<open>The answer to a connect request is decided on, then the send thread gives the request up,
  \<open>connect\<close> returns, and the receive thread assigns the state it had decided.\<close>

definition impatient_start :: System where
  "impatient_start =
     (system_at_start True)\<lparr>y_client := (y_client (system_at_start True))\<lparr>
        c_sender := snd (sender_init ((sender_at_rest True)\<lparr>s_max_retry_count := 0\<rparr>))\<rparr>\<rparr>"

text \<open>The request is sent, received and answered; the receive thread has read the answer and
  decided on the next state; the request has timed out and the send thread holds its number.\<close>

definition answer_decided_run :: "action list" where
  "answer_decided_run =
     [DoConnect addr_zero, DoApi 1, DoApi 1, DoPop, DoLock, DoBody os_ok 0, DoReceiver os_ok 0 addr_zero,
      DoReceive 0 addr_zero, DoTimer 2000000000, DoTimeout [SequenceNumber 0], DoPop, DoLock]"

lemma impatient_start: "sys_start impatient_start"
  unfolding sys_start_def
  by (intro exI [of _ "(sender_at_rest True)\<lparr>s_max_retry_count := 0\<rparr>"] exI [of _ "receiver_at_rest True"])
    (simp add: impatient_start_def system_at_start_def sender_fresh_def receiver_fresh_def
      sender_at_rest_def receiver_at_rest_def queue_new_def small_socket_def socket_new_def)

text \<open>C36: \<open>connect\<close> can report a timeout and leave the sender connected all the same, because the
  receive thread reads the state before it takes the state mutex. Four states of a run in which
  nothing but a connect request has been made: the caller waits inside \<open>connect\<close> and the receive
  thread has decided on Connected but not yet assigned it; the send thread gives the request up,
  and the sender is idle; \<open>connect\<close> returns the timeout, and the sender is still idle; the receive
  thread makes its assignment, and the sender is connected.\<close>

theorem late_answer_connects:
  "\<exists>y0 y1 y2 y3. sys_reach y0 \<and> map kind (y_hist y3) = [ConnReq] \<and>
     c_api (y_client y0) = ConnectWait \<and> s_state (y_sender y0) = Connecting \<and>
     c_enter (y_client y0) = Some Connected \<and>
     sys_step y0 y1 \<and> c_api (y_client y1) = ConnectWait \<and> s_state (y_sender y1) = Idle \<and>
     sys_step y1 y2 \<and> c_api (y_client y2) = Returned (generic_error ETIMEDOUT) \<and> s_state (y_sender y2) = Idle \<and>
     sys_step y2 y3 \<and> c_api (y_client y3) = Returned (generic_error ETIMEDOUT) \<and> s_state (y_sender y3) = Connected"
proof -
  have "case run answer_decided_run impatient_start of None \<Rightarrow> False
      | Some y0 \<Rightarrow> c_api (y_client y0) = ConnectWait \<and> s_state (y_sender y0) = Connecting \<and>
          c_enter (y_client y0) = Some Connected \<and>
          (case exec (DoBody os_ok 0) y0 of None \<Rightarrow> False
           | Some y1 \<Rightarrow> c_api (y_client y1) = ConnectWait \<and> s_state (y_sender y1) = Idle \<and>
               (case exec (DoApi 1) y1 of None \<Rightarrow> False
                | Some y2 \<Rightarrow> c_api (y_client y2) = Returned (generic_error ETIMEDOUT) \<and> s_state (y_sender y2) = Idle \<and>
                    (case exec DoEnter y2 of None \<Rightarrow> False
                     | Some y3 \<Rightarrow> c_api (y_client y3) = Returned (generic_error ETIMEDOUT) \<and>
                         s_state (y_sender y3) = Connected \<and> map kind (y_hist y3) = [ConnReq])))"
    by code_simp
  then obtain y0 y1 y2 y3 where y0: "run answer_decided_run impatient_start = Some y0"
      "c_api (y_client y0) = ConnectWait" "s_state (y_sender y0) = Connecting" "c_enter (y_client y0) = Some Connected"
    and y1: "exec (DoBody os_ok 0) y0 = Some y1" "c_api (y_client y1) = ConnectWait" "s_state (y_sender y1) = Idle"
    and y2: "exec (DoApi 1) y1 = Some y2" "c_api (y_client y2) = Returned (generic_error ETIMEDOUT)"
      "s_state (y_sender y2) = Idle"
    and y3: "exec DoEnter y2 = Some y3" "c_api (y_client y3) = Returned (generic_error ETIMEDOUT)"
      "s_state (y_sender y3) = Connected" "map kind (y_hist y3) = [ConnReq]"
    unfolding case_Some_iff by (elim exE conjE) (rule that; assumption)
  have "sys_reach y0" by (rule run_reach [OF y0(1) reach_start [of sys_start, OF impatient_start]])
  moreover note y0(2-) exec_step [OF y1(1)] y1(2-) exec_step [OF y2(1)] y2(2-) exec_step [OF y3(1)] y3(2-)
  ultimately show ?thesis
    by - (rule exI [of _ y0], rule exI [of _ y1], rule exI [of _ y2], rule exI [of _ y3], intro conjI; assumption)
qed

subsection \<open>Traps\<close>

text \<open>A predicate on the sender that no step of its threads leaves is one that no run leaves.\<close>

locale trap =
  fixes P :: "Client \<Rightarrow> bool"
  assumes stays: "client_step l c c' \<Longrightarrow> P c \<Longrightarrow> P c'"
begin

lemma stays_run: "sys_step\<^sup>*\<^sup>* y y' \<Longrightarrow> P (y_client y) \<Longrightarrow> P (y_client y')"
proof (induction rule: rtranclp_induct)
  case (step y' y'')
  from step.hyps(2) show ?case
    by (cases rule: sys_step.cases) (use step in \<open>auto dest: stays\<close>)
qed

lemma forever: "P (y_client y) \<Longrightarrow> {y'. sys_step\<^sup>*\<^sup>* y y'} \<subseteq> {y'. P (y_client y')}"
  by (auto dest: stays_run)

end

subsection \<open>A deadlock on the state mutex\<close>

text \<open>The caller polls the window inside \<open>send_packet\<close> with the state mutex in its hands, the
  window is full, and the receive thread waits for the mutex before it can handle the
  acknowledgement that would move the window.\<close>

definition deadlocked :: "Client \<Rightarrow> bool" where
  "deadlocked c \<longleftrightarrow>
     holds_state_mutex (c_api c) \<and> (\<exists>k pl. send_pc_of (c_api c) = Some (SpPoll k pl)) \<and>
     \<not> window_available (s_window (c_sender c)) \<and> s_running (c_sender c) \<and>
     c_got c \<noteq> None \<and> c_enter c \<noteq> None"

lemma body_keeps_window: "s_window (send_handler_body a now sq s) = s_window s"
  by (auto simp: send_handler_body_def frame_simps give_up_def transmit_def split: option.splits)

lemma body_keeps_running:
  "\<not> reaches_give_up sq s \<Longrightarrow> s_running (send_handler_body a now sq s) = s_running s"
  by (auto simp: send_handler_body_def reaches_give_up_def frame_simps transmit_def split: option.splits)

lemma poll_stays:
  assumes "api_step duration pc s = Inr (pc', s')" "send_pc_of pc = Some (SpPoll k pl)"
    and "\<not> window_available (s_window s)" "s_running s"
  shows "pc' = pc \<and> s' = s"
proof -
  have "send_packet_step (SpPoll k pl) s = (Some (SpPoll k pl), s)"
    using assms(3,4) by (simp add: send_packet_poll_def)
  with assms(1,2) show ?thesis by (cases pc) auto
qed

lemma deadlocked_step:
  assumes "client_step l c c'" "deadlocked c"
  shows "deadlocked c'"
  using assms(1)
proof (cases rule: client_step.cases)
  case (client_call pc s)
  with assms(2) show ?thesis by (cases "c_api c") (auto simp: deadlocked_def)
next
  case (client_api duration pc s)
  obtain k pl where "send_pc_of (c_api c) = Some (SpPoll k pl)" using assms(2) by (auto simp: deadlocked_def)
  from poll_stays [OF client_api(3) this] assms(2) client_api(2) show ?thesis
    by (auto simp: deadlocked_def)
next
  case (client_pop x s)
  with assms(2) show ?thesis by (auto simp: deadlocked_def send_handler_pop_def split: prod.splits)
next
  case (client_body sq a now)
  with assms(2) show ?thesis by (auto simp: deadlocked_def body_keeps_window body_keeps_running)
next
  case (client_timeout order)
  with assms(2) show ?thesis by (auto simp: deadlocked_def timeout_handler_iter_def split: prod.splits)
next
  case (client_timer clk)
  with assms(2) show ?thesis by (auto simp: deadlocked_def sender_timer_turn_def)
next
  case client_stop
  with assms(2) show ?thesis by (cases "c_api c") (auto simp: deadlocked_def)
qed (use assms(2) in \<open>auto simp: deadlocked_def\<close>)

text \<open>The deadlock inside a second \<open>connect\<close> after a first that has been given up: the one packet
  ever made is the first connect request, and the receive thread holds its answer.\<close>

definition connect_deadlocked :: "Client \<Rightarrow> bool" where
  "connect_deadlocked c \<longleftrightarrow>
     deadlocked c \<and> c_api c = ConnectSend (SpPoll ConnReq []) \<and> map kind (c_hist c) = [ConnReq] \<and>
     map_option kind (c_got c) = Some ConnAck"

lemma deadlocked_frame:
  assumes "client_step l c c'" "deadlocked c"
  shows "c_api c' = c_api c \<and> c_hist c' = c_hist c \<and> c_got c' = c_got c"
  using assms(1)
proof (cases rule: client_step.cases)
  case (client_call pc s)
  with assms(2) show ?thesis by (cases "c_api c") (auto simp: deadlocked_def)
next
  case (client_api duration pc s)
  obtain k pl where "send_pc_of (c_api c) = Some (SpPoll k pl)" using assms(2) by (auto simp: deadlocked_def)
  from poll_stays [OF client_api(3) this] assms(2) client_api(2) show ?thesis
    by (auto simp: deadlocked_def new_packets_def split: option.split)
qed (use assms(2) in \<open>auto simp: deadlocked_def\<close>)

interpretation full_window: trap connect_deadlocked
  by unfold_locales (auto simp: connect_deadlocked_def dest: deadlocked_step deadlocked_frame)

definition narrow_sender :: Sender where
  "narrow_sender =
     (sender_at_rest True)\<lparr>s_max_retry_count := 0,
        s_window := \<lparr>lower_bound = seq_default, upper_bound = seq_default, max_window_size = 1\<rparr>\<rparr>"

definition narrow_start :: System where
  "narrow_start =
     (system_at_start True)\<lparr>y_client := (y_client (system_at_start True))\<lparr>
        c_sender := snd (sender_init narrow_sender)\<rparr>\<rparr>"

text \<open>The first \<open>connect\<close> returns a timeout; then the second, and the answer to the first.\<close>

definition given_up_run :: "action list" where
  "given_up_run =
     [DoConnect addr_zero, DoApi 1, DoApi 1, DoPop, DoLock, DoBody os_ok 0, DoTimer 2000000000,
      DoTimeout [SequenceNumber 0], DoPop, DoLock, DoBody os_ok 0, DoApi 1]"

definition reconnect_run :: "action list" where
  "reconnect_run = [DoConnect addr_zero, DoApi 1, DoReceiver os_ok 0 addr_zero, DoReceive 0 addr_zero]"

lemma narrow_start: "sys_start narrow_start"
  unfolding sys_start_def
  by (intro exI [of _ narrow_sender] exI [of _ "receiver_at_rest True"])
    (simp add: narrow_start_def narrow_sender_def system_at_start_def sender_fresh_def receiver_fresh_def
      sender_at_rest_def receiver_at_rest_def queue_new_def small_socket_def socket_new_def)

definition stuck_summary :: "System \<Rightarrow> bool" where
  "stuck_summary y \<longleftrightarrow>
     c_api (y_client y) = ConnectSend (SpPoll ConnReq []) \<and> \<not> window_available (s_window (y_sender y)) \<and>
     s_running (y_sender y) \<and> map_option kind (c_got (y_client y)) = Some ConnAck \<and>
     c_enter (y_client y) \<noteq> None \<and> map kind (y_hist y) = [ConnReq]"

lemma stuck_summary: "stuck_summary y \<Longrightarrow> connect_deadlocked (y_client y)"
  by (auto simp: stuck_summary_def connect_deadlocked_def deadlocked_def)

text \<open>C34: \<open>connect\<close> can deadlock for good. There is a run in which a first \<open>connect\<close> returns a
  timeout, its request given up and unanswered, the only packet made; and which goes on to a state
  that no step of any thread or of the network ever changes: a second \<open>connect\<close> polls the full
  window for its own request, holding the state mutex, while the receive thread has the late
  answer to the first request in hand and waits for that mutex to assign the state before it can
  handle the acknowledgement that would move the window.\<close>

theorem reconnect_deadlocks:
  "\<exists>y1 y2. sys_reach y1 \<and> c_api (y_client y1) = Returned (generic_error ETIMEDOUT) \<and>
     s_state (y_sender y1) = Idle \<and> map kind (y_hist y1) = [ConnReq] \<and> y_opened y1 = 0 \<and>
     sys_step\<^sup>*\<^sup>* y1 y2 \<and> {y'. sys_step\<^sup>*\<^sup>* y2 y'} \<subseteq> {y'. connect_deadlocked (y_client y')}"
proof -
  have "case run given_up_run narrow_start of None \<Rightarrow> False
      | Some y1 \<Rightarrow> c_api (y_client y1) = Returned (generic_error ETIMEDOUT) \<and> s_state (y_sender y1) = Idle \<and>
          map kind (y_hist y1) = [ConnReq] \<and> y_opened y1 = 0 \<and>
          (case run reconnect_run y1 of None \<Rightarrow> False | Some y2 \<Rightarrow> stuck_summary y2)"
    by code_simp
  then obtain y1 y2 where y1: "run given_up_run narrow_start = Some y1"
      "c_api (y_client y1) = Returned (generic_error ETIMEDOUT)" "s_state (y_sender y1) = Idle"
      "map kind (y_hist y1) = [ConnReq]" "y_opened y1 = 0"
    and y2: "run reconnect_run y1 = Some y2" "stuck_summary y2"
    unfolding case_Some_iff by (elim exE conjE) (rule that; assumption)
  have "sys_reach y1" by (rule run_reach [OF y1(1) reach_start [of sys_start, OF narrow_start]])
  moreover note y1(2-) run_steps [OF y2(1)] full_window.forever [OF stuck_summary [OF y2(2)]]
  ultimately show ?thesis by - (rule exI [of _ y1], rule exI [of _ y2], intro conjI; assumption)
qed

subsection \<open>A deadlock by the order of the mutexes\<close>

text \<open>The caller has numbered a packet under the state mutex and needs the mutex of the pool;
  the send thread holds the mutexes of the pool and of the acknowledged set and needs the state
  mutex to give a number up.\<close>

definition lock_cycle :: "Client \<Rightarrow> bool" where
  "lock_cycle c \<longleftrightarrow>
     holds_state_mutex (c_api c) \<and> reserved_of (c_api c) \<noteq> None \<and> c_locked c \<and>
     (case c_popped c of None \<Rightarrow> False | Some sq \<Rightarrow> reaches_give_up sq (c_sender c))"

lemma lock_cycle_step:
  assumes "client_step l c c'" "lock_cycle c"
  shows "lock_cycle c'"
  using assms(1)
proof (cases rule: client_step.cases)
  case (client_timeout order)
  with assms(2) show ?thesis
    by (auto simp: lock_cycle_def timeout_handler_iter_def reaches_give_up_def split: prod.splits option.splits)
next
  case (client_timer clk)
  with assms(2) show ?thesis
    by (auto simp: lock_cycle_def sender_timer_turn_def reaches_give_up_def split: option.splits)
next
  case (client_receive d got s)
  with assms(2) recv_handler_recv_effect(1) [OF client_receive(4)] show ?thesis
    by (auto simp: lock_cycle_def split: option.splits)
qed (use assms(2) in \<open>auto simp: lock_cycle_def dest: mutex_not_free\<close>)

interpretation lock_order: trap lock_cycle
  by unfold_locales (rule lock_cycle_step)

definition lock_order_run :: "action list" where
  "lock_order_run =
     [DoConnect addr_zero, DoApi 1, DoApi 1, DoPop, DoLock, DoBody os_ok 0, DoReceiver os_ok 0 addr_zero,
      DoTimer 2000000000, DoTimeout [SequenceNumber 0], DoPop, DoReceive 0 addr_zero, DoEnter, DoApi 1,
      DoSend \<lparr>is_rest = [1, 2, 3], is_good = True\<rparr>, DoApi 1, DoLock]"

text \<open>C35: the order in which the mutexes are taken can deadlock the sender for good. \<open>send\<close> numbers
  its first packet with the state mutex in its hands while the send thread, with the mutexes of
  the pool and of the acknowledged set, finds a number out of retries: each waits for what the
  other holds, the receive thread waits for the acknowledged set, and no step of any
  thread or of the network ever changes this.\<close>

theorem lock_order_deadlocks:
  "\<exists>y. sys_reach y \<and> lock_cycle (y_client y) \<and> {y'. sys_step\<^sup>*\<^sup>* y y'} \<subseteq> {y'. lock_cycle (y_client y')}"
proof -
  have "case run lock_order_run impatient_start of None \<Rightarrow> False | Some y \<Rightarrow> lock_cycle (y_client y)"
    by code_simp
  then obtain y where y: "run lock_order_run impatient_start = Some y" "lock_cycle (y_client y)"
    by (auto split: option.splits)
  have "sys_reach y" by (rule run_reach [OF y(1) reach_start [of sys_start, OF impatient_start]])
  with y(2) lock_order.forever show ?thesis by blast
qed

end
