(* ===== verification/ReceiverProps.thy ===== *)
theory ReceiverProps
  imports Schedule
begin

text \<open>
  What a turn of the receiver does on every branch, and where the code leaves its contract:
  a packet no acknowledgement exists for, and a packet that does not fit the state.
\<close>

definition receiver_open :: Receiver where
  "receiver_open =
     (recv_start (receiver_at_rest False))\<lparr>r_state := Receiving, r_peer_addr := Some addr_zero,
       r_window_first := SequenceNumber 2, r_window_second := SequenceNumber 7\<rparr>"

definition data_packet :: "u32 \<Rightarrow> bytes \<Rightarrow> Packet" where
  "data_packet n pl = mk_packet NKURDT_VERSION Data (SequenceNumber n) pl"

subsection \<open>Sliding\<close>

text \<open>the receive loop takes from the front of the buffer the longest run of consecutive
  numbers that starts at the window, writes their payloads in order, and moves both ends of
  the window by the length of the run.\<close>

theorem slide_takes_run:
  assumes "slide_buffer buf first second os = (buf', first', second', os')"
  shows "\<exists>run. buf = run @ buf' \<and> (\<forall>i < length run. seq (run ! i) = (update_seq ^^ i) first) \<and>
    first' = (update_seq ^^ length run) first \<and> second' = (update_seq ^^ length run) second \<and>
    os' = os_write (concat (map payload run)) os \<and> (buf' = [] \<or> seq (hd buf') \<noteq> first')"
  using assms
proof (induction buf first second os rule: slide_buffer.induct)
  case (1 first second os)
  then show ?case by (auto simp: os_write_def split: option.splits)
next
  case (2 p ps first second os)
  show ?case
  proof (cases "seq p = first")
    case True
    then obtain run where run: "ps = run @ buf'"
      "\<forall>i < length run. seq (run ! i) = (update_seq ^^ i) (update_seq first)"
      "first' = (update_seq ^^ length run) (update_seq first)"
      "second' = (update_seq ^^ length run) (update_seq second)"
      "os' = os_write (concat (map payload run)) (os_write (payload p) os)"
      "buf' = [] \<or> seq (hd buf') \<noteq> first'"
      using "2.IH" "2.prems" by auto
    then show ?thesis
      using True by (intro exI [of _ "p # run"])
        (auto simp: less_Suc_eq_0_disj funpow_swap1 os_write_def split: option.splits)
  next
    case False
    with "2.prems" show ?thesis
      by (intro exI [of _ "[]"]) (auto simp: os_write_def split: option.splits)
  qed
qed

theorem slide_takes_run_witness:
  "\<exists>run. [data_packet 2 [7], data_packet 3 [8], data_packet 5 [9]] = run @ [data_packet 5 [9]] \<and>
     Some [7, 8] = os_write (concat (map payload run)) (Some [])"
proof -
  have "slide_buffer [data_packet 2 [7], data_packet 3 [8], data_packet 5 [9]]
      (SequenceNumber 2) (SequenceNumber 7) (Some []) =
    ([data_packet 5 [9]], SequenceNumber 4, SequenceNumber 9, Some [7, 8])"
    by (simp add: data_packet_def mk_packet_def update_seq_def os_write_def)
  from slide_takes_run [OF this] show ?thesis by blast
qed

subsection \<open>Every branch of a turn\<close>

text \<open>a packet from behind the window is acknowledged again, by its own number in selective
  repeat and by the window in go-back-n, and changes nothing else.\<close>

theorem old_packet_acknowledged_again:
  assumes "r_state r \<noteq> RIdle" "seq p < r_window_first r" "\<not> is_ack p"
    and "get_ack_kind (kind p) = Some k" "r_peer_addr r = Some peer"
    and "0 \<le> os_result a" "12 \<le> unat (max_buf_size (r_channel r))"
  shows "\<exists>r'. recv_packet a p addr r = Inr (NextTurn, r') \<and>
    outbox (r_channel r') = outbox (r_channel r) @
      [(peer, to_bytes (mk_packet NKURDT_VERSION k
          (if r_selective_repeat r then seq p else r_window_first r) []))] \<and>
    r_os r' = r_os r \<and> r_recv_buffer r' = r_recv_buffer r \<and>
    r_window_first r' = r_window_first r \<and> r_state r' = r_state r"
proof -
  have "length (to_bytes (mk_packet NKURDT_VERSION k sq [])) = 12" for sq
    by (simp add: length_to_bytes reserve_size_def mk_packet_def)
  with assms show ?thesis
    by (simp add: recv_packet_def reply_ack_def outbox_send)
qed

theorem old_packet_acknowledged_again_witness:
  "\<exists>r'. recv_packet os_ok (data_packet 0 [1]) addr_zero receiver_open = Inr (NextTurn, r') \<and>
     r_os r' = Some []"
proof -
  have "\<exists>r'. recv_packet os_ok (data_packet 0 [1]) addr_zero receiver_open = Inr (NextTurn, r') \<and>
    outbox (r_channel r') = outbox (r_channel receiver_open) @
      [(addr_zero, to_bytes (mk_packet NKURDT_VERSION DataAck
          (if r_selective_repeat receiver_open then seq (data_packet 0 [1])
           else r_window_first receiver_open) []))] \<and>
    r_os r' = r_os receiver_open \<and> r_recv_buffer r' = r_recv_buffer receiver_open \<and>
    r_window_first r' = r_window_first receiver_open \<and> r_state r' = r_state receiver_open"
    by (rule old_packet_acknowledged_again)
      (simp_all add: receiver_open_def receiver_at_rest_def recv_start_def data_packet_def mk_packet_def
        os_ok_def small_socket_def socket_new_def less_SequenceNumber_def is_ack_def get_ack_kind_def)
  then show ?thesis by (auto simp: receiver_open_def receiver_at_rest_def recv_start_def)
qed

text \<open>C22: a turn changes the state only along the protocol: to \<open>Connected\<close> by a connect request
  in \<open>Idle\<close> or a stop in \<open>Receiving\<close>, to \<open>Receiving\<close> by a push, to \<open>Idle\<close> by a disconnect
  request in \<open>Connected\<close>.\<close>

theorem receiver_follows_protocol:
  assumes "recv_packet a p addr r = Inr (ctl, r')" "r_state r' \<noteq> r_state r"
  shows "(r_state r, kind p, r_state r') \<in>
    {(RIdle, ConnReq, RConnected), (Receiving, DataStop, RConnected),
     (RConnected, DataPush, Receiving), (RConnected, DisconnReq, RIdle)}"
  using assms(1)
proof (cases rule: recv_packet_cases)
  case (accepted k)
  then show ?thesis
    using assms(2)
    by (auto simp: accept_packet_frame recv_switch_state split: ReceiverState.splits if_splits)
qed (use assms(2) in \<open>simp_all add: drop_packet_frame\<close>)

theorem receiver_follows_protocol_witness:
  "\<exists>r'. recv_packet os_ok (mk_packet 1 ConnReq (SequenceNumber 0) []) addr_zero
      (recv_start (receiver_at_rest True)) = Inr (NextTurn, r') \<and> r_state r' = RConnected"
proof -
  let ?p = "mk_packet 1 ConnReq (SequenceNumber 0) []" and ?r = "recv_start (receiver_at_rest True)"
  have "case recv_packet os_ok ?p addr_zero ?r of
      Inl e \<Rightarrow> False | Inr (ctl, r') \<Rightarrow> ctl = NextTurn \<and> r_state r' \<noteq> r_state ?r"
    by code_simp
  then obtain r' where r': "recv_packet os_ok ?p addr_zero ?r = Inr (NextTurn, r')"
    "r_state r' \<noteq> r_state ?r"
    by (auto split: sum.splits)
  from receiver_follows_protocol [OF r'] r'(1) show ?thesis
    by (auto simp: recv_start_def mk_packet_def)
qed

lemma recv_packet_yield:
  assumes "recv_packet a p addr r = Inr (YieldTrue, r')"
  shows "r_state r' = RConnected"
proof -
  have stop: "snd (recv_switch p addr r) \<Longrightarrow> r_state (fst (recv_switch p addr r)) = RConnected"
    by (auto simp: recv_switch_def split: ReceiverState.splits if_splits)
  show ?thesis
    using assms stop
    by (auto simp: recv_packet_def Let_def case_prod_beta frame_simps split: if_splits option.splits)
qed

lemma recv_iter_yield: "recv_iter a d r = Inr (YieldTrue, r') \<Longrightarrow> r_state r' = RConnected"
  by (auto simp: recv_iter_def Let_def bind_result_Inr_iff recv_packet_yield
      split: prod.splits if_splits option.splits)

text \<open>The receiver hands control back with true only after the stop of a transfer, in the
  state \<open>Connected\<close>.\<close>

theorem yields_true_when_connected:
  assumes "recv_run ins r = Inr (Yielded True r' rest)"
  shows "r_state r' = RConnected"
  using assms
proof (induction ins r rule: recv_run.induct)
  case (1 ins r)
  have run: "r_running r" using "1.prems" by (auto simp: recv_run.simps [of ins r] split: if_splits)
  obtain a d ins' where ins: "ins = (a, d) # ins'"
    using "1.prems" run by (cases ins) (auto simp: recv_run.simps)
  obtain ctl r1 where it: "recv_iter a d r = Inr (ctl, r1)"
    using "1.prems" run ins
    by (auto simp: recv_run.simps [of "(a, d) # ins'" r] bind_result_Inr_iff)
  have step: "(case ctl of NextTurn \<Rightarrow> recv_run ins' r1 | YieldTrue \<Rightarrow> Inr (Yielded True r1 ins')
      | LeaveLoop \<Rightarrow> Inr (Yielded False r1 ins')) = Inr (Yielded True r' rest)"
    using "1.prems" run ins it
    by (simp add: recv_run.simps [of "(a, d) # ins'" r])
  show ?case
  proof (cases ctl)
    case NextTurn
    with step have "recv_run ins' r1 = Inr (Yielded True r' rest)" by simp
    with "1.IH" run ins it NextTurn show ?thesis by auto
  next
    case YieldTrue
    with step it show ?thesis by (auto intro: recv_iter_yield)
  next
    case LeaveLoop
    with step show ?thesis by simp
  qed
qed

theorem yields_true_when_connected_witness:
  "\<exists>r' rest. recv_run [(os_ok, RecvDatagram (to_bytes (mk_packet 1 DataStop (SequenceNumber 2) [])) addr_zero)]
      receiver_open = Inr (Yielded True r' rest) \<and> r_state r' = RConnected"
proof -
  let ?run = "recv_run [(os_ok, RecvDatagram (to_bytes (mk_packet 1 DataStop (SequenceNumber 2) [])) addr_zero)]
      receiver_open"
  have "case ?run of Inl e \<Rightarrow> False | Inr out \<Rightarrow>
      (case out of Blocked r \<Rightarrow> False | Yielded b r rest \<Rightarrow> b)"
    by code_simp
  then obtain r' rest where y: "?run = Inr (Yielded True r' rest)"
    by (auto split: sum.splits recv_outcome.splits)
  from yields_true_when_connected [OF y] y show ?thesis by blast
qed

subsection \<open>Outside the contract\<close>

text \<open>the only fault behind the decoder: a well-formed packet of a kind that has no
  acknowledgement makes \<open>get_ack_kind(...).value()\<close> throw, whatever the state.\<close>

theorem unanswerable_packet_throws:
  "recv_packet a p addr r = Inl e \<longleftrightarrow>
     e = BadOptionalAccess \<and> \<not> is_ack p \<and> get_ack_kind (kind p) = None"
  by (rule recv_packet_fault)



text \<open>\<open>Generator::next\<close> never throws its message past the end: once it has returned false it
  returns false again and finishes the coroutine, and the call after that resumes a
  finished coroutine.\<close>

theorem next_past_the_end:
  assumes "generator_next ins co r = Inr (Some (False, AtYield False, rest), r')"
  shows "generator_next rest (AtYield False) r' = Inr (Some (False, Finished, rest), r') \<and>
    generator_next rest Finished r' = Inl ResumedPastEnd \<and> co \<noteq> NoHandle"
  using assms by (cases co) auto

theorem next_past_the_end_witness:
  "generator_next [] Finished (receiver_open\<lparr>r_running := False\<rparr>) = Inl ResumedPastEnd"
proof -
  have "generator_next [] (AtYield True) (receiver_open\<lparr>r_running := False\<rparr>) =
    Inr (Some (False, AtYield False, []), receiver_open\<lparr>r_running := False\<rparr>)"
    by (simp add: recv_run.simps)
  from next_past_the_end [OF this] show ?thesis by simp
qed

end
