(* ===== verification/Limits.thy ===== *)
theory Limits
  imports Races ReceiverProps
begin

text \<open>
  Why the theorems on runs speak of one opening of a connection and of fewer than 2^32
  packets, some also of an opening by packet 0: what happens beyond, as runs that evaluate and as a
  law of the handlers.
\<close>

subsection \<open>A second opening\<close>

text \<open>After a whole transfer a second one is given up and a disconnect request overtakes its
  packet; the receiver, idle and still in its loop, gets the datagrams of the first connection
  again.\<close>

definition replay_run :: "action list" where
  "replay_run =
     transfer_run @ exchange [DoEnter] 3 @
     [DoSend \<lparr>is_rest = [], is_good = True\<rparr>, DoApi 1, DoApi 1, DoPop, DoLock, DoBody os_ok 0,
      DoTimer 2000000000, DoTimeout (map SequenceNumber [0, 1, 2, 3, 4])] @
     concat (replicate 5 [DoPop, DoLock, DoBody os_ok 0]) @
     [DoApi 1, DoDisconnect, DoApi 1, DoApi 1, DoPop, DoLock, DoBody os_ok 0,
      DoReceiver os_ok 5 addr_zero, DoReceiver os_ok 0 addr_zero, DoReceiver os_ok 1 addr_zero,
      DoReceiver os_ok 2 addr_zero]"

text \<open>C25: when the network repeats a connect request, a file can be written twice: a
  disconnect request that overtakes a lost packet leaves the receiver idle in its loop, the
  repeated request opens the connection again with the window moved back, and the repeated
  datagrams are taken for new ones.\<close>

theorem replay_writes_twice:
  "\<exists>y. sys_reach y \<and> y_opened y = 2 \<and> c_file (y_client y) = [1, 2, 3] \<and>
     r_os (y_receiver y) = Some [1, 2, 3, 1, 2, 3]"
proof -
  have "case run replay_run impatient_start of None \<Rightarrow> False
      | Some y \<Rightarrow> y_opened y = 2 \<and> c_file (y_client y) = [1, 2, 3] \<and>
          r_os (y_receiver y) = Some [1, 2, 3, 1, 2, 3]"
    by code_simp
  then obtain y where y: "run replay_run impatient_start = Some y" "y_opened y = 2"
    "c_file (y_client y) = [1, 2, 3]" "r_os (y_receiver y) = Some [1, 2, 3, 1, 2, 3]"
    by (auto split: option.splits)
  then show ?thesis
    using run_reach [OF y(1) reach_start [of sys_start, OF impatient_start]] by blast
qed

subsection \<open>An opening by a later packet\<close>

text \<open>A connect request is lost and given up; the push packet of a \<open>send\<close> reaches the receiver while
  it is idle, and is given up too; a second connect request opens the connection; the network
  repeats the two earlier datagrams, which are acknowledged; and a file is sent.\<close>

definition sent_off :: "action list" where
  "sent_off = [DoApi 1, DoApi 1, DoPop, DoLock, DoBody os_ok 0]"

definition gives_up_on :: "nat \<Rightarrow> action list" where
  "gives_up_on i = [DoTimer 2000000000, DoTimeout [SequenceNumber (of_nat i)], DoPop, DoLock, DoBody os_ok 0, DoApi 1]"

definition answer_to :: "nat \<Rightarrow> nat \<Rightarrow> action list \<Rightarrow> action list" where
  "answer_to i j enter = [DoReceiver os_ok i addr_zero, DoReceive j addr_zero] @ enter @ [DoAcked]"

definition late_opening_run :: "action list" where
  "late_opening_run =
     DoConnect addr_zero # sent_off @ gives_up_on 0 @
     DoSend \<lparr>is_rest = [], is_good = True\<rparr> # sent_off @ DoReceiver os_ok 1 addr_zero # gives_up_on 1 @
     DoConnect addr_zero # sent_off @ answer_to 2 0 [DoEnter] @ answer_to 0 1 [] @ answer_to 1 2 [] @ [DoApi 1,
     DoSend \<lparr>is_rest = [1, 2, 3], is_good = True\<rparr>] @ sent_off @ answer_to 3 3 [DoEnter] @ [DoApi 1, DoApi 1] @
     sent_off @ answer_to 4 4 [] @ [DoApi 1, DoApi 1]"

text \<open>Selective repeat can acknowledge a file it never puts out: the packet buffered before the
  opening stays in front of the buffer, below the window, and nothing slides over it.\<close>

theorem idle_buffer_blocks:
  "\<exists>y. sys_reach y \<and> r_selective_repeat (y_receiver y) \<and> y_opened y = 1 \<and> y_base y = Some 2 \<and>
     s_running (y_sender y) \<and> at_stop (c_api (y_client y)) \<and> c_file (y_client y) = [1, 2, 3] \<and>
     r_os (y_receiver y) = Some []"
proof -
  have "case run late_opening_run impatient_start of None \<Rightarrow> False
      | Some y \<Rightarrow> r_selective_repeat (y_receiver y) \<and> y_opened y = 1 \<and> y_base y = Some 2 \<and>
          s_running (y_sender y) \<and> at_stop (c_api (y_client y)) \<and> c_file (y_client y) = [1, 2, 3] \<and>
          r_os (y_receiver y) = Some []"
    by code_simp
  then show ?thesis
    unfolding case_Some_iff using run_reach [OF _ reach_start [of sys_start, OF impatient_start]] by blast
qed

subsection \<open>The last number\<close>

text \<open>C27: go-back-n does not get past the last sequence number. Once the lower bound of the
  window is 2^32 - 1, no acknowledgement moves it any more, and every packet with a number that
  has wrapped is cleaned up as if it were acknowledged instead of being sent.\<close>

theorem last_number_stalls:
  assumes "\<not> s_selective_repeat s" "lower_bound (s_window s) = SequenceNumber 4294967295"
  shows "s_window (recv_handler_acked p s) = s_window s \<and>
    (sq \<noteq> SequenceNumber 4294967295 \<longrightarrow> send_handler_body a now sq s = send_handler_cleanup sq s)"
proof -
  have last: "sn (SequenceNumber 4294967295) = 4294967295" by (simp add: sn_def)
  have below: "x < SequenceNumber 4294967295" if "x \<noteq> SequenceNumber 4294967295" for x
    using that sn_bound [of x] by (simp add: seq_less_iff seq_eq_iff last del: sn_inject sn_bound)
  have "\<not> lower_bound (s_window s) < seq p"
    using sn_bound [of "seq p"] by (simp add: assms(2) seq_less_iff last del: sn_bound)
  then have "s_window (recv_handler_acked p s) = s_window s"
    using assms(1) by (auto simp: recv_handler_acked_def duplicate_ack_def Let_def)
  moreover have "sq \<noteq> SequenceNumber 4294967295 \<Longrightarrow> send_handler_body a now sq s = send_handler_cleanup sq s"
    using assms below [of sq] by (simp add: send_handler_body_def)
  ultimately show ?thesis by blast
qed

theorem last_number_stalls_witness:
  "s_window (recv_handler_acked (ack_of 0) ((sender_busy False)\<lparr>s_window :=
     \<lparr>lower_bound = SequenceNumber 4294967295, upper_bound = SequenceNumber 2, max_window_size = 5\<rparr>\<rparr>)) =
   \<lparr>lower_bound = SequenceNumber 4294967295, upper_bound = SequenceNumber 2, max_window_size = 5\<rparr>"
  using last_number_stalls [of "(sender_busy False)\<lparr>s_window :=
     \<lparr>lower_bound = SequenceNumber 4294967295, upper_bound = SequenceNumber 2, max_window_size = 5\<rparr>\<rparr>" "ack_of 0"]
  by (simp add: sender_busy_def sender_at_rest_def)

end
