(* ===== verification/Pipe.thy ===== *)
theory Pipe
  imports EndToEnd
begin

text \<open>
  What the system promises its users, as an abstract machine: a pipe of octets. The sender
  puts octets in at one end, the receiver gets them out at the other, each once and in
  order. Every step of the system, of whatever thread, is one step of the pipe, so the
  system refines it.
\<close>

record Pipe =
  pipe_in :: bytes
  pipe_out :: bytes

inductive pipe_step :: "Pipe \<Rightarrow> Pipe \<Rightarrow> bool" where
  pipe_put: "pipe_step pp (pp\<lparr>pipe_in := pipe_in pp @ bs\<rparr>)"
| pipe_get: "bs = take n (drop (length (pipe_out pp)) (pipe_in pp)) \<Longrightarrow>
    pipe_step pp (pp\<lparr>pipe_out := pipe_out pp @ bs\<rparr>)"

inductive_cases pipe_stepE: "pipe_step pp pp'"

definition pipe_empty :: Pipe where
  "pipe_empty = \<lparr>pipe_in = [], pipe_out = []\<rparr>"

text \<open>The pipe of a system: the payloads of the packets made, and the receiver's stream.\<close>

definition pipe_of :: "System \<Rightarrow> Pipe" where
  "pipe_of y =
     \<lparr>pipe_in = concat (map payload (y_hist y)),
      pipe_out = (case r_os (y_receiver y) of None \<Rightarrow> [] | Some w \<Rightarrow> w)\<rparr>"

text \<open>The contract of the pipe: what is out is the beginning of what went in.\<close>

definition pipe_inv :: "Pipe \<Rightarrow> bool" where
  "pipe_inv pp \<longleftrightarrow> (\<exists>rest. pipe_in pp = pipe_out pp @ rest)"

lemma pipe_step_inv: "pipe_step pp pp' \<Longrightarrow> pipe_inv pp \<Longrightarrow> pipe_inv pp'"
proof (induction rule: pipe_step.induct)
  case (pipe_get bs n pp)
  then obtain rest where "pipe_in pp = pipe_out pp @ rest" by (auto simp: pipe_inv_def)
  with pipe_get show ?case
    by (auto simp: pipe_inv_def intro!: exI [of _ "drop n rest"])
qed (auto simp: pipe_inv_def)

interpretation pipe: invariant_system "(=) pipe_empty" pipe_step pipe_inv "\<lambda>pp. True"
  by unfold_locales (auto simp: pipe_empty_def pipe_inv_def pipe_step_inv [unfolded pipe_inv_def])

lemma pipe_getI:
  assumes "pipe_in pp' = pipe_in pp" "pipe_in pp = pipe_out pp' @ rest" "pipe_out pp' = pipe_out pp @ bs"
  shows "pipe_step pp pp'"
proof -
  have "pp' = pp\<lparr>pipe_out := pipe_out pp @ bs\<rparr>"
    using assms by (cases pp; cases pp') simp
  moreover have "bs = take (length bs) (drop (length (pipe_out pp)) (pipe_in pp))"
    using assms by simp
  ultimately show ?thesis using pipe_get by metis
qed

lemma pipe_of_start: "sys_start y \<Longrightarrow> pipe_of y = pipe_empty"
  by (auto simp: sys_start_def pipe_of_def pipe_empty_def recv_start_def receiver_fresh_def)

subsection \<open>The simulation\<close>

lemma pipe_client:
  assumes "client_step l (y_client y) c"
  shows "pipe_step (pipe_of y) (pipe_of (y\<lparr>y_client := c\<rparr>))"
proof -
  obtain new where "c_hist c = y_hist y @ new" using hist_grows [OF assms] by blast
  then have "pipe_of (y\<lparr>y_client := c\<rparr>) =
      (pipe_of y)\<lparr>pipe_in := pipe_in (pipe_of y) @ concat (map payload new)\<rparr>"
    by (simp add: pipe_of_def)
  then show ?thesis using pipe_put by metis
qed

text \<open>A turn of the receiver moves the window forward, or it opens the connection.\<close>

lemma turn_window:
  assumes "session_inv y" "recv_iter a d (y_receiver y) = Inr (ctl, r)"
    and "deliverable (s_channel (y_sender y)) (r_channel (y_receiver y)) d"
    and "opened_at d (y_receiver y) = None"
  shows "sn (r_window_first (y_receiver y)) \<le> sn (r_window_first r)"
  using session_sys_inv [OF assms(1)] assms(2,3)
proof (cases rule: sys_turn_cases)
  case (packet p addr)
  let ?r = "y_receiver y"
  note sys = session_sys_inv [OF assms(1)]
  have ri: "buffer_ok (y_hist y) (r_recv_buffer ?r)" "sn (r_window_first ?r) \<le> length (y_hist y)"
    "fits (r_channel ?r)"
    using sys by (simp_all add: sys_inv_def receiver_inv_def)
  have "\<not> opens p ?r" using assms(4) packet(1) by (simp add: opened_at_def split: if_splits)
  with recv_packet_turn(2) [OF sys_inv_hist [OF sys] ri(1,2) packet(2) ri(3) packet(3)]
  show ?thesis by (simp add: advances_def seq_le_iff)
qed auto

lemma payloads_split:
  "i \<le> j \<Longrightarrow> concat (map payload (take j hist)) =
     concat (map payload (take i hist)) @ concat (map payload (take (j - i) (drop i hist)))"
  by (metis concat_append le_add_diff_inverse map_append take_add)

lemma pipe_receiver:
  assumes inv: "session_inv y" "session_inv y'" and y': "y_client y' = y_client y"
    and window: "sn (r_window_first (y_receiver y)) \<le> sn (r_window_first (y_receiver y')) \<or> no_payload (y_hist y)"
  shows "pipe_step (pipe_of y) (pipe_of y')"
proof -
  let ?n = "\<lambda>y. sn (r_window_first (y_receiver y))" and ?h = "y_hist y"
  have out: "pipe_out (pipe_of y) = concat (map payload (take (?n y) ?h))"
    "pipe_out (pipe_of y') = concat (map payload (take (?n y') ?h))"
    using session_stream [OF inv(1)] session_stream [OF inv(2)] y' by (simp_all add: pipe_of_def)
  have "concat (map payload ?h) =
      concat (map payload (take (?n y') ?h)) @ concat (map payload (drop (?n y') ?h))"
    by (metis append_take_drop_id concat_append map_append)
  then have rest: "pipe_in (pipe_of y) = pipe_out (pipe_of y') @ concat (map payload (drop (?n y') ?h))"
    unfolding out(2) by (simp add: pipe_of_def)
  have "\<exists>bs. pipe_out (pipe_of y') = pipe_out (pipe_of y) @ bs"
    using window
  proof
    assume "no_payload ?h"
    then have none: "concat (map payload (take n ?h)) = []" for n
      by (auto simp: no_payload_def dest: in_set_takeD)
    show ?thesis unfolding out none by simp
  qed (auto simp: out dest: payloads_split)
  then obtain bs where bs: "pipe_out (pipe_of y') = pipe_out (pipe_of y) @ bs" by blast
  show ?thesis
    by (rule pipe_getI [OF _ rest bs]) (simp add: pipe_of_def y')
qed

lemma pipe_simulation:
  assumes "sys_step y y'" "session_inv y" "session_bound y'"
  shows "pipe_step (pipe_of y) (pipe_of y')"
  using assms(1)
proof (cases rule: sys_step.cases)
  case (sys_client l c)
  then show ?thesis by (simp add: pipe_client)
next
  case (sys_receiver d a ctl r)
  have "no_payload (y_hist y)" if "opened_at d (y_receiver y) \<noteq> None"
  proof -
    have "y_opened y' = y_opened y + 1" using that by (simp add: sys_receiver(1))
    then have "y_opened y = 0" using assms(3) by (simp add: session_bound_def)
    then show ?thesis using assms(2) by (simp add: session_inv_def untouched_def unanswered_def)
  qed
  then show ?thesis
    using turn_window [OF assms(2) sys_receiver(5,4)]
    by (intro pipe_receiver [OF assms(2) session_step_inv [OF assms]]) (auto simp: sys_receiver(1))
qed

lemma pipe_reach:
  assumes "sys_reach y" "session_bound y"
  shows "reach ((=) pipe_empty) pipe_step (pipe_of y)"
  using assms
proof (induction rule: reach.induct)
  case (reach_start y)
  then show ?case by (simp add: pipe_of_start reach.reach_start)
next
  case (reach_step y y')
  have b: "session_bound y" by (rule session_bound_back [OF reach_step(2,4)])
  with reach_step have "reach ((=) pipe_empty) pipe_step (pipe_of y)" by blast
  moreover have "pipe_step (pipe_of y) (pipe_of y')"
    by (rule pipe_simulation [OF reach_step(2) session.reach_inv [OF reach_step(1) b] reach_step(4)])
  ultimately show ?case by (rule reach.reach_step)
qed

end
