(* ===== verification/Programs.thy ===== *)
theory Programs
  imports App Limits Pipe "HOL-Library.Sublist"
begin

text \<open>
  The two programs of app/file_transfer on top of the library, joined by the network: the
  main loop of the sender reads commands and calls the library, the main loop of the
  receiver takes what the coroutine yields and writes files. What comes from outside (the
  words of both standard inputs, the contents of the files that are read, whether a file can
  be opened for writing) is in the state or a choice of the step. Ghosts: the contents of the
  files whose \<open>send\<close> has returned without an error, and of the file being sent.
\<close>

record Programs =
  g_sys :: System
  g_words :: "string list"
  g_left :: bool
  g_sent :: "bytes list"
  g_current :: bytes
  g_names :: "string list"
  g_pos :: nat
  g_written :: "(string \<times> bytes) list"

abbreviation g_client :: "Programs \<Rightarrow> Client" where
  "g_client g \<equiv> y_client (g_sys g)"

abbreviation g_receiver :: "Programs \<Rightarrow> Receiver" where
  "g_receiver g \<equiv> y_receiver (g_sys g)"

subsection \<open>The main loop of the sender\<close>

text \<open>What a command does. The results of the calls are ignored; \<open>is\<close> is the file stream that
  was opened under the name.\<close>

fun run_command :: "SocketAddr \<Rightarrow> istream \<Rightarrow> command \<Rightarrow> Client \<Rightarrow> Client" where
  "run_command addr is CmdConnect c = start_call (connect_call addr (c_sender c)) c"
| "run_command addr is CmdDisconnect c = start_call (disconnect_call (c_sender c)) c"
| "run_command addr is (CmdSend file) c = start_call (send_call is (c_sender c)) c"
| "run_command addr is CmdExit c = c\<lparr>c_sender := snd (sender_stop (c_sender c))\<rparr>"
| "run_command addr is CmdNone c = c"

definition file_given :: "istream \<Rightarrow> command \<Rightarrow> bytes \<Rightarrow> bytes" where
  "file_given is cmd cur = (case cmd of CmdSend file \<Rightarrow> stream_bytes is | _ \<Rightarrow> cur)"

text \<open>One turn of the loop, when no call is under way.\<close>

definition sender_input :: "SocketAddr \<Rightarrow> istream \<Rightarrow> Programs \<Rightarrow> Programs option" where
  "sender_input addr is g =
     (if g_left g \<or> \<not> api_free (c_api (g_client g)) then None
      else
        let (cmd, ws) = next_command (g_words g)
        in Some (g\<lparr>g_sys := (g_sys g)\<lparr>y_client := run_command addr is cmd (g_client g)\<rparr>,
                   g_words := ws, g_left := (cmd = CmdExit),
                   g_current := file_given is cmd (g_current g)\<rparr>))"

text \<open>The file of a \<open>send\<close> that returns from its last wait.\<close>

fun finished :: "ApiPc \<Rightarrow> ApiPc \<Rightarrow> bytes \<Rightarrow> bytes list" where
  "finished (StopWait n) (Returned e) cur = [cur]"
| "finished pc pc' cur = []"

definition sender_thread :: "Client \<Rightarrow> Programs \<Rightarrow> Programs" where
  "sender_thread c g =
     g\<lparr>g_sys := (g_sys g)\<lparr>y_client := c\<rparr>,
       g_sent := g_sent g @ finished (c_api (g_client g)) (c_api c) (g_current g)\<rparr>"

subsection \<open>The main loop of the receiver\<close>

text \<open>A turn of the coroutine; when it yields true, a name is read and what the string stream
  holds beyond its read position goes into the file. A file that cannot be opened takes
  nothing; the empty name cannot be opened. \<open>g_written\<close> lists the writes in their order: of two under
  one name the later replaces the earlier in the file system; a write to an opened file succeeds.\<close>

definition receiver_output :: "bool \<Rightarrow> recv_ctl \<Rightarrow> Programs \<Rightarrow> Programs" where
  "receiver_output can_open ctl g =
     (if ctl \<noteq> YieldTrue then g
      else
        let (name, names) = next_name (g_names g);
            (file, pos) = write_file (pipe_out (pipe_of (g_sys g))) (g_pos g)
        in if can_open \<and> name \<noteq> []
           then g\<lparr>g_names := names, g_pos := pos, g_written := g_written g @ [(name, file)]\<rparr>
           else g\<lparr>g_names := names\<rparr>)"

definition after_turn :: "recvfrom_answer \<Rightarrow> recv_ctl \<Rightarrow> Receiver \<Rightarrow> System \<Rightarrow> System" where
  "after_turn d ctl r y =
     y\<lparr>y_receiver := r, y_done := (ctl = LeaveLoop),
       y_opened := y_opened y + (if opened_at d (y_receiver y) = None then 0 else 1),
       y_base := (if opened_at d (y_receiver y) = None then y_base y else opened_at d (y_receiver y))\<rparr>"

inductive prog_step :: "SocketAddr \<Rightarrow> Programs \<Rightarrow> Programs \<Rightarrow> bool" for addr where
  prog_input: "sender_input addr is g = Some g' \<Longrightarrow> prog_step addr g g'"
| prog_thread: "client_step l (g_client g) c \<Longrightarrow> l \<noteq> Calls \<Longrightarrow> l \<noteq> Stops \<Longrightarrow>
    \<forall>d. l = Hears d \<longrightarrow>
      deliverable (r_channel (g_receiver g)) (s_channel (y_sender (g_sys g))) d \<Longrightarrow>
    prog_step addr g (sender_thread c g)"
| prog_turn: "\<not> y_done (g_sys g) \<Longrightarrow> r_running (g_receiver g) \<Longrightarrow>
    deliverable (s_channel (y_sender (g_sys g))) (r_channel (g_receiver g)) d \<Longrightarrow>
    recv_iter a d (g_receiver g) = Inr (ctl, r) \<Longrightarrow>
    prog_step addr g (receiver_output can_open ctl (g\<lparr>g_sys := after_turn d ctl r (g_sys g)\<rparr>))"

definition prog_start :: "Programs \<Rightarrow> bool" where
  "prog_start g \<longleftrightarrow>
     sys_start (g_sys g) \<and> \<not> g_left g \<and> g_sent g = [] \<and> g_current g = [] \<and> g_pos g = 0 \<and> g_written g = []"

text \<open>What the two programs set up is such a start when they are started in the same mode.\<close>

definition programs_set_up ::
  "SenderConfig \<Rightarrow> os_answer \<times> os_answer \<times> os_answer \<Rightarrow> Sender \<Rightarrow>
   ReceiverConfig \<Rightarrow> os_answer \<times> os_answer \<times> os_answer \<Rightarrow> Receiver \<Rightarrow>
   string list \<Rightarrow> string list \<Rightarrow> Programs" where
  "programs_set_up cfg as gs rcfg rs gr words names =
     (case (as, rs) of ((sk, bd, so), (sk', bd', so')) \<Rightarrow>
       \<lparr>g_sys = \<lparr>y_client = \<lparr>c_sender = sender_setup cfg sk bd so gs, c_api = Ready, c_popped = None,
                             c_locked = False, c_got = None, c_enter = None, c_hist = [], c_file = []\<rparr>,
                y_receiver = recv_start (receiver_setup rcfg sk' bd' so' gr), y_done = False,
                y_opened = 0, y_base = None\<rparr>,
        g_words = words, g_left = False, g_sent = [], g_current = [],
        g_names = names, g_pos = 0, g_written = []\<rparr>)"

lemma socket_init_frame:
  "max_buf_size (snd (socket_init sk bd so port s)) = max_buf_size s"
  "outbox (snd (socket_init sk bd so port s)) = outbox s"
  by (simp_all add: socket_init_def set_recv_timeout_def Let_def)

lemma programs_start:
  assumes "cfg_selective_repeat cfg = rcfg_selective_repeat rcfg"
  shows "prog_start (programs_set_up cfg as gs rcfg rs gr words names)"
proof -
  obtain sk bd so sk' bd' so' where as: "as = (sk, bd, so)" "rs = (sk', bd', so')" by (metis surj_pair)
  let ?ch = "snd (socket_init sk bd so (word_of_int (cfg_port cfg)) (socket_new (of_nat (NKURDT_MAX_PACKET_SIZE * 2))))"
  let ?s = "set_max_retry_count (cfg_max_retry_count cfg) (set_sender_window_size (cfg_max_window_size cfg)
    (set_timeout (sint (cfg_timeout cfg)) (set_fast_retransmit (cfg_fast_retransmit cfg)
      (set_selective_repeat (cfg_selective_repeat cfg) (sender_new ?ch gs)))))"
  have "sender_setup cfg sk bd so gs = snd (sender_init ?s)" by (simp add: sender_setup_def Let_def)
  moreover have "sender_fresh ?s"
    by (simp add: sender_fresh_def set_max_retry_count_def set_sender_window_size_def set_timeout_def
        set_fast_retransmit_def set_selective_repeat_def sender_new_def queue_new_def
        socket_init_frame socket_new_def)
  moreover have "receiver_fresh (receiver_setup rcfg sk' bd' so' gr)"
    by (simp add: receiver_fresh_def receiver_setup_def receiver_set_max_window_size_def
        receiver_set_selective_repeat_def receiver_new_def Let_def socket_init_frame socket_new_def)
  moreover have "s_selective_repeat ?s = r_selective_repeat (receiver_setup rcfg sk' bd' so' gr)"
    "max_buf_size (s_channel ?s) = max_buf_size (r_channel (receiver_setup rcfg sk' bd' so' gr))"
    using assms
    by (simp_all add: set_max_retry_count_def set_sender_window_size_def set_timeout_def
        set_fast_retransmit_def set_selective_repeat_def sender_new_def receiver_setup_def
        receiver_set_max_window_size_def receiver_set_selective_repeat_def receiver_new_def Let_def
        socket_init_frame)
  ultimately have "sys_start (g_sys (programs_set_up cfg as gs rcfg rs gr words names))"
    unfolding sys_start_def as programs_set_up_def prod.case Programs.simps by blast
  then show ?thesis by (simp add: prog_start_def as programs_set_up_def)
qed

subsection \<open>Runs of the programs are runs of the system\<close>

lemma run_command_step:
  assumes "api_free (c_api c)"
  shows "run_command addr is cmd c = c \<or>
    (\<exists>l. client_step l c (run_command addr is cmd c) \<and> (\<forall>d. l \<noteq> Hears d))"
proof -
  have call: "\<exists>l. client_step l c (start_call out c) \<and> (\<forall>d. l \<noteq> Hears d)"
    if "api_call (c_sender c) out" for out
    using client_start_call [OF assms that] by (intro exI [of _ Calls]) simp
  have stop: "\<exists>l. client_step l c (c\<lparr>c_sender := snd (sender_stop (c_sender c))\<rparr>) \<and> (\<forall>d. l \<noteq> Hears d)"
    using client_stop [OF assms] by (intro exI [of _ Stops]) simp
  show ?thesis
    by (cases cmd) (simp_all add: call stop api_call_def, (intro disjI2 call, simp add: api_call_def, blast)+)
qed

lemma receiver_output_sys [simp]: "g_sys (receiver_output can_open ctl g) = g_sys g"
  by (simp add: receiver_output_def split: prod.splits)

lemma prog_sys: "prog_step addr g g' \<Longrightarrow> g_sys g' = g_sys g \<or> sys_step (g_sys g) (g_sys g')"
proof (induction rule: prog_step.induct)
  case (prog_input "is" g g')
  obtain cmd ws where cmd: "next_command (g_words g) = (cmd, ws)" by (metis surj_pair)
  with prog_input have free: "api_free (c_api (g_client g))"
    and g': "g_sys g' = (g_sys g)\<lparr>y_client := run_command addr is cmd (g_client g)\<rparr>"
    by (auto simp: sender_input_def split: if_splits)
  from run_command_step [OF free, of addr "is" cmd] show ?case
  proof
    assume "\<exists>l. client_step l (g_client g) (run_command addr is cmd (g_client g)) \<and> (\<forall>d. l \<noteq> Hears d)"
    then show ?case unfolding g' by (metis sys_client)
  qed (simp add: g')
next
  case (prog_thread l g c)
  then show ?case by (auto simp: sender_thread_def intro: sys_client)
next
  case (prog_turn g d a ctl r can_open)
  then show ?case using sys_receiver by (auto simp: after_turn_def)
qed

abbreviation prog_reach :: "SocketAddr \<Rightarrow> Programs \<Rightarrow> bool" where
  "prog_reach addr \<equiv> reach prog_start (prog_step addr)"

interpretation programs: simulation prog_start "prog_step addr" sys_start sys_step g_sys
  by unfold_locales (auto simp: prog_start_def dest: prog_sys)

lemmas prog_sys_reach = programs.sim_reach

subsection \<open>The files that are sent\<close>

text \<open>Between two calls the payloads are the files sent so far, inside a call also the file at
  hand; before its first packet nothing of it has been read.\<close>

fun unsent :: "ApiPc \<Rightarrow> bytes \<Rightarrow> bool" where
  "unsent (PushSend sp is) cur = (stream_bytes is = cur)"
| "unsent (PushWait is) cur = (stream_bytes is = cur)"
| "unsent pc cur = True"

definition given :: "ApiPc \<Rightarrow> bytes \<Rightarrow> bytes" where
  "given pc cur = (if in_send pc then cur else [])"

definition sent_inv :: "Programs \<Rightarrow> bool" where
  "sent_inv g \<longleftrightarrow>
     api_plain (c_api (g_client g)) \<and> unsent (c_api (g_client g)) (g_current g) \<and>
     (s_running (c_sender (g_client g)) \<longrightarrow>
        concat (map payload (c_hist (g_client g))) @ held (c_api (g_client g)) @ unread (c_api (g_client g)) =
          concat (g_sent g) @ given (c_api (g_client g)) (g_current g))"

lemma outside_send: "\<not> in_send pc \<Longrightarrow> held pc = [] \<and> unread pc = []"
  by (cases pc) auto

lemma free_outside: "api_free pc \<Longrightarrow> \<not> in_send pc"
  by (cases pc) auto

lemma api_step_unsent: "api_step duration pc s = Inr (pc', s') \<Longrightarrow> unsent pc cur \<Longrightarrow> unsent pc' cur"
  by (cases pc)
    (auto simp: connect_wait_def disconnect_wait_def split: if_splits option.splits prod.splits)

text \<open>A step that ends outside \<open>send\<close> makes no payload; one that leaves \<open>send\<close> gives the
  request up, or is the end of the transfer.\<close>

lemma api_step_outside:
  assumes "api_step duration pc s = Inr (pc', s')" "\<not> in_send pc'" "api_plain pc" "s_running s" "unsent pc cur"
  shows "concat (map payload (new_packets pc pc')) = []"
    "concat (finished pc pc' cur) @ held pc @ unread pc = given pc cur"
proof -
  have "payload p = []" if "reserved_of pc' = Some p" for p
  proof (rule ccontr)
    assume "payload p \<noteq> []"
    with api_plain_reserved [OF api_step_plain [OF assms(1,3)] that] assms(2) show False by auto
  qed
  then show "concat (map payload (new_packets pc pc')) = []"
    by (auto simp: new_packets_def split: option.splits)
  show "concat (finished pc pc' cur) @ held pc @ unread pc = given pc cur"
    using assms
    by (cases pc)
      (auto simp: given_def connect_wait_def disconnect_wait_def split: if_splits option.splits prod.splits)
qed

lemma finished_in_send [simp]: "in_send pc' \<Longrightarrow> finished pc pc' cur = []"
  by (cases pc'; cases pc) auto

lemma finished_same [simp]: "finished pc pc cur = []"
  by (cases pc) auto

lemma sent_inv_thread:
  assumes "client_step l (g_client g) c" "l \<noteq> Calls" "l \<noteq> Stops" "sent_inv g"
  shows "sent_inv (sender_thread c g)"
  using assms(1)
proof (cases rule: client_step.cases)
  case (client_api duration pc s)
  let ?pc = "c_api (g_client g)"
  have run: "s_running s \<Longrightarrow> s_running (c_sender (g_client g))"
    using client_step_running [OF assms(1)] by (simp add: client_api(2))
  have old: "api_plain ?pc" "unsent ?pc (g_current g)" using assms(4) by (simp_all add: sent_inv_def)
  have new: "api_plain pc" "unsent pc (g_current g)"
    using api_step_plain [OF client_api(3) old(1)] api_step_unsent [OF client_api(3) old(2)] by simp_all
  show ?thesis
  proof (cases "in_send pc")
    case True
    with api_step_file [OF client_api(3) True old(1)] run new assms(4) show ?thesis
      by (auto simp: sent_inv_def sender_thread_def client_api(2) given_def)
  next
    case False
    note leave = api_step_outside [OF client_api(3) False old(1) _ old(2)]
    have "concat (map payload (c_hist (g_client g))) =
        concat (g_sent g) @ concat (finished ?pc pc (g_current g))" if "s_running s"
    proof -
      let ?x = "held ?pc @ unread ?pc"
      have "concat (map payload (c_hist (g_client g))) @ ?x =
          concat (g_sent g) @ concat (finished ?pc pc (g_current g)) @ ?x"
        using leave(2) [OF run [OF that]] assms(4) run [OF that] by (simp add: sent_inv_def)
      then show ?thesis by (simp flip: append_assoc)
    qed
    with leave(1) run new False outside_send [OF False] show ?thesis
      by (auto simp: sent_inv_def sender_thread_def client_api(2) given_def)
  qed
qed (use assms client_step_running [OF assms(1)] in \<open>simp_all add: sent_inv_def sender_thread_def\<close>)

lemma sent_inv_input:
  assumes "sender_input addr is g = Some g'" "sent_inv g"
  shows "sent_inv g'"
proof -
  obtain cmd ws where cmd: "next_command (g_words g) = (cmd, ws)" by (metis surj_pair)
  with assms(1) have free: "api_free (c_api (g_client g))"
    and g': "g' = g\<lparr>g_sys := (g_sys g)\<lparr>y_client := run_command addr is cmd (g_client g)\<rparr>,
      g_words := ws, g_left := (cmd = CmdExit), g_current := file_given is cmd (g_current g)\<rparr>"
    by (auto simp: sender_input_def split: if_splits)
  note out = free_outside [OF free] outside_send [OF free_outside [OF free]]
  show ?thesis
    using assms(2) out
    by (cases cmd)
      (auto simp: g' sent_inv_def start_call_def given_def file_given_def connect_call_def
        disconnect_call_def send_call_def sender_stop_def)
qed

lemma sent_inv_turn: "sent_inv g \<Longrightarrow> sent_inv (receiver_output can_open ctl (g\<lparr>g_sys := after_turn d ctl r (g_sys g)\<rparr>))"
  by (simp add: sent_inv_def receiver_output_def after_turn_def split: prod.splits)

lemma sent_inv_step: "prog_step addr g g' \<Longrightarrow> sent_inv g \<Longrightarrow> sent_inv g'"
  by (induction rule: prog_step.induct) (auto intro: sent_inv_input sent_inv_thread sent_inv_turn)

lemma sent_inv_start: "prog_start g \<Longrightarrow> sent_inv g"
  by (auto simp: prog_start_def sys_start_def sent_inv_def given_def)

interpretation sent: invariant_system prog_start "prog_step addr" sent_inv "\<lambda>g. True"
  by unfold_locales (blast intro: sent_inv_start sent_inv_step)+

subsection \<open>The files that are written\<close>

text \<open>The stream only grows, and what is in the files is the stream up to the read position.\<close>

lemma slide_buffer_grows:
  "slide_buffer buf first second os = (buf', first', second', os') \<Longrightarrow>
     \<exists>zs. os' = os_write zs os"
proof (induction buf arbitrary: first second os)
  case Nil
  then have "os' = os_write [] os" by (simp add: os_write_def split: option.splits)
  then show ?case ..
next
  case (Cons p buf)
  have "os_write zs (os_write (payload p) os) = os_write (payload p @ zs) os" for zs
    by (simp add: os_write_def split: option.splits)
  moreover have "os = os_write [] os" by (simp add: os_write_def split: option.splits)
  ultimately show ?case
    using Cons.prems Cons.IH [of "update_seq first" "update_seq second" "os_write (payload p) os"]
    by (auto split: if_splits)
qed

lemma recv_iter_grows:
  assumes "recv_iter a d r = Inr (ctl, r')"
  shows "\<exists>zs. r_os r' = os_write zs (r_os r)"
proof -
  have same: "\<exists>zs. os = os_write zs os" for os
    by (rule exI [of _ "[]"]) (simp add: os_write_def split: option.splits)
  from assms show ?thesis
  proof (cases rule: recv_iter_cases)
    case quiet
    then show ?thesis using same by auto
  next
    case (packet p bs addr)
    from packet(4) show ?thesis
    proof (cases rule: recv_packet_cases)
      case (accepted k)
      then show ?thesis
        by (auto simp: accept_packet_def Let_def frame_simps recv_deliver_def split: prod.splits
            dest: slide_buffer_grows)
    qed (use same in \<open>auto simp: drop_packet_frame\<close>)
  qed
qed

definition stream_out :: "Programs \<Rightarrow> bytes" where
  "stream_out g = pipe_out (pipe_of (g_sys g))"

definition written_inv :: "Programs \<Rightarrow> bool" where
  "written_inv g \<longleftrightarrow>
     concat (map snd (g_written g)) = take (g_pos g) (stream_out g) \<and> g_pos g \<le> length (stream_out g)"

lemma written_inv_output: "written_inv g \<Longrightarrow> written_inv (receiver_output can_open ctl g)"
  by (auto simp: written_inv_def receiver_output_def stream_out_def write_file_def split: prod.splits)

lemma written_inv_step: "prog_step addr g g' \<Longrightarrow> written_inv g \<Longrightarrow> written_inv g'"
proof (induction rule: prog_step.induct)
  case (prog_input "is" g g')
  then show ?case
    by (auto simp: sender_input_def written_inv_def stream_out_def pipe_of_def split: if_splits prod.splits)
next
  case (prog_thread l g c)
  then show ?case by (simp add: sender_thread_def written_inv_def stream_out_def pipe_of_def)
next
  case (prog_turn g d a ctl r can_open)
  obtain zs where "r_os r = os_write zs (r_os (g_receiver g))"
    using recv_iter_grows [OF prog_turn(4)] by blast
  then have "\<exists>zs. stream_out (g\<lparr>g_sys := after_turn d ctl r (g_sys g)\<rparr>) = stream_out g @ zs"
    by (auto simp: stream_out_def pipe_of_def after_turn_def os_write_def split: option.splits)
  with prog_turn(5) show ?case by (intro written_inv_output) (auto simp: written_inv_def)
qed

lemma written_inv_start: "prog_start g \<Longrightarrow> written_inv g"
  by (simp add: prog_start_def written_inv_def)

interpretation written: invariant_system prog_start "prog_step addr" written_inv "\<lambda>g. True"
  by unfold_locales (blast intro: written_inv_start written_inv_step)+

subsection \<open>From files to files\<close>

lemma stream_of_payloads:
  assumes "sys_reach y" "length (y_hist y) < 4294967296" "y_opened y \<le> 1"
  shows "prefix (pipe_out (pipe_of y)) (concat (map payload (y_hist y)))"
proof -
  have b: "session_bound y" using assms(2,3) by (simp add: session_bound_def sys_bound_def)
  have "pipe_inv (pipe_of y)" by (rule pipe.reach_inv [OF pipe_reach [OF assms(1) b]]) simp
  then show ?thesis by (auto simp: pipe_inv_def pipe_of_def prefix_def)
qed

end
