(* ===== verification/ProgramRuns.thy ===== *)
theory ProgramRuns
  imports Programs
begin

text \<open>
  Executable runs of the two programs, as Schedule has them for the system: the witnesses of
  the theorems on programs, and a run in which two files end up in one.
\<close>

datatype prog_action =
    Command istream
  | Thread action
  | Receive nat SocketAddr
  | Turn bool os_answer nat SocketAddr

definition exec_turn :: "bool \<Rightarrow> os_answer \<Rightarrow> recvfrom_answer \<Rightarrow> Programs \<Rightarrow> Programs option" where
  "exec_turn can_open a d g =
     (if y_done (g_sys g) \<or> \<not> r_running (g_receiver g) then None
      else
        case recv_iter a d (g_receiver g) of
          Inl e \<Rightarrow> None
        | Inr (ctl, r) \<Rightarrow>
            Some (receiver_output can_open ctl (g\<lparr>g_sys := after_turn d ctl r (g_sys g)\<rparr>)))"

fun exec_prog :: "SocketAddr \<Rightarrow> prog_action \<Rightarrow> Programs \<Rightarrow> Programs option" where
  "exec_prog addr (Command is) g = sender_input addr is g"
| "exec_prog addr (Thread act) g =
     (if label_of act = Calls then None
      else map_option (\<lambda>c. sender_thread c g) (exec_client act (g_client g)))"
| "exec_prog addr (Receive i src) g =
     Option.bind (datagram i (r_channel (g_receiver g))) (\<lambda>d.
       map_option (\<lambda>c. sender_thread c g) (exec_receive (RecvDatagram d src) (g_client g)))"
| "exec_prog addr (Turn can_open a i src) g =
     Option.bind (datagram i (s_channel (y_sender (g_sys g)))) (\<lambda>d.
       exec_turn can_open a (RecvDatagram d src) g)"

fun run_prog :: "SocketAddr \<Rightarrow> prog_action list \<Rightarrow> Programs \<Rightarrow> Programs option" where
  "run_prog addr [] g = Some g"
| "run_prog addr (act # acts) g = Option.bind (exec_prog addr act g) (run_prog addr acts)"

lemma datagram_deliverable:
  "datagram i ch = Some d \<Longrightarrow> deliverable ch dst (RecvDatagram d src)"
  by (auto simp: deliverable_def datagram_def split: if_splits)

lemma exec_receive_step:
  "exec_receive d c = Some c' \<Longrightarrow> client_step (Hears d) c c'"
  by (auto simp: exec_receive_def split: if_splits sum.splits intro: client_receive)

lemma label_of_works: "label_of act = Calls \<or> label_of act = Works"
  by (cases act) simp_all

lemma exec_prog_step: "exec_prog addr act g = Some g' \<Longrightarrow> prog_step addr g g'"
proof (induction addr act g rule: exec_prog.induct)
  case (1 addr "is" g)
  then show ?case by (auto intro: prog_input)
next
  case (2 addr act g)
  then obtain c where c: "exec_client act (g_client g) = Some c" and g': "g' = sender_thread c g"
    and "label_of act \<noteq> Calls" by (auto split: if_splits)
  then have "label_of act = Works" using label_of_works by blast
  with exec_client_step [OF c] show ?case unfolding g' by (intro prog_thread) auto
next
  case (3 addr i src g)
  then show ?case
    by (auto split: bind_splits dest!: exec_receive_step
        intro!: prog_thread intro: datagram_deliverable)
next
  case (4 addr can_open a i src g)
  then show ?case
    by (auto simp: exec_turn_def split: bind_splits if_splits sum.splits
        intro!: prog_turn intro: datagram_deliverable)
qed

lemma run_prog_reach: "run_prog addr acts g = Some g' \<Longrightarrow> prog_reach addr g \<Longrightarrow> prog_reach addr g'"
proof (induction acts arbitrary: g)
  case (Cons act acts)
  then obtain g1 where g1: "exec_prog addr act g = Some g1" "run_prog addr acts g1 = Some g'"
    by (auto split: bind_splits)
  have "prog_reach addr g1" using Cons.prems(2) exec_prog_step [OF g1(1)] by (rule reach_step)
  with Cons.IH g1(2) show ?case by blast
qed simp

lemma run_prog_steps: "run_prog addr acts g = Some g' \<Longrightarrow> (prog_step addr)\<^sup>*\<^sup>* g g'"
proof (induction acts arbitrary: g)
  case (Cons act acts)
  then obtain g1 where "exec_prog addr act g = Some g1" "run_prog addr acts g1 = Some g'"
    by (auto split: bind_splits)
  with Cons.IH show ?case by (blast intro: exec_prog_step converse_rtranclp_into_rtranclp)
qed simp

subsection \<open>A transfer\<close>

text \<open>A sender that gives a packet up at its first timeout; the names typed at both ends.\<close>

definition programs_at_start :: Programs where
  "programs_at_start =
     \<lparr>g_sys = impatient_start,
      g_words = [''connect'', ''send'', ''a'', ''send'', ''b''], g_left = False,
      g_sent = [], g_current = [], g_names = [''x'', ''y''], g_pos = 0, g_written = []\<rparr>"

lemma programs_at_start: "prog_reach addr programs_at_start"
  by (rule reach_start) (simp add: prog_start_def programs_at_start_def impatient_start)

definition post :: "prog_action list" where
  "post = map Thread [DoApi 1, DoApi 1, DoPop, DoLock, DoBody os_ok 0]"

text \<open>Datagram i goes to the receiver, and answer j back.\<close>

definition answered :: "action list \<Rightarrow> nat \<Rightarrow> nat \<Rightarrow> prog_action list" where
  "answered enter i j =
     post @ [Turn True os_ok i addr_zero, Receive j addr_zero] @ map Thread (enter @ [DoAcked, DoApi 1])"

definition file_stream :: "bytes \<Rightarrow> istream" where
  "file_stream bs = \<lparr>is_rest = bs, is_good = True\<rparr>"

definition first_file_run :: "prog_action list" where
  "first_file_run =
     Command (file_stream []) # answered [DoEnter] 0 0 @
     Command (file_stream [1, 2, 3]) # answered [DoEnter] 1 1 @
     Thread (DoApi 1) # answered [] 2 2 @ [Thread (DoApi 1)]"

definition first_file :: Programs where
  "first_file = the (run_prog addr_zero first_file_run programs_at_start)"

definition first_file_summary :: "Programs \<Rightarrow> bool" where
  "first_file_summary g \<longleftrightarrow>
     at_stop (c_api (g_client g)) \<and> s_running (c_sender (g_client g)) \<and> y_opened (g_sys g) = 1 \<and>
     y_base (g_sys g) = Some 0 \<and> g_current g = [1, 2, 3] \<and> g_sent g = [] \<and>
     map kind (c_hist (g_client g)) = [ConnReq, DataPush, Data]"

lemma first_file_evaluates:
  "case run_prog addr_zero first_file_run programs_at_start of None \<Rightarrow> False | Some g \<Rightarrow> first_file_summary g"
  by code_simp

lemma first_file: "first_file_summary first_file"
  using first_file_evaluates by (simp add: first_file_def split: option.splits)

lemma reach_first_file: "prog_reach addr_zero first_file"
proof -
  have "run_prog addr_zero first_file_run programs_at_start = Some first_file"
    using first_file_evaluates by (simp add: first_file_def split: option.splits)
  then show ?thesis by (rule run_prog_reach [OF _ programs_at_start])
qed

text \<open>The receiver takes the stop packet, yields, and the file is written.\<close>

definition written_run :: "prog_action list" where
  "written_run = first_file_run @ answered [DoEnter] 3 3"

definition file_written :: Programs where
  "file_written = the (run_prog addr_zero written_run programs_at_start)"

definition written_summary :: "Programs \<Rightarrow> bool" where
  "written_summary g \<longleftrightarrow>
     s_running (c_sender (g_client g)) \<and> y_opened (g_sys g) = 1 \<and> g_current g = [1, 2, 3] \<and>
     g_sent g = [[1, 2, 3]] \<and> g_written g = [(''x'', [1, 2, 3])] \<and>
     map kind (c_hist (g_client g)) = [ConnReq, DataPush, Data, DataStop]"

lemma written_evaluates:
  "case run_prog addr_zero written_run programs_at_start of None \<Rightarrow> False | Some g \<Rightarrow> written_summary g"
  by code_simp

lemma file_written: "written_summary file_written"
  using written_evaluates by (simp add: file_written_def split: option.splits)

lemma reach_file_written: "prog_reach addr_zero file_written"
proof -
  have "run_prog addr_zero written_run programs_at_start = Some file_written"
    using written_evaluates by (simp add: file_written_def split: option.splits)
  then show ?thesis by (rule run_prog_reach [OF _ programs_at_start])
qed

text \<open>C1: from files to files. Take any run of the two programs in which fewer than 2^32 packets
  are made and the receiver opens a connection at most once (a connect request that the network
  repeats can open a second one, and a file is then written twice, see
  \<open>replay_writes_twice\<close>). At any moment of it, while the sender runs, whatever the network loses,
  delays, reorders, repeats or damages and whatever is typed, the contents the receiver has
  written to files, one write after the other, are a prefix of the contents of the files the
  sender has sent or is sending: no octet is lost in between, repeated, swapped or made up.\<close>

theorem files_never_corrupted:
  assumes "prog_reach addr g" "length (c_hist (g_client g)) < 4294967296" "y_opened (g_sys g) \<le> 1"
    and "s_running (c_sender (g_client g))"
  shows "prefix (concat (map snd (g_written g))) (concat (g_sent g) @ g_current g)"
proof -
  let ?T = "concat (map payload (c_hist (g_client g)))"
  have sent: "sent_inv g" by (rule sent.reach_inv [OF assms(1)]) simp
  have "written_inv g" by (rule written.reach_inv [OF assms(1)]) simp
  then have "prefix (concat (map snd (g_written g))) (stream_out g)"
    by (simp add: written_inv_def take_is_prefix)
  moreover have "prefix (stream_out g) ?T"
    unfolding stream_out_def by (rule stream_of_payloads [OF prog_sys_reach [OF assms(1)] assms(2,3)])
  moreover have "prefix ?T (concat (g_sent g) @ given (c_api (g_client g)) (g_current g))"
    using sent assms(4) by (metis prefixI sent_inv_def)
  moreover have "prefix (concat (g_sent g) @ given (c_api (g_client g)) (g_current g))
      (concat (g_sent g) @ g_current g)"
    by (simp add: given_def)
  ultimately show ?thesis by (blast intro: prefix_order.trans)
qed

theorem files_never_corrupted_witness:
  "prefix [1, 2, 3] (concat (g_sent file_written) @ g_current file_written)"
proof -
  have "length (map kind (c_hist (g_client file_written))) = 4"
    using file_written by (simp add: written_summary_def)
  with files_never_corrupted [OF reach_file_written] file_written show ?thesis
    by (simp add: written_summary_def)
qed

text \<open>C3: in a run of the two programs of fewer than 2^32 packets, in which the receiver has opened
  at most one connection, and in selective repeat has opened it by packet 0 and the sender has made
  no disconnect request: when a \<open>send\<close> of a running sender has seen its window empty, the
  receiver's string stream holds exactly the files of all commands whose \<open>send\<close> has returned
  without an error and of the one at hand, in the order of the commands. (In selective repeat a packet that an idle receiver has buffered before a later
  opening blocks its buffer, and the window of the sender can empty with nothing put out, see
  \<open>idle_buffer_blocks\<close>.)\<close>

theorem programs_deliver:
  assumes "prog_reach addr g" "length (c_hist (g_client g)) < 4294967296" "y_opened (g_sys g) \<le> 1"
    and "r_selective_repeat (g_receiver g) \<longrightarrow>
      y_base (g_sys g) = Some 0 \<and> (\<forall>p \<in> set (c_hist (g_client g)). kind p \<noteq> DisconnReq)"
    and "s_running (c_sender (g_client g))" "at_stop (c_api (g_client g))"
  shows "r_os (g_receiver g) = Some (concat (g_sent g) @ g_current g)"
proof -
  have "transfer_inv (g_sys g)"
    using assms(2,3) by (intro transfer.reach_inv [OF prog_sys_reach [OF assms(1)]])
      (simp_all add: session_bound_def sys_bound_def)
  then have "whole (g_sys g)" using assms(4,6) by (simp add: transfer_inv_def clean_def no_disconnect_def)
  moreover have "sent_inv g" by (rule sent.reach_inv [OF assms(1)]) simp
  moreover have "in_send (c_api (g_client g))" "held (c_api (g_client g)) = []" "unread (c_api (g_client g)) = []"
    using assms(6) by (cases "c_api (g_client g)"; simp)+
  ultimately show ?thesis using assms(5) by (simp add: whole_def sent_inv_def given_def)
qed

theorem programs_deliver_witness: "r_os (g_receiver first_file) = Some [1, 2, 3]"
proof -
  have kinds: "map kind (c_hist (g_client first_file)) = [ConnReq, DataPush, Data]"
    using first_file by (simp add: first_file_summary_def)
  then have "length (c_hist (g_client first_file)) = 3"
    using length_map [of kind "c_hist (g_client first_file)"] by simp
  moreover have "kind ` set (c_hist (g_client first_file)) = {ConnReq, DataPush, Data}"
    using kinds by (simp flip: set_map)
  then have "\<forall>p \<in> set (c_hist (g_client first_file)). kind p \<noteq> DisconnReq"
    by (metis PacketKind.distinct image_eqI insertE singletonD)
  ultimately show ?thesis
    using programs_deliver [OF reach_first_file] first_file by (simp add: first_file_summary_def)
qed

subsection \<open>Two files in one\<close>

text \<open>The stop packet of the first file is late and given up; \<open>send\<close> reports success all the
  same; the second file is on its way when the stop packet arrives.\<close>

definition stop_lost_run :: "prog_action list" where
  "stop_lost_run =
     first_file_run @ post @
     map Thread ([DoTimer 2000000000, DoTimeout (map SequenceNumber [0, 1, 2, 3])] @
       concat (replicate 3 [DoPop, DoLock, DoBody os_ok 0]) @ [DoPop, DoLock])"

definition merge_run :: "prog_action list" where
  "merge_run =
     Command (file_stream [4, 5]) # answered [DoEnter] 4 3 @
     Thread (DoApi 1) # post @ [Turn True os_ok 5 addr_zero, Turn True os_ok 3 addr_zero]"

text \<open>The stop packet, the last of the first file, is made and has not reached the receiver, which
  has put out the file but not seen its end, and nothing is written.\<close>

definition stop_unseen :: "Programs \<Rightarrow> bool" where
  "stop_unseen g \<longleftrightarrow>
     map kind (c_hist (g_client g)) = [ConnReq, DataPush, Data, DataStop] \<and>
     r_window_first (g_receiver g) = SequenceNumber 3 \<and> r_recv_buffer (g_receiver g) = [] \<and>
     r_os (g_receiver g) = Some [1, 2, 3] \<and>
     g_current g = [1, 2, 3] \<and> g_names g = [''x'', ''y''] \<and> g_written g = []"

definition stop_to_give_up :: "Programs \<Rightarrow> bool" where
  "stop_to_give_up g \<longleftrightarrow>
     s_state (y_sender (g_sys g)) = Stopping \<and> c_popped (g_client g) = Some (SequenceNumber 3) \<and>
     reaches_give_up (SequenceNumber 3) (y_sender (g_sys g))"

text \<open>C24: a stop packet that was given up and arrives late joins two files. There is a run of the
  two programs through these states: the sender waits for the answer to the stop packet of its
  first file, the packet has not reached the receiver, and the send thread holds its number
  with all retries used; one step later the packet is given up, and the sender is back in the
  state connected; one more, and \<open>send\<close> has returned without an error, while the receiver still
  has not seen the end of the file and has written nothing. In the end the receiver has written
  one file, under the first name typed, and it holds the first file and what the second
  \<open>send\<close> has sent so far.\<close>

theorem late_stop_joins_files:
  "\<exists>g0 g1 g2 g3. prog_reach addr_zero g0 \<and> stop_unseen g0 \<and> stop_to_give_up g0 \<and>
     prog_step addr_zero g0 g1 \<and> stop_unseen g1 \<and> s_state (y_sender (g_sys g1)) = Connected \<and>
     prog_step addr_zero g1 g2 \<and> stop_unseen g2 \<and> c_api (g_client g2) = Returned no_error \<and> g_sent g2 = [[1, 2, 3]] \<and>
     (prog_step addr_zero)\<^sup>*\<^sup>* g2 g3 \<and> g_sent g3 = [[1, 2, 3]] \<and> g_current g3 = [4, 5] \<and>
     g_names g3 = [''y''] \<and> g_written g3 = [(''x'', [1, 2, 3, 4, 5])]"
proof -
  have "case run_prog addr_zero stop_lost_run programs_at_start of None \<Rightarrow> False
      | Some g0 \<Rightarrow> stop_unseen g0 \<and> stop_to_give_up g0 \<and>
          (case exec_prog addr_zero (Thread (DoBody os_ok 0)) g0 of None \<Rightarrow> False
           | Some g1 \<Rightarrow> stop_unseen g1 \<and> s_state (y_sender (g_sys g1)) = Connected \<and>
               (case exec_prog addr_zero (Thread (DoApi 1)) g1 of None \<Rightarrow> False
                | Some g2 \<Rightarrow> stop_unseen g2 \<and> c_api (g_client g2) = Returned no_error \<and> g_sent g2 = [[1, 2, 3]] \<and>
                    (case run_prog addr_zero merge_run g2 of None \<Rightarrow> False
                     | Some g3 \<Rightarrow> g_sent g3 = [[1, 2, 3]] \<and> g_current g3 = [4, 5] \<and>
                         g_names g3 = [''y''] \<and> g_written g3 = [(''x'', [1, 2, 3, 4, 5])])))"
    by code_simp
  then obtain g0 g1 g2 g3 where g0: "run_prog addr_zero stop_lost_run programs_at_start = Some g0"
      "stop_unseen g0" "stop_to_give_up g0"
    and g1: "exec_prog addr_zero (Thread (DoBody os_ok 0)) g0 = Some g1"
      "stop_unseen g1" "s_state (y_sender (g_sys g1)) = Connected"
    and g2: "exec_prog addr_zero (Thread (DoApi 1)) g1 = Some g2"
      "stop_unseen g2" "c_api (g_client g2) = Returned no_error" "g_sent g2 = [[1, 2, 3]]"
    and g3: "run_prog addr_zero merge_run g2 = Some g3" "g_sent g3 = [[1, 2, 3]]" "g_current g3 = [4, 5]"
      "g_names g3 = [''y'']" "g_written g3 = [(''x'', [1, 2, 3, 4, 5])]"
    unfolding case_Some_iff by (elim exE conjE) (rule that; assumption)
  have "prog_reach addr_zero g0" by (rule run_prog_reach [OF g0(1) programs_at_start])
  moreover note g0(2-) exec_prog_step [OF g1(1)] g1(2-) exec_prog_step [OF g2(1)] g2(2-)
    run_prog_steps [OF g3(1)] g3(2-)
  ultimately show ?thesis
    by - (rule exI [of _ g0], rule exI [of _ g1], rule exI [of _ g2], rule exI [of _ g3], intro conjI; assumption)
qed

end
