(* ===== verification/Logging.thy ===== *)
theory Logging
  imports Main
begin

text \<open>
  The class \<open>Logger\<close> of logging.hpp and logging.cpp. The text of the clock and the padding of
  \<open>std::format\<close> are as in the source: the formatted time is an argument, the name is padded
  to ten columns. The output stream is the list of the lines written to it.
\<close>

datatype LogLevel = Debug | Info | Warn | Error

text \<open>The order of the enumerators.\<close>

fun level_rank :: "LogLevel \<Rightarrow> nat" where
  "level_rank Debug = 0"
| "level_rank Info = 1"
| "level_rank Warn = 2"
| "level_rank Error = 3"

instantiation LogLevel :: linorder
begin

definition less_eq_LogLevel :: "LogLevel \<Rightarrow> LogLevel \<Rightarrow> bool" where
  "l \<le> m \<longleftrightarrow> level_rank l \<le> level_rank m"

definition less_LogLevel :: "LogLevel \<Rightarrow> LogLevel \<Rightarrow> bool" where
  "l < m \<longleftrightarrow> level_rank l < level_rank m"

instance
proof
  fix l m :: LogLevel
  assume "l \<le> m" "m \<le> l"
  then show "l = m"
    by (cases l; cases m) (simp_all add: less_eq_LogLevel_def)
qed (auto simp: less_eq_LogLevel_def less_LogLevel_def)

end

text \<open>The escape sequences of the header, with the octal 033 as a character.\<close>

definition ESC :: string where "ESC = [char_of (27 :: nat)]"
definition GREY :: string where "GREY = ESC @ ''[1;30m''"
definition GREEN :: string where "GREEN = ESC @ ''[1;32m''"
definition YELLOW :: string where "YELLOW = ESC @ ''[1;33m''"
definition RED :: string where "RED = ESC @ ''[1;31m''"
definition RESET :: string where "RESET = ESC @ ''[0m''"

record Logger =
  log_out :: "string list"
  log_name :: string

text \<open>\<open>{:10}\<close> on a string: left aligned, filled with blanks to ten columns.\<close>

definition pad10 :: "string \<Rightarrow> string" where
  "pad10 s = s @ replicate (10 - length s) (CHR '' '')"

definition log_line :: "string \<Rightarrow> string \<Rightarrow> LogLevel \<Rightarrow> string \<Rightarrow> string" where
  "log_line now name level msg =
     (case level of
        Debug \<Rightarrow> GREY @ ''[ '' @ now @ '' '' @ pad10 name @ '' DEBUG ] '' @ msg @ RESET
      | Info \<Rightarrow> GREEN @ ''[ '' @ now @ '' '' @ pad10 name @ '' INFO  ] '' @ msg @ RESET
      | Warn \<Rightarrow> YELLOW @ ''[ '' @ now @ '' '' @ pad10 name @ '' WARN  ] '' @ msg @ RESET
      | Error \<Rightarrow> RED @ ''[ '' @ now @ '' '' @ pad10 name @ '' ERROR ] '' @ msg @ RESET)"

definition log_msg :: "bool \<Rightarrow> string \<Rightarrow> LogLevel \<Rightarrow> string \<Rightarrow> Logger \<Rightarrow> Logger" where
  "log_msg enable_debug now level msg lg =
     (if level = Debug \<and> \<not> enable_debug then lg
      else lg\<lparr>log_out := log_out lg @ [log_line now (log_name lg) level msg]\<rparr>)"

text \<open>\<open>warn\<close>, \<open>info\<close>, \<open>error\<close> and \<open>debug\<close>.\<close>

definition log_warn :: "bool \<Rightarrow> string \<Rightarrow> string \<Rightarrow> Logger \<Rightarrow> Logger" where
  "log_warn en now msg = log_msg en now Warn msg"
definition log_info :: "bool \<Rightarrow> string \<Rightarrow> string \<Rightarrow> Logger \<Rightarrow> Logger" where
  "log_info en now msg = log_msg en now Info msg"
definition log_error :: "bool \<Rightarrow> string \<Rightarrow> string \<Rightarrow> Logger \<Rightarrow> Logger" where
  "log_error en now msg = log_msg en now Error msg"
definition log_debug :: "bool \<Rightarrow> string \<Rightarrow> string \<Rightarrow> Logger \<Rightarrow> Logger" where
  "log_debug en now msg = log_msg en now Debug msg"

text \<open>The messages of a run, logged in order: exactly the debug ones are filtered.\<close>

definition log_all :: "bool \<Rightarrow> string \<Rightarrow> (LogLevel \<times> string) list \<Rightarrow> Logger \<Rightarrow> Logger" where
  "log_all en now msgs lg = fold (\<lambda>(l, m). log_msg en now l m) msgs lg"

lemma log_name_msg [simp]: "log_name (log_msg en now l m lg) = log_name lg"
  by (simp add: log_msg_def)

lemma log_out_all:
  "log_out (log_all en now msgs lg) =
     log_out lg @ map (\<lambda>(l, m). log_line now (log_name lg) l m)
       (filter (\<lambda>(l, m). en \<or> Debug < l) msgs)"
proof (induction msgs arbitrary: lg)
  case Nil
  then show ?case by (simp add: log_all_def)
next
  case (Cons x msgs)
  obtain l m where x: "x = (l, m)" by (cases x)
  have "log_all en now (x # msgs) lg = log_all en now msgs (log_msg en now l m lg)"
    by (simp add: log_all_def x)
  then show ?case
    by (cases l) (simp_all add: Cons.IH x log_msg_def less_LogLevel_def)
qed

text \<open>A run of messages is logged in order, one line each, and exactly the debug messages are
  left out when debugging is off.\<close>

theorem log_filters_debug:
  "log_out (log_all en now msgs lg) =
     log_out lg @ map (\<lambda>(l, m). log_line now (log_name lg) l m)
       (filter (\<lambda>(l, m). en \<or> l \<noteq> Debug) msgs)"
proof -
  have "Debug < l \<longleftrightarrow> l \<noteq> Debug" for l by (cases l) (simp_all add: less_LogLevel_def)
  then show ?thesis by (simp add: log_out_all)
qed

end
