(* ===== verification/SocketPlatform.thy ===== *)
theory SocketPlatform
  imports Socket Logging ArgParser
begin

text \<open>
  The rest of socket.cpp: \<open>show_info\<close>, and the branches the preprocessor takes on Windows. The
  answers of the system are arguments as in Socket; the text \<open>inet_ntop\<close> makes of an
  address is a parameter.
\<close>

subsection \<open>show\_info\<close>

text \<open>The decimal digits of a number, as \<open>std::format\<close> writes an unsigned integer.\<close>

fun decimal :: "nat \<Rightarrow> string" where
  "decimal n =
     (if n < 10 then [char_of (48 + n)] else decimal (n div 10) @ [char_of (48 + n mod 10)])"

declare decimal.simps [simp del]

text \<open>The answer of \<open>getaddrinfo\<close>: its result, \<open>errno\<close> after it, and the first address it found.\<close>

record lookup_answer =
  gai_result :: int
  gai_errno :: int
  gai_addr :: u32

text \<open>\<open>host\<close> is what \<open>gethostname\<close> left in its buffer; the answer of \<open>getsockname\<close> comes with the
  address it stored. The port is turned back to the order of the host.\<close>

definition show_info ::
  "(u32 \<Rightarrow> string) \<Rightarrow> string \<Rightarrow> lookup_answer \<Rightarrow> os_answer \<Rightarrow> SocketAddr \<Rightarrow> bool \<Rightarrow> string \<Rightarrow>
     Logger \<Rightarrow> error_condition \<times> Logger" where
  "show_info ntop host gai gsn addr en now lg =
     (if gai_result gai \<noteq> 0 then (system_error (gai_errno gai), lg)
      else
        let ip = ntop (gai_addr gai)
        in if os_result gsn < 0 then (system_error (os_errno gsn), lg)
           else (no_error,
             log_msg en now Info
               (''socket info: '' @ host @ '', '' @ ip @ '':'' @ decimal (unat (htons (sin_port addr)))) lg))"

lemma digit_of_decimal: "d < 10 \<Longrightarrow> digit_value (char_of (48 + d)) = d"
  by (simp add: digit_value_def)

lemma digits_value_snoc: "digits_value (ds @ [d]) = 10 * digits_value ds + digit_value d"
  by (simp add: digits_value_def)

text \<open>What is written reads back as the number.\<close>

lemma digits_value_decimal: "digits_value (decimal n) = n"
proof (induction n rule: decimal.induct)
  case (1 n)
  show ?case
  proof (cases "n < 10")
    case True
    then show ?thesis
      using digit_of_decimal [of n] by (simp add: decimal.simps [of n] digits_value_def)
  next
    case False
    with 1 have "digits_value (decimal (n div 10)) = n div 10" by simp
    with False show ?thesis
      by (simp add: decimal.simps [of n] digits_value_snoc digit_of_decimal)
  qed
qed

lemma bit_htons: "bit (htons w) n \<longleftrightarrow> n < 16 \<and> bit w (if n < 8 then n + 8 else n - 8)"
proof -
  have mask: "(0xFF :: u16) = mask 8" by (simp add: mask_eq_exp_minus_1)
  have "bit (htons w) n \<longleftrightarrow> n < 16 \<and> (n < 8 \<and> bit w (8 + n) \<or> 8 \<le> n \<and> bit w (n - 8))"
    unfolding htons_def le16_def mask
    by (auto simp: bit_simps bit_unsigned_iff)
  then show ?thesis by (auto simp: add.commute)
qed

lemma htons_twice: "htons (htons w) = w"
  by (rule bit_word_eqI) (auto simp: bit_htons less_diff_conv2 not_less)

text \<open>\<open>show_info\<close> on every branch. It fails with \<open>errno\<close> when a call of the system fails, so a failed
  lookup, which reports by its result and not by \<open>errno\<close>, can count as success without a line;
  otherwise it logs one line, whose last field reads back as the port \<open>init\<close> was given.\<close>

theorem show_info_outcome:
  assumes "bound_addr (snd (socket_init sk bd so port (socket_new n))) = Some addr"
  shows "fst (show_info ntop host gai gsn addr en now lg) =
      (if gai_result gai \<noteq> 0 then system_error (gai_errno gai)
       else if os_result gsn < 0 then system_error (os_errno gsn) else no_error) \<and>
    (gai_result gai \<noteq> 0 \<and> gai_errno gai = 0 \<longrightarrow>
      \<not> is_error (fst (show_info ntop host gai gsn addr en now lg))) \<and>
    log_out (snd (show_info ntop host gai gsn addr en now lg)) = log_out lg @
      (if gai_result gai \<noteq> 0 \<or> os_result gsn < 0 then []
       else [log_line now (log_name lg) Info
         (''socket info: '' @ host @ '', '' @ ntop (gai_addr gai) @ '':'' @ decimal (unat port))]) \<and>
    digits_value (decimal (unat port)) = unat port"
proof -
  have "sin_port addr = htons port"
    using assms by (auto simp: socket_init_def socket_new_def set_recv_timeout_def Let_def split: if_splits)
  then show ?thesis
    by (simp add: show_info_def htons_twice digits_value_decimal log_msg_def)
qed

theorem show_info_outcome_witness:
  "\<not> is_error (fst (show_info (\<lambda>a. []) ''host'' \<lparr>gai_result = - 2, gai_errno = 0, gai_addr = 0\<rparr>
     \<lparr>os_result = 0, os_errno = 0\<rparr> \<lparr>sin_family = AF_INET, sin_port = htons 1234, sin_addr = INADDR_ANY\<rparr>
     False [] \<lparr>log_out = [], log_name = []\<rparr>))"
proof -
  let ?ok = "\<lparr>os_result = 0, os_errno = 0\<rparr>"
  have "bound_addr (snd (socket_init \<lparr>os_result = 3, os_errno = 0\<rparr> ?ok ?ok 1234 (socket_new 64))) =
      Some \<lparr>sin_family = AF_INET, sin_port = htons 1234, sin_addr = INADDR_ANY\<rparr>"
    by (simp add: socket_init_def set_recv_timeout_def Let_def)
  from show_info_outcome [OF this] show ?thesis by simp
qed

subsection \<open>Windows\<close>

text \<open>The constants of the WinSock headers; errors come from \<open>WSAGetLastError\<close>, which is
  \<open>os_errno\<close> of the answer.\<close>

definition INVALID_SOCKET :: int where "INVALID_SOCKET = 18446744073709551615"
definition WSAETIMEDOUT :: int where "WSAETIMEDOUT = 10060"

text \<open>The code hands the same \<open>timeval\<close> to the system as on Linux; these two definitions say what the
  socket then waits, which is the doing of the system. \<open>SO_RCVTIMEO\<close> takes a \<open>DWORD\<close> of milliseconds
  there, so the system reads the seconds, the first 32 bits of the structure, as such.\<close>

definition win_recv_timeout :: "int \<Rightarrow> int" where
  "win_recv_timeout n = fst (timeval_of_ms n) mod 2 ^ 32"

definition win_set_recv_timeout :: "os_answer \<Rightarrow> int \<Rightarrow> Socket \<Rightarrow> error_condition \<times> Socket" where
  "win_set_recv_timeout a n s =
     (if os_result a < 0 then (system_error (os_errno a), s)
      else (no_error, s\<lparr>recv_timeout := Some (timeval_of_ms (win_recv_timeout n))\<rparr>))"

definition win_socket_init ::
  "os_answer \<Rightarrow> os_answer \<Rightarrow> os_answer \<Rightarrow> os_answer \<Rightarrow> u16 \<Rightarrow> Socket \<Rightarrow> error_condition \<times> Socket" where
  "win_socket_init st sk bd so port s =
     (if os_result st \<noteq> 0 then (system_error (os_errno st), s)
      else
        let s = s\<lparr>sock := os_result sk\<rparr>
        in if sock s = INVALID_SOCKET then (system_error (os_errno sk), s)
           else
             let addr = \<lparr>sin_family = AF_INET, sin_port = htons port, sin_addr = INADDR_ANY\<rparr>
             in if os_result bd < 0 then (system_error (os_errno bd), s)
                else (no_error, snd (win_set_recv_timeout so 1000 (s\<lparr>bound_addr := Some addr\<rparr>))))"

definition win_socket_cleanup :: "os_answer \<Rightarrow> Socket \<Rightarrow> error_condition" where
  "win_socket_cleanup a s = (if os_result a \<noteq> 0 then system_error (os_errno a) else no_error)"

definition win_is_fatal_error :: "error_condition \<Rightarrow> bool" where
  "win_is_fatal_error e \<longleftrightarrow> (if \<not> is_error e then False else err_value e \<noteq> WSAETIMEDOUT)"

text \<open>On Windows a socket that is ready waits a millisecond for a datagram, not a second, and a
  receive that times out is no fatal error.\<close>

theorem win_waits_a_millisecond:
  assumes "win_socket_init st sk bd so port s = (e, s')" "\<not> is_error e" "0 \<le> os_result so"
    and "os_errno st \<noteq> 0" "os_errno sk \<noteq> 0" "os_errno bd \<noteq> 0"
  shows "recv_timeout s' = Some (0, 1000) \<and> \<not> win_is_fatal_error (system_error WSAETIMEDOUT)"
  using assms
  by (auto simp: win_socket_init_def win_set_recv_timeout_def win_recv_timeout_def timeval_of_ms_def
      win_is_fatal_error_def Let_def signed_divide_int_def signed_modulo_int_def split: if_splits)

theorem win_waits_a_millisecond_witness:
  "recv_timeout (snd (win_socket_init \<lparr>os_result = 0, os_errno = 1\<rparr> \<lparr>os_result = 3, os_errno = 1\<rparr>
     \<lparr>os_result = 0, os_errno = 1\<rparr> \<lparr>os_result = 0, os_errno = 1\<rparr> 1234 (socket_new 64))) = Some (0, 1000)"
proof -
  let ?a = "\<lparr>os_result = 0, os_errno = 1\<rparr>" and ?k = "\<lparr>os_result = 3, os_errno = 1\<rparr>"
  obtain e s' where r: "win_socket_init ?a ?k ?a ?a 1234 (socket_new 64) = (e, s')" by (metis surj_pair)
  moreover from r have "\<not> is_error e"
    by (auto simp: win_socket_init_def INVALID_SOCKET_def Let_def)
  ultimately show ?thesis using win_waits_a_millisecond [OF r] by simp
qed

end
