(* ===== verification/CommandLine.thy ===== *)
theory CommandLine
  imports App SocketPlatform
begin

text \<open>
  What a command line means to the sender: each option sets its field of the configuration to
  the value scanned, the last one given counts, and the others keep their defaults; numbers
  written in decimal are read back.
\<close>

subsection \<open>Numbers in decimal\<close>

definition digit :: "nat \<Rightarrow> char" where
  "digit n = char_of (48 + n)"

fun decimal_text :: "nat \<Rightarrow> string" where
  "decimal_text n = (if n < 10 then [digit n] else decimal_text (n div 10) @ [digit (n mod 10)])"

declare decimal_text.simps [simp del]

lemma of_char_digit: "n < 10 \<Longrightarrow> of_char (digit n) = 48 + n"
  by (simp add: digit_def)

lemma is_digit_digit: "n < 10 \<Longrightarrow> is_digit (digit n)"
  by (simp add: is_digit_def of_char_digit)

lemma digits_decimal: "digits_value (decimal_text n) = n" "list_all is_digit (decimal_text n)" "decimal_text n \<noteq> []"
proof (induction n rule: decimal_text.induct)
  case (1 n)
  { case 1 then show ?case using "1.IH" by (subst decimal_text.simps) (auto simp: digits_value_def digit_value_def of_char_digit) }
  { case 2 then show ?case using "1.IH" by (subst decimal_text.simps) (auto simp: is_digit_digit) }
  { case 3 then show ?case by (subst decimal_text.simps) auto }
qed

lemma is_digit_other: "is_digit c \<Longrightarrow> \<not> is_space c \<and> c \<noteq> CHR ''-'' \<and> c \<noteq> CHR ''+''"
  by (auto simp: is_digit_def is_space_def)

lemma scan_decimal: "scan_number (decimal_text n) = (False, decimal_text n)"
proof -
  obtain c cs where "decimal_text n = c # cs" "is_digit c" "list_all is_digit cs"
    using digits_decimal(2,3) [of n] by (cases "decimal_text n") auto
  then show ?thesis
    using is_digit_other [of c] by (simp add: scan_number_def list_all_iff takeWhile_eq_all_conv)
qed

lemma stoi_decimal: "n < 2147483648 \<Longrightarrow> stoi (decimal_text n) = Inr (int n)"
  by (simp add: stoi_def scan_decimal digits_decimal INT_MAX_C_def)

lemma scan_size_t_decimal: "n < 18446744073709551616 \<Longrightarrow> scan_size_t init (decimal_text n) = of_nat n"
proof -
  obtain c cs where "decimal_text n = c # cs" "is_digit c"
    using digits_decimal(2,3) [of n] by (cases "decimal_text n") auto
  then show "n < 18446744073709551616 \<Longrightarrow> ?thesis"
    using is_digit_other [of c] digits_decimal(1) [of n] scan_decimal [of n] by (simp add: scan_size_t_def)
qed

subsection \<open>Options\<close>

text \<open>An option with its value, or a flag, which counts as the value true.\<close>

fun option_of :: "string \<times> string option \<Rightarrow> string" where
  "option_of (nm, Some v) = ''--'' @ nm @ ''='' @ v"
| "option_of (nm, None) = ''--'' @ nm"

definition value_of :: "string option \<Rightarrow> string" where
  "value_of v = (case v of None \<Rightarrow> ''true'' | Some v \<Rightarrow> v)"

text \<open>The text given for each name: the last one.\<close>

definition given_by :: "(string \<times> string option) list \<Rightarrow> string \<rightharpoonup> string" where
  "given_by nvs = map_of (rev (map (\<lambda>(nm, v). (nm, value_of v)) nvs))"

text \<open>The type each argument of the sender is scanned with.\<close>

definition sender_type :: "string \<Rightarrow> any_type" where
  "sender_type nm = the (arg_parser (the (sender_arguments nm)))"

lemma sender_declared:
  "\<forall>nm \<in> set sender_names. nm \<in> dom sender_arguments \<and> CHR ''='' \<notin> set nm \<and>
     arg_parser (the (sender_arguments nm)) \<noteq> None"
proof -
  have "\<forall>nm \<in> set sender_names. sender_arguments nm \<noteq> None \<and> CHR ''='' \<notin> set nm \<and>
      arg_parser (the (sender_arguments nm)) \<noteq> None"
    by code_simp
  then show ?thesis by (simp add: domIff)
qed

lemma sender_types:
  "map sender_type sender_names = [TString, TInt, TInt, TBool, TBool, TSize, TSize, TSize, TBool]"
  by code_simp

lemma split_option:
  assumes "CHR ''='' \<notin> set nm"
  shows "takeWhile (\<lambda>c. c \<noteq> CHR ''='') (nm @ CHR ''='' # v) = nm"
    "dropWhile (\<lambda>c. c \<noteq> CHR ''='') (nm @ CHR ''='' # v) = CHR ''='' # v"
  using assms by (induction nm) auto

lemma parse_option:
  assumes "CHR ''='' \<notin> set nm" "nm \<in> dom ps"
  shows "parse_one ps (option_of (nm, v)) given = Inr (Some (given(nm \<mapsto> value_of v)))"
  using assms split_option [of "''--'' @ nm"] by (cases v) (auto simp: parse_one_def value_of_def)

lemma parse_options:
  assumes "\<forall>nv \<in> set nvs. CHR ''='' \<notin> set (fst nv) \<and> fst nv \<in> dom ps"
  shows "parse_given ps (map option_of nvs) given = Inr (Some (given ++ given_by nvs))"
  using assms
proof (induction nvs arbitrary: given)
  case (Cons nv nvs)
  obtain nm v where nv: "nv = (nm, v)" by (cases nv)
  have "given ++ given_by (nv # nvs) = given(nm \<mapsto> value_of v) ++ given_by nvs"
    by (simp add: nv given_by_def map_add_def fun_eq_iff split: option.split)
  with Cons show ?case by (simp add: nv parse_option del: option_of.simps)
qed (simp add: given_by_def)

text \<open>The value an argument ends up with.\<close>

definition sender_value :: "Scanners \<Rightarrow> (string \<rightharpoonup> string) \<Rightarrow> string \<Rightarrow> any" where
  "sender_value sc given nm = the (settled sc given nm (the (sender_arguments nm)))"

lemma config_settled:
  assumes "distinct order" "set order = set sender_names"
    and "parse_given sender_arguments args Map.empty = Inr (Some given)"
    and set: "\<forall>nm \<in> set sender_names. settled sc given nm (the (sender_arguments nm)) \<noteq> None \<and>
      any_has_type (sender_type nm) (sender_value sc given nm)"
  shows "sender_config sc order args = Inr
    \<lparr>cfg_remote_ip = any_string (sender_value sc given ''remote-ip''),
     cfg_remote_port = any_int (sender_value sc given ''remote-port''),
     cfg_port = any_int (sender_value sc given ''port''),
     cfg_selective_repeat = any_bool (sender_value sc given ''selective-repeat''),
     cfg_fast_retransmit = any_bool (sender_value sc given ''fast-retransmit''),
     cfg_timeout = any_size (sender_value sc given ''timeout''),
     cfg_max_window_size = any_size (sender_value sc given ''max-window-size''),
     cfg_max_retry_count = any_size (sender_value sc given ''max-retry-count''),
     cfg_debug = any_bool (sender_value sc given ''debug'')\<rparr>"
proof -
  define ps where "ps = (\<lambda>nm. if nm \<in> set order
      then Some ((the (sender_arguments nm))\<lparr>arg_value := settled sc given nm (the (sender_arguments nm))\<rparr>)
      else sender_arguments nm)"
  have "assign_all sc given order sender_arguments = Inr (True, ps)"
    unfolding ps_def using assms(1,2) set sender_declared by (intro assign_all_settled) auto
  then have parse: "parse_args sc order args sender_arguments = Inr (True, ps)"
    using assms(3) by (simp add: parse_args_def)
  have got: "get_value (sender_type nm) nm ps = Inr (sender_value sc given nm)" if "nm \<in> set sender_names" for nm
    using that set assms(2) by (auto simp: get_value_def get_arg_def ps_def sender_value_def)
  have "map (\<lambda>nm. get_value (sender_type nm) nm ps) sender_names = map (\<lambda>nm. Inr (sender_value sc given nm)) sender_names"
    using got by simp
  then show ?thesis
    using sender_types by (simp add: sender_config_def parse sender_names_def)
qed

text \<open>What each type makes of a given text or a default.\<close>

lemma settles:
  assumes "nm \<in> set sender_names"
  shows "sender_type nm = TString \<Longrightarrow> default_value (the (sender_arguments nm)) = Some (AnyString d) \<Longrightarrow>
      settled sc given nm (the (sender_arguments nm)) = Some (AnyString (case given nm of None \<Rightarrow> d | Some v \<Rightarrow> v))"
    "sender_type nm = TSize \<Longrightarrow> default_value (the (sender_arguments nm)) = Some (AnySize n) \<Longrightarrow>
      settled sc given nm (the (sender_arguments nm)) =
        Some (AnySize (case given nm of None \<Rightarrow> n | Some v \<Rightarrow> scan_size_t (uninit sc) v))"
    "sender_type nm = TBool \<Longrightarrow> default_value (the (sender_arguments nm)) = Some (AnyBool False) \<Longrightarrow>
      settled sc given nm (the (sender_arguments nm)) = Some (AnyBool (given nm = Some ''true''))"
    "sender_type nm = TInt \<Longrightarrow> default_value (the (sender_arguments nm)) = Some (AnyInt i) \<Longrightarrow>
      \<forall>v. given nm = Some v \<longrightarrow> (\<exists>j. stoi v = Inr j) \<Longrightarrow>
      settled sc given nm (the (sender_arguments nm)) =
        Some (AnyInt (case given nm of None \<Rightarrow> i | Some v \<Rightarrow> projr (stoi v)))"
  using assms sender_declared
  by (auto simp: settled_def sender_type_def scan_as_def split: option.split)

text \<open>C40: what a command line means. For any options and flags of the sender, in any order and
  however often, whose port numbers scan, the configuration has for each the value of the last
  one given, scanned as its type, and the default where none is given; in whatever order the
  unordered map is traversed.\<close>

theorem command_line_meaning:
  assumes "distinct order" "set order = set sender_names"
    and "\<forall>nv \<in> set nvs. fst nv \<in> set sender_names"
    and "\<forall>nv \<in> set nvs. fst nv \<in> {''port'', ''remote-port''} \<longrightarrow> (\<exists>i. stoi (value_of (snd nv)) = Inr i)"
  shows "sender_config sc order (map option_of nvs) = Inr
    \<lparr>cfg_remote_ip = (case given_by nvs ''remote-ip'' of None \<Rightarrow> ''127.0.0.1'' | Some v \<Rightarrow> v),
     cfg_remote_port = (case given_by nvs ''remote-port'' of None \<Rightarrow> 3333 | Some v \<Rightarrow> projr (stoi v)),
     cfg_port = (case given_by nvs ''port'' of None \<Rightarrow> 1234 | Some v \<Rightarrow> projr (stoi v)),
     cfg_selective_repeat = (given_by nvs ''selective-repeat'' = Some ''true''),
     cfg_fast_retransmit = (given_by nvs ''fast-retransmit'' = Some ''true''),
     cfg_timeout = (case given_by nvs ''timeout'' of None \<Rightarrow> 1000 | Some v \<Rightarrow> scan_size_t (uninit sc) v),
     cfg_max_window_size = (case given_by nvs ''max-window-size'' of None \<Rightarrow> 5 | Some v \<Rightarrow> scan_size_t (uninit sc) v),
     cfg_max_retry_count = (case given_by nvs ''max-retry-count'' of None \<Rightarrow> - 1 | Some v \<Rightarrow> scan_size_t (uninit sc) v),
     cfg_debug = (given_by nvs ''debug'' = Some ''true'')\<rparr>"
proof -
  let ?g = "given_by nvs"
  have parse: "parse_given sender_arguments (map option_of nvs) Map.empty = Inr (Some ?g)"
    using parse_options [of nvs sender_arguments Map.empty] assms(3) sender_declared by auto
  have ports: "\<exists>i. stoi v = Inr i" if "?g nm = Some v" "nm \<in> {''port'', ''remote-port''}" for nm v
  proof -
    have "(nm, v) \<in> (\<lambda>(nm, v). (nm, value_of v)) ` set nvs"
      using map_of_SomeD [OF that(1) [unfolded given_by_def]] by simp
    then show ?thesis using assms(4) that(2) by auto
  qed
  note types = sender_types [unfolded sender_names_def, simplified]
  note defaults = sender_default_values [unfolded sender_names_def, simplified]
  have fields: "map (\<lambda>nm. settled sc ?g nm (the (sender_arguments nm))) sender_names = map Some
    [AnyString (case ?g ''remote-ip'' of None \<Rightarrow> ''127.0.0.1'' | Some v \<Rightarrow> v),
     AnyInt (case ?g ''remote-port'' of None \<Rightarrow> 3333 | Some v \<Rightarrow> projr (stoi v)),
     AnyInt (case ?g ''port'' of None \<Rightarrow> 1234 | Some v \<Rightarrow> projr (stoi v)),
     AnyBool (?g ''selective-repeat'' = Some ''true''), AnyBool (?g ''fast-retransmit'' = Some ''true''),
     AnySize (case ?g ''timeout'' of None \<Rightarrow> 1000 | Some v \<Rightarrow> scan_size_t (uninit sc) v),
     AnySize (case ?g ''max-window-size'' of None \<Rightarrow> 5 | Some v \<Rightarrow> scan_size_t (uninit sc) v),
     AnySize (case ?g ''max-retry-count'' of None \<Rightarrow> - 1 | Some v \<Rightarrow> scan_size_t (uninit sc) v),
     AnyBool (?g ''debug'' = Some ''true'')]"
    using ports types defaults by (simp add: sender_names_def settles)
  have all: "\<forall>nm \<in> set sender_names. settled sc ?g nm (the (sender_arguments nm)) \<noteq> None \<and>
      any_has_type (sender_type nm) (sender_value sc ?g nm)"
    using fields types by (simp add: sender_names_def sender_value_def)
  show ?thesis
    unfolding config_settled [OF assms(1,2) parse all]
    using fields by (simp add: sender_names_def sender_value_def)
qed

theorem command_line_meaning_witness:
  "sender_config no_fractions (rev sender_names)
     (map option_of [(''timeout'', Some ''500''), (''debug'', None), (''port'', Some ''99''), (''timeout'', Some ''700'')]) =
   Inr (default_config\<lparr>cfg_port := 99, cfg_timeout := 700, cfg_debug := True\<rparr>)"
proof -
  let ?nvs = "[(''timeout'', Some ''500''), (''debug'', None), (''port'', Some ''99''), (''timeout'', Some ''700'')]"
  have texts: "decimal_text 99 = ''99''" "decimal_text 700 = ''700''" by code_simp+
  have scans: "stoi ''99'' = Inr 99" "scan_size_t 0 ''700'' = 700"
    using stoi_decimal [of 99] scan_size_t_decimal [of 700 0] texts by simp_all
  have given: "map (given_by ?nvs) sender_names =
      [None, None, Some ''99'', None, None, Some ''700'', None, None, Some ''true'']" by code_simp
  have names: "\<forall>nv \<in> set ?nvs. fst nv \<in> set sender_names" by code_simp
  have ports: "\<forall>nv \<in> set ?nvs. fst nv \<in> {''port'', ''remote-port''} \<longrightarrow> (\<exists>i. stoi (value_of (snd nv)) = Inr i)"
    using scans by (simp add: value_of_def)
  have order: "distinct (rev sender_names)" unfolding distinct_rev by (simp add: sender_names_def)
  show ?thesis
    unfolding command_line_meaning [OF order set_rev names ports, of no_fractions]
    using given [unfolded sender_names_def, simplified] scans
    by (simp add: default_config_def no_fractions_def)
qed

end
