(* ===== verification/Posting.thy ===== *)
theory Posting
  imports Schedule
begin

text \<open>
  The sender can always send the packet at the lower bound of its window, as long as the
  retries last: whatever the threads hold at the moment, some steps of theirs bring the
  packet into the pending queue, out of it and onto the network.
\<close>

text \<open>A sender at work on the number \<open>lo\<close>, with no received packet in hand.\<close>

definition at_work :: "Packet list \<Rightarrow> SequenceNumber \<Rightarrow> Client \<Rightarrow> bool" where
  "at_work hist lo c \<longleftrightarrow>
     client_inv c \<and> c_hist c = hist \<and> length hist < 4294967296 \<and>
     c_got c = None \<and> c_enter c = None \<and> s_running (c_sender c) \<and>
     lower_bound (s_window (c_sender c)) = lo \<and> outstanding (c_sender c) lo \<and>
     \<not> retries_used (c_sender c) lo \<and> \<not> holds_state_mutex (c_api c) \<and>
     length (to_bytes (hist ! sn lo)) \<le> unat (max_buf_size (s_channel (c_sender c)))"

text \<open>The packet has gone out.\<close>

definition posted :: "Packet list \<Rightarrow> SequenceNumber \<Rightarrow> Client \<Rightarrow> bool" where
  "posted hist lo c \<longleftrightarrow>
     c_hist c = hist \<and> c_got c = None \<and> c_enter c = None \<and> \<not> c_locked c \<and> s_running (c_sender c) \<and>
     lower_bound (s_window (c_sender c)) = lo \<and> \<not> holds_state_mutex (c_api c) \<and>
     to_bytes (hist ! sn lo) \<in> snd ` set (outbox (s_channel (c_sender c)))"

definition idle_hands :: "Client \<Rightarrow> bool" where
  "idle_hands c \<longleftrightarrow> reserved_of (c_api c) = None \<and> c_popped c = None \<and> \<not> c_locked c"

abbreviation quiet_steps :: "Client \<Rightarrow> Client \<Rightarrow> bool" where
  "quiet_steps \<equiv> (client_step Works)\<^sup>*\<^sup>*"

text \<open>What such steps cost: a number of retries, and the caller at most enters the packet it holds.\<close>

definition retries :: "Client \<Rightarrow> SequenceNumber \<Rightarrow> nat" where
  "retries c sq = (case s_retry_count (c_sender c) sq of None \<Rightarrow> 0 | Some n \<Rightarrow> unat n)"

definition api_moves :: "ApiPc \<Rightarrow> ApiPc \<Rightarrow> bool" where
  "api_moves pc pc' \<longleftrightarrow> pc' = pc \<or> (\<exists>p is n. pc = DataSend (SpReserved p) is n \<and> pc' = DataRead is n)"

definition keeps :: "nat \<Rightarrow> Client \<Rightarrow> Client \<Rightarrow> bool" where
  "keeps k c c' \<longleftrightarrow> api_moves (c_api c) (c_api c') \<and> (\<forall>sq. retries c' sq \<le> retries c sq + k)"

lemma keeps_same: "c_api c' = c_api c \<Longrightarrow> s_retry_count (c_sender c') = s_retry_count (c_sender c) \<Longrightarrow> keeps k c c'"
  by (simp add: keeps_def api_moves_def retries_def)

lemma keeps_refl [simp]: "keeps k c c"
  by (rule keeps_same) simp_all

lemma api_moves_trans: "api_moves pc pc1 \<Longrightarrow> api_moves pc1 pc2 \<Longrightarrow> api_moves pc pc2"
  by (auto simp: api_moves_def)

lemma keeps_trans: "keeps j c c1 \<Longrightarrow> keeps k c1 c2 \<Longrightarrow> keeps (j + k) c c2"
proof -
  assume a: "keeps j c c1" "keeps k c1 c2"
  have "retries c2 sq \<le> retries c sq + (j + k)" for sq
  proof -
    have "retries c2 sq \<le> retries c1 sq + k" "retries c1 sq \<le> retries c sq + j"
      using a by (simp_all add: keeps_def)
    then show ?thesis by linarith
  qed
  moreover have "api_moves (c_api c) (c_api c2)" using a unfolding keeps_def by (blast intro: api_moves_trans)
  ultimately show ?thesis by (simp add: keeps_def)
qed

lemma keeps_trans0: "keeps 0 c c1 \<Longrightarrow> keeps k c1 c2 \<Longrightarrow> keeps k c c2"
  using keeps_trans [of 0 c c1 k c2] by simp

lemma keeps_mono: "keeps j c c' \<Longrightarrow> j \<le> k \<Longrightarrow> keeps k c c'"
proof -
  assume a: "keeps j c c'" "j \<le> k"
  have "retries c' sq \<le> retries c sq + k" for sq
  proof -
    have "retries c' sq \<le> retries c sq + j" using a(1) by (simp add: keeps_def)
    with a(2) show ?thesis by linarith
  qed
  with a(1) show ?thesis by (simp add: keeps_def)
qed

lemma at_work_step:
  assumes "at_work hist lo c" "client_step Works c c'" "c_hist c' = hist" "c_got c' = None" "c_enter c' = None"
    and "s_running (c_sender c')" "\<not> retries_used (c_sender c') lo" "\<not> holds_state_mutex (c_api c')"
  shows "at_work hist lo c'"
proof -
  have w: "client_inv c" "c_got c = None" "c_hist c = hist" "length hist < 4294967296"
    using assms(1) by (simp_all add: at_work_def)
  have inv: "client_inv c'" using assms(2-4) w by (intro client_step_inv [OF assms(2)]) simp_all
  have acks: "same_acks (c_sender c) (c_sender c')"
    using client_step_acks [OF assms(2)] w(2) by auto
  have "sn (upper_bound (s_window (c_sender c'))) = sn (upper_bound (s_window (c_sender c)))"
    using w inv assms(3) by (simp add: client_inv_def sender_inv_def window_ok_def)
  moreover have "max_buf_size (s_channel (c_sender c')) = max_buf_size (s_channel (c_sender c))"
    "s_selective_repeat (c_sender c') = s_selective_repeat (c_sender c)"
    using same_config_max [OF client_step_config [OF assms(2)]] by simp_all
  ultimately show ?thesis
    using assms inv acks by (auto simp: at_work_def outstanding_def same_acks_def)
qed

lemma at_work_inv:
  assumes "at_work hist lo c"
  shows "sender_inv hist (reserved_of (c_api c)) (c_popped c) (c_sender c)"
  using assms by (auto simp: at_work_def client_inv_def)

text \<open>The caller enters the packet it holds.\<close>

lemma enter_reserved:
  assumes "at_work hist lo c" "\<not> c_locked c"
  obtains c' where "quiet_steps c c'" "at_work hist lo c'" "reserved_of (c_api c') = None"
    "\<not> c_locked c'" "c_popped c' = c_popped c" "s_retry_count (c_sender c') = s_retry_count (c_sender c)"
    "s_max_retry_count (c_sender c') = s_max_retry_count (c_sender c)" "keeps 0 c c'"
proof (cases "reserved_of (c_api c)")
  case None
  with assms show ?thesis by (intro that [of c]) simp_all
next
  case (Some p)
  then obtain pc where step: "api_step 1 (c_api c) (c_sender c) = Inr (pc, send_packet_enqueue p (c_sender c))"
    and pc: "reserved_of pc = None" "\<not> holds_state_mutex pc" "api_moves (c_api c) pc"
    using assms by (cases "c_api c") (auto simp: at_work_def reserved_of_def api_moves_def elim!: send_reserved.elims)
  let ?c = "c\<lparr>c_api := pc, c_sender := send_packet_enqueue p (c_sender c),
    c_hist := c_hist c @ new_packets (c_api c) pc\<rparr>"
  have new: "new_packets (c_api c) pc = []" using pc(1) by (simp add: new_packets_def split: option.splits)
  have st: "client_step Works c ?c" using assms(2) by (intro client_api [OF step]) simp
  have "at_work hist lo ?c"
    using assms new pc(2)
    by (intro at_work_step [OF assms(1) st]) (auto simp: at_work_def send_packet_enqueue_def retries_used_def)
  moreover have "keeps 0 c ?c"
    using pc(3) by (simp add: keeps_def retries_def send_packet_enqueue_def)
  ultimately show ?thesis
    using st pc(1) assms(2) by (intro that [of ?c]) (auto simp: send_packet_enqueue_def)
qed

text \<open>What a turn of the send thread does to a number that has retries left.\<close>

lemma body_cases:
  assumes "\<not> retries_used s sq" "lower_bound (s_window s) < upper_bound (s_window s)"
  obtains (clean) "\<not> outstanding s sq \<or> upper_bound (s_window s) \<le> sq" "send_handler_body a now sq s = send_handler_cleanup sq s"
  | (send) n where "lower_bound (s_window s) \<le> sq" "\<not> (s_selective_repeat s \<and> sq \<in> s_acked_seq_set s)"
      "send_handler_body a now sq s = transmit a now sq (s\<lparr>s_retry_count := (s_retry_count s)(sq \<mapsto> n)\<rparr>)"
proof (cases "s_selective_repeat s \<and> sq \<in> s_acked_seq_set s \<or> sq < lower_bound (s_window s)")
  case True
  then show ?thesis by (intro clean) (auto simp: send_handler_body_def outstanding_def)
next
  case False
  show ?thesis
  proof (cases "s_retry_count s sq")
    case None
    with False assms(2) show ?thesis by (intro send [of 0]) (auto simp: send_handler_body_def)
  next
    case (Some n)
    with assms(1) have "\<not> s_max_retry_count s \<le> n" by (simp add: retries_used_def)
    with False assms(2) Some show ?thesis by (intro send [of "n + 1"]) (auto simp: send_handler_body_def)
  qed
qed

lemma transmit_frame:
  "s_running (transmit a now sq s) = s_running s"
  "s_retry_count (transmit a now sq s) = s_retry_count s"
  "s_max_retry_count (transmit a now sq s) = s_max_retry_count s"
  "s_pending_queue (transmit a now sq s) = s_pending_queue s"
  "s_window (transmit a now sq s) = s_window s"
  by (simp_all add: transmit_def split: option.splits)

lemma transmit_posts:
  assumes "s_packet_pool s sq = Some p" "0 \<le> os_result a"
    and "length (to_bytes p) \<le> unat (max_buf_size (s_channel s))"
  shows "to_bytes p \<in> snd ` set (outbox (s_channel (transmit a now sq s)))"
  using assms by (simp add: transmit_def outbox_send)

text \<open>The send thread takes its two mutexes, unless it has them, and does the rest of its turn.\<close>

definition after_body :: "SequenceNumber \<Rightarrow> Client \<Rightarrow> Client" where
  "after_body sq c =
     c\<lparr>c_popped := None, c_locked := False, c_sender := send_handler_body os_ok 0 sq (c_sender c)\<rparr>"

lemma after_body_frame [simp]:
  "c_popped (after_body sq c) = None" "c_locked (after_body sq c) = False"
  "c_sender (after_body sq c) = send_handler_body os_ok 0 sq (c_sender c)"
  "c_api (after_body sq c) = c_api c" "c_hist (after_body sq c) = c_hist c"
  "c_got (after_body sq c) = c_got c" "c_enter (after_body sq c) = c_enter c"
  by (simp_all add: after_body_def)

lemma lock_step:
  assumes "c_popped c = Some sq"
  shows "quiet_steps c (c\<lparr>c_locked := True\<rparr>)"
proof (cases "c_locked c")
  case True
  then have "c\<lparr>c_locked := True\<rparr> = c" by simp
  then show ?thesis by simp
qed (use client_lock [of c] assms in auto)

lemma body_locked:
  assumes "c_popped c = Some sq" "\<not> holds_state_mutex (c_api c)"
  shows "client_step Works (c\<lparr>c_locked := True\<rparr>) (after_body sq c)"
  using client_body [of "c\<lparr>c_locked := True\<rparr>" sq os_ok 0] assms by (simp add: after_body_def)

lemma body_step:
  "c_popped c = Some sq \<Longrightarrow> \<not> holds_state_mutex (c_api c) \<Longrightarrow> quiet_steps c (after_body sq c)"
  by (blast intro: rtranclp.rtrancl_into_rtrancl lock_step body_locked)

lemma unat_Suc_le: "unat (n + 1 :: size_t) \<le> unat n + 1"
  using unat_word_ariths(1) [of n 1] by simp

lemma body_retries:
  "(case s_retry_count (send_handler_body a now sq s) x of None \<Rightarrow> 0 | Some n \<Rightarrow> unat n) \<le>
   (case s_retry_count s x of None \<Rightarrow> 0 | Some n \<Rightarrow> unat n) + 1"
  using unat_Suc_le
  by (auto simp: send_handler_body_def send_handler_cleanup_def give_up_def transmit_def Let_def
      map_emplace_apply split: option.splits)

lemma keeps_body: "keeps 1 c (after_body sq c)"
  using body_retries by (simp add: keeps_def retries_def api_moves_def)

lemma at_work_locked: "at_work hist lo c \<Longrightarrow> at_work hist lo (c\<lparr>c_locked := True\<rparr>)"
  by (auto simp: at_work_def client_inv_def)

lemma body_other:
  assumes "at_work hist lo c" "c_popped c = Some sq" "sq \<noteq> lo" "\<not> retries_used (c_sender c) sq"
  shows "at_work hist lo (after_body sq c)"
proof (rule at_work_step [OF _ body_locked [OF assms(2)]])
  show "\<not> holds_state_mutex (c_api c)" "at_work hist lo (c\<lparr>c_locked := True\<rparr>)"
    using assms(1) at_work_locked by (auto simp: at_work_def)
  let ?s = "c_sender c" and ?s' = "send_handler_body os_ok 0 sq (c_sender c)"
  have win: "lower_bound (s_window ?s) < upper_bound (s_window ?s)" "s_running ?s" "\<not> retries_used ?s lo"
    using assms(1) by (auto simp: at_work_def outstanding_def)
  have "s_running ?s' \<and> \<not> retries_used ?s' lo"
    using assms(4) win(1)
    by (cases rule: body_cases [of ?s sq os_ok 0])
      (use win(2,3) assms(3) in \<open>auto simp: frame_simps retries_used_def transmit_frame\<close>)
  then show "s_running (c_sender (after_body sq c))"
    "\<not> retries_used (c_sender (after_body sq c)) lo" by simp_all
qed (use assms(1) in \<open>simp_all add: at_work_def\<close>)

lemma at_work_cleaned:
  assumes "at_work hist lo c" "c_popped c = Some sq" "sq \<noteq> lo"
    and "send_handler_body os_ok 0 sq (c_sender c) = send_handler_cleanup sq (c_sender c)"
  shows "at_work hist lo (after_body sq c)"
proof -
  have "at_work hist lo (c\<lparr>c_locked := True\<rparr>)" "\<not> holds_state_mutex (c_api c)"
    using assms(1) at_work_locked by (auto simp: at_work_def)
  from at_work_step [OF this(1) body_locked [OF assms(2) this(2)]] assms show ?thesis
    by (auto simp: at_work_def frame_simps retries_used_def)
qed

lemma body_posts:
  assumes "at_work hist lo c" "c_popped c = Some lo" "reserved_of (c_api c) = None"
  shows "posted hist lo (after_body lo c)"
proof -
  let ?s = "c_sender c"
  have out: "outstanding ?s lo" "\<not> retries_used ?s lo"
    and size: "length (to_bytes (hist ! sn lo)) \<le> unat (max_buf_size (s_channel ?s))"
    using assms(1) by (simp_all add: at_work_def)
  have inv: "sender_inv hist None (c_popped c) ?s" using at_work_inv [OF assms(1)] assms(3) by simp
  then obtain p where p: "s_packet_pool ?s lo = Some p"
    using out(1) by (fastforce simp: sender_inv_def none_lost_def stored_def)
  then have "in_hist hist p" "seq p = lo" using inv by (auto simp: sender_inv_def pool_ok_def)
  then have "p = hist ! sn lo" by (auto simp: in_hist_def)
  moreover have "lower_bound (s_window ?s) < upper_bound (s_window ?s)"
    using out(1) by (auto simp: outstanding_def)
  from out(2) this obtain n where n: "send_handler_body os_ok 0 lo ?s =
      transmit os_ok 0 lo (?s\<lparr>s_retry_count := (s_retry_count ?s)(lo \<mapsto> n)\<rparr>)"
    by (cases rule: body_cases [of ?s lo os_ok 0])
      (use out(1) in \<open>auto simp: outstanding_def not_less\<close>)
  ultimately show ?thesis
    using assms(1) p size transmit_posts [of "?s\<lparr>s_retry_count := (s_retry_count ?s)(lo \<mapsto> n)\<rparr>" lo p os_ok 0]
    by (simp add: posted_def at_work_def transmit_frame os_ok_def)
qed

text \<open>Whatever the send thread holds, after it the hands are idle or the packet is out.\<close>

lemma flush_popped:
  assumes "at_work hist lo c" "reserved_of (c_api c) = None" "\<not> c_locked c"
    and "\<forall>sq. c_popped c = Some sq \<longrightarrow> \<not> retries_used (c_sender c) sq"
  obtains c' where "quiet_steps c c'" "posted hist lo c' \<or> at_work hist lo c' \<and> idle_hands c'" "keeps 1 c c'"
proof (cases "c_popped c")
  case None
  with assms show ?thesis by (intro that [of c]) (simp_all add: idle_hands_def)
next
  case (Some sq)
  let ?c = "after_body sq c"
  have st: "quiet_steps c ?c" using body_step [OF Some] assms(1) by (simp add: at_work_def)
  show ?thesis
  proof (cases "sq = lo")
    case True
    with body_posts [OF assms(1)] Some assms(2) st keeps_body show ?thesis by (intro that [of ?c]) simp_all
  next
    case False
    with body_other [OF assms(1) Some] Some assms(2,4) st keeps_body show ?thesis
      by (intro that [of ?c]) (simp_all add: idle_hands_def)
  qed
qed

text \<open>A number the timer holds comes back into the queue.\<close>

lemma requeue:
  assumes "at_work hist lo c" "idle_hands c"
  obtains c' where "quiet_steps c c'" "at_work hist lo c'" "idle_hands c'"
    "lo \<in> container (s_pending_queue (c_sender c'))" "keeps 0 c c'"
proof (cases "lo \<in> container (s_pending_queue (c_sender c))")
  case True
  with assms show ?thesis by (intro that [of c]) simp_all
next
  case False
  let ?s = "c_sender c"
  have inv: "sender_inv hist None None ?s"
    using at_work_inv [OF assms(1)] assms(2) by (simp add: idle_hands_def)
  have t: "timer_inv (s_timer ?s)" using inv by (simp add: sender_inv_def)
  have "lo \<in> pending (s_timer ?s)"
    using inv assms(1) False by (auto simp: sender_inv_def none_lost_def tracked_def at_work_def)
  moreover define clk where "clk = (\<lambda>k :: nat. case registered_events (s_timer ?s) lo of None \<Rightarrow> 0 | Some tp \<Rightarrow> tp)"
  ultimately have out: "lo \<in> timed_out_events (snd (thread_turn clk (s_timer ?s)))"
    using due_expires [OF t, of lo _ clk] timed_out_turn [of lo "s_timer ?s" clk]
    by (auto simp: pending_def)
  let ?s1 = "sender_timer_turn clk ?s"
  let ?c1 = "c\<lparr>c_sender := ?s1\<rparr>"
  have st1: "client_step Works c ?c1" by (rule client_timer)
  have w1: "at_work hist lo ?c1"
    using assms(1) by (intro at_work_step [OF assms(1) st1])
      (simp_all add: at_work_def sender_timer_turn_def retries_used_def)
  obtain order where order: "set order = timed_out_events (s_timer ?s1)" "distinct order"
    using finite_distinct_list [of "timed_out_events (s_timer ?s1)"] by auto
  let ?s2 = "timeout_handler_iter order ?s1"
  let ?c2 = "?c1\<lparr>c_sender := ?s2\<rparr>"
  have st2: "client_step Works ?c1 ?c2"
    using client_timeout [of order ?c1] order by simp
  have w2: "at_work hist lo ?c2"
    using w1 by (intro at_work_step [OF w1 st2])
      (auto simp: at_work_def timeout_handler_iter_def retries_used_def split: prod.splits)
  have "lo \<in> timed_out_events (s_timer ?s1)" using out by (simp add: sender_timer_turn_def)
  then have "lo \<in> container (s_pending_queue ?s2)"
    using order by (auto simp: timeout_handler_iter_def has_timed_out_def map_timed_out_events_def container_unsafe_pushes)
  moreover have "idle_hands ?c2" using assms(2) by (simp add: idle_hands_def)
  moreover have "quiet_steps c ?c2" using st1 st2 by auto
  moreover have "keeps 0 c ?c2"
    by (rule keeps_same) (simp_all add: timeout_handler_iter_def sender_timer_turn_def split: prod.splits)
  ultimately show ?thesis using w2 by (intro that [of ?c2]) simp_all
qed

lemma card_without:
  assumes "P x" "x \<in> A" "finite A"
  shows "card {y \<in> A - {x}. P y} < card {y \<in> A. P y}"
proof -
  have eq: "{y \<in> A - {x}. P y} = {y \<in> A. P y} - {x}" by blast
  show ?thesis unfolding eq by (rule card_Diff1_less) (use assms in simp_all)
qed

text \<open>The numbers before it are popped and cleaned up, then it is its turn.\<close>

lemma post_queued:
  assumes "at_work hist lo c" "idle_hands c" "lo \<in> container (s_pending_queue (c_sender c))"
  shows "\<exists>c'. quiet_steps c c' \<and> posted hist lo c' \<and> keeps 1 c c'"
  using assms
proof (induction "card {x \<in> container (s_pending_queue (c_sender c)). x < lo}" arbitrary: c rule: less_induct)
  case less
  let ?s = "c_sender c" and ?q = "s_pending_queue (c_sender c)"
  have fin: "queue_inv ?q" by (simp add: queue_inv_def)
  obtain x where x: "x \<in> container ?q" "queue_wait_pop ?q = (Some x, ?q\<lparr>container := container ?q - {x}\<rparr>)"
    "x \<le> lo"
    using less.prems(3) fin by (cases ?q rule: queue_wait_pop_cases) auto
  let ?s1 = "?s\<lparr>s_pending_queue := ?q\<lparr>container := container ?q - {x}\<rparr>\<rparr>"
  let ?c1 = "c\<lparr>c_popped := Some x, c_sender := ?s1\<rparr>"
  have st1: "client_step Works c ?c1"
    using less.prems(1,2) x(2)
    by (intro client_pop) (simp_all add: at_work_def idle_hands_def send_handler_pop_def)
  have w1: "at_work hist lo ?c1"
    using less.prems(1) by (intro at_work_step [OF less.prems(1) st1]) (simp_all add: at_work_def retries_used_def)
  have res: "reserved_of (c_api ?c1) = None" using less.prems(2) by (simp add: idle_hands_def)
  let ?s2 = "send_handler_body os_ok 0 x ?s1"
  let ?c2 = "after_body x ?c1"
  have st2: "quiet_steps c ?c2"
    using st1 body_step [of ?c1 x] w1 by (auto simp: at_work_def intro: converse_rtranclp_into_rtranclp)
  show ?case
  proof (cases "x = lo")
    case True
    then have "posted hist lo ?c2" using body_posts [OF w1 _ res] by simp
    moreover have "keeps 1 c ?c2"
      using keeps_trans0 [OF _ keeps_body, of c ?c1] by (simp add: keeps_same)
    ultimately show ?thesis using st2 by blast
  next
    case False
    then have lt: "x < lower_bound (s_window ?s1)"
      using x(3) less.prems(1) by (auto simp: at_work_def)
    then have s2: "?s2 = send_handler_cleanup x ?s1" by (simp add: send_handler_body_def)
    have w2: "at_work hist lo ?c2" by (rule at_work_cleaned [OF w1 _ False]) (simp_all add: s2)
    have q2: "container (s_pending_queue (c_sender ?c2)) = container ?q - {x}"
      by (simp add: s2 frame_simps)
    have "x < lo" using x(3) False by simp
    then have "card {y \<in> container (s_pending_queue (c_sender ?c2)). y < lo} < card {y \<in> container ?q. y < lo}"
      unfolding q2 by (rule card_without [OF _ x(1)]) simp
    moreover have "idle_hands ?c2" using res by (simp add: idle_hands_def)
    moreover have "lo \<in> container (s_pending_queue (c_sender ?c2))" using q2 less.prems(3) False by simp
    ultimately obtain c' where c': "quiet_steps ?c2 c'" "posted hist lo c'" "keeps 1 ?c2 c'"
      using less.hyps w2 by blast
    have "keeps 0 c ?c2"
      by (simp add: keeps_def api_moves_def retries_def s2 send_handler_cleanup_def Let_def split: option.splits)
    from keeps_trans0 [OF this c'(3)] c'(1,2) st2 show ?thesis by (blast intro: rtranclp_trans)
  qed
qed

lemma can_post:
  assumes "at_work hist lo c" "\<not> c_locked c"
    and "\<forall>sq. c_popped c = Some sq \<longrightarrow> \<not> retries_used (c_sender c) sq"
  obtains c' where "quiet_steps c c'" "posted hist lo c'" "keeps 2 c c'"
proof -
  obtain c1 where c1: "quiet_steps c c1" "at_work hist lo c1" "reserved_of (c_api c1) = None"
    "\<not> c_locked c1" "c_popped c1 = c_popped c" "s_retry_count (c_sender c1) = s_retry_count (c_sender c)"
    "s_max_retry_count (c_sender c1) = s_max_retry_count (c_sender c)" "keeps 0 c c1"
    by (rule enter_reserved [OF assms(1,2)])
  then have "\<forall>sq. c_popped c1 = Some sq \<longrightarrow> \<not> retries_used (c_sender c1) sq"
    using assms(3) by (simp add: retries_used_def)
  from flush_popped [OF c1(2-4) this] obtain c2 where c2: "quiet_steps c1 c2"
    "posted hist lo c2 \<or> at_work hist lo c2 \<and> idle_hands c2" "keeps 1 c1 c2" by blast
  have k2: "keeps 1 c c2" by (rule keeps_trans0 [OF c1(8) c2(3)])
  from c2(2) show ?thesis
  proof
    assume "posted hist lo c2"
    with c1(1) c2(1) keeps_mono [OF k2, of 2] show ?thesis by (intro that [of c2]) auto
  next
    assume "at_work hist lo c2 \<and> idle_hands c2"
    then obtain c3 where c3: "quiet_steps c2 c3" "at_work hist lo c3" "idle_hands c3"
      "lo \<in> container (s_pending_queue (c_sender c3))" "keeps 0 c2 c3" by (blast elim: requeue)
    obtain c4 where "quiet_steps c3 c4" "posted hist lo c4" "keeps 1 c3 c4"
      using post_queued [OF c3(2-4)] by blast
    moreover from this have "keeps 2 c c4"
      using keeps_trans [OF k2 keeps_trans0 [OF c3(5)]] by (simp add: numeral_2_eq_2)
    moreover have "quiet_steps c c3" using c1(1) c2(1) c3(1) by (blast intro: rtranclp_trans)
    ultimately show ?thesis by (blast intro: that rtranclp_trans)
  qed
qed

end
