(* ===== verification/Progress.thy ===== *)
theory Progress
  imports Posting
begin

text \<open>
  The system is never stuck: as long as the retries last, the threads and the network can
  always go on so that the packet at the lower bound of the sender's window is acknowledged
  and the window moves. After Posting, which brings the packet onto the network, come the
  answer of the receiver and its handling.
\<close>

subsection \<open>The shape of the receiver, and the lower bound of the sender\<close>

text \<open>An open receiver knows its peer, and its window has the configured width. In selective
  repeat the sender's lower bound is not acknowledged. The send thread holds its mutexes only
  for a number it has popped.\<close>

definition receiver_shape :: "Receiver \<Rightarrow> bool" where
  "receiver_shape r \<longleftrightarrow>
     (r_state r \<noteq> RIdle \<longrightarrow> r_peer_addr r \<noteq> None) \<and>
     r_window_second r = r_window_first r + SequenceNumber (ucast (r_max_window_size r))"

definition slid :: "Sender \<Rightarrow> bool" where
  "slid s \<longleftrightarrow> (s_selective_repeat s \<longrightarrow> lower_bound (s_window s) \<notin> s_acked_seq_set s)"

definition lock_ok :: "Client \<Rightarrow> bool" where
  "lock_ok c \<longleftrightarrow> (c_locked c \<longrightarrow> c_popped c \<noteq> None)"

definition shape_inv :: "System \<Rightarrow> bool" where
  "shape_inv y \<longleftrightarrow> receiver_shape (y_receiver y) \<and> slid (y_sender y) \<and> lock_ok (y_client y)"

lemma update_seq_plus: "update_seq a + b = update_seq (a + b)"
  by (simp add: update_seq_def plus_SequenceNumber_def add_ac)

lemma slide_buffer_width:
  "slide_buffer buf first (first + w) os = (buf', first', second', os') \<Longrightarrow> second' = first' + w"
  by (induction buf arbitrary: first os) (auto simp: update_seq_plus [symmetric] split: if_splits)

lemma recv_deliver_width:
  "r_window_second r = r_window_first r + w \<Longrightarrow>
     r_window_second (recv_deliver p r) = r_window_first (recv_deliver p r) + w"
  by (auto simp: recv_deliver_def dest: slide_buffer_width split: prod.splits)

lemma receiver_shape_turn:
  assumes "recv_packet a p addr r = Inr (ctl, r')" "receiver_shape r"
  shows "receiver_shape r'"
  using assms(1)
proof (cases rule: recv_packet_cases)
  case ack
  with assms(2) show ?thesis by simp
next
  case (dropped k)
  with assms(2) show ?thesis by (simp add: receiver_shape_def drop_packet_frame)
next
  case (accepted k)
  let ?r = "fst (recv_switch p addr r)"
  have "r_window_second ?r = r_window_first ?r + SequenceNumber (ucast (r_max_window_size r))"
    using assms(2) by (auto simp: receiver_shape_def recv_switch_def split: ReceiverState.splits)
  then have "r_window_second r' = r_window_first r' + SequenceNumber (ucast (r_max_window_size r'))"
    unfolding accepted(3) accept_packet_frame
    by (simp add: accept_packet_def Let_def frame_simps recv_deliver_width)
  moreover have "r_state r' \<noteq> RIdle \<longrightarrow> r_peer_addr r' \<noteq> None"
    using assms(2) unfolding accepted(3) accept_packet_frame recv_switch_state
    by (auto simp: receiver_shape_def opens_def split: ReceiverState.splits)
  ultimately show ?thesis by (simp add: receiver_shape_def)
qed

lemma slide_acked_stops: "slide_acked A w = (A', w') \<Longrightarrow> lower_bound w' \<notin> A'"
proof (induction A w rule: slide_acked.induct)
  case (1 A w)
  then show ?case by (auto simp: slide_acked.simps [of A w] split: if_splits)
qed

lemma slid_acked: "s_selective_repeat s \<Longrightarrow> slid (recv_handler_acked p s)"
  by (auto simp: slid_def recv_handler_acked_def dest: slide_acked_stops split: prod.splits)

lemma slid_step:
  assumes "client_step l c c'" "slid (c_sender c)"
  shows "slid (c_sender c')"
proof -
  have mode: "s_selective_repeat (c_sender c') = s_selective_repeat (c_sender c)"
    using same_config_max [OF client_step_config [OF assms(1)]] by simp
  from client_step_acks [OF assms(1)] show ?thesis
  proof
    assume "same_acks (c_sender c) (c_sender c')"
    with mode assms(2) show ?thesis by (simp add: slid_def same_acks_def)
  next
    assume "\<exists>p. c_got c = Some p \<and> c_got c' = None \<and> c_hist c' = c_hist c \<and>
      c_sender c' = recv_handler_acked p (c_sender c)"
    with mode slid_acked show ?thesis by (auto simp: slid_def)
  qed
qed

lemma lock_ok_step: "client_step l c c' \<Longrightarrow> lock_ok c \<Longrightarrow> lock_ok c'"
  by (induction rule: client_step.induct) (auto simp: lock_ok_def)

lemma shape_step: "sys_step y y' \<Longrightarrow> shape_inv y \<Longrightarrow> shape_inv y'"
proof (induction rule: sys_step.induct)
  case (sys_client l y c)
  then show ?case by (auto simp: shape_inv_def intro: slid_step lock_ok_step)
next
  case (sys_receiver y d a ctl r)
  have "receiver_shape r"
    using sys_receiver(4)
  proof (cases rule: recv_iter_cases)
    case quiet
    with sys_receiver(5) show ?thesis by (auto simp: shape_inv_def receiver_shape_def)
  next
    case (packet p bs addr)
    with sys_receiver(5) show ?thesis by (auto simp: shape_inv_def intro: receiver_shape_turn)
  qed
  with sys_receiver(5) show ?case by (simp add: shape_inv_def)
qed

lemma shape_start: "sys_start y \<Longrightarrow> shape_inv y"
  by (auto simp: sys_start_def shape_inv_def lock_ok_def receiver_shape_def slid_def recv_start_def sender_init_def
      sender_fresh_def plus_SequenceNumber_def)

interpretation shape: invariant_system sys_start sys_step shape_inv "\<lambda>y. True"
  by unfold_locales (blast intro: shape_start shape_step)+

subsection \<open>The receiver answers\<close>

lemma lower_le_first:
  assumes "session_inv y" "y_base y = Some 0" "r_state (y_receiver y) \<noteq> RIdle"
  shows "lower_bound (s_window (y_sender y)) \<le> r_window_first (y_receiver y)"
proof (cases "r_selective_repeat (y_receiver y)")
  case True
  have "\<not> received (y_receiver y) (r_window_first (y_receiver y))"
    using assms by (auto simp: session_inv_def unblocked_def received_def)
  with assms(1) True show ?thesis
    by (auto simp: session_inv_def acks_true_def not_less [symmetric])
next
  case False
  with assms(1) show ?thesis by (simp add: session_inv_def acks_true_def)
qed

text \<open>An acknowledgement that moves the window past \<open>lo\<close>.\<close>

definition moves_past :: "SequenceNumber \<Rightarrow> bool \<Rightarrow> SequenceNumber \<Rightarrow> bool" where
  "moves_past lo sr sq \<longleftrightarrow> (if sr then sq = lo else lo < sq)"

lemma length_ack [simp]: "length (to_bytes (ack_packet k sq)) = 12"
  by (simp add: length_to_bytes reserve_size_def)

lemma reply_ack_posts:
  assumes "r_peer_addr r \<noteq> None" "12 \<le> unat (max_buf_size (r_channel r))"
  shows "to_bytes (ack_packet k sq) \<in> snd ` set (outbox (r_channel (reply_ack os_ok k sq r)))"
proof -
  obtain peer where "r_peer_addr r = Some peer" using assms(1) by auto
  with assms(2) show ?thesis
    by (simp add: reply_ack_def outbox_send os_ok_def flip: ack_packet_def)
qed

lemma receiver_answers:
  assumes hist: "numbered hist" "buffer_ok hist (r_recv_buffer r)" "sn (r_window_first r) \<le> length hist"
    and p: "in_hist hist p" "get_ack_kind (kind p) \<noteq> None"
    and opn: "r_state r \<noteq> RIdle" "unblocked r" "receiver_shape r"
    and room: "0 < unat (r_max_window_size r) mod 4294967296"
      "length hist + unat (r_max_window_size r) mod 4294967296 < 4294967296"
    and le: "seq p \<le> r_window_first r" and size: "12 \<le> unat (max_buf_size (r_channel r))"
  obtains ctl r' k sq where "recv_packet os_ok p addr r = Inr (ctl, r')"
    "to_bytes (ack_packet k sq) \<in> snd ` set (outbox (r_channel r'))"
    "kind_ok k" "is_ack (ack_packet k sq)" "moves_past (seq p) (r_selective_repeat r) sq"
proof -
  have no_ack: "\<not> is_ack p" using p(2) by (auto simp: is_ack_def get_ack_kind_def)
  then obtain ctl r' where turn: "recv_packet os_ok p addr r = Inr (ctl, r')"
    using p(2) recv_packet_fault [of os_ok p addr r] by (metis sum.exhaust surj_pair)
  let ?k = "SequenceNumber (ucast (r_max_window_size r))"
  have "sn ?k = unat (r_max_window_size r) mod 4294967296"
    by (simp add: sn_def unsigned_ucast_eq take_bit_eq_mod)
  then have "sn (r_window_second r) = sn (r_window_first r) + unat (r_max_window_size r) mod 4294967296"
    using opn(3) room hist(3)
    by (simp add: receiver_shape_def sn_def plus_SequenceNumber_def unat_u32_add)
  then have below: "\<not> r_window_second r \<le> seq p" using le room(1) by (simp add: seq_le_iff)
  have peer: "r_peer_addr r \<noteq> None" using opn(1,3) by (simp add: receiver_shape_def)
  from turn show ?thesis
  proof (cases rule: recv_packet_cases)
    case ack
    with no_ack show ?thesis by simp
  next
    case (dropped k)
    then have lt: "seq p < r_window_first r" using below by (simp add: dropped_def)
    then have "r' = reply_ack os_ok k (ack_seq p r) r" using dropped(4) by (simp add: drop_packet_def)
    with reply_ack_posts [OF peer size] turn get_ack_kind_is_ack [OF dropped(1)] lt show ?thesis
      by (intro that [of ctl r' k "ack_seq p r"]) (auto simp: moves_past_def ack_seq_def)
  next
    case (accepted k)
    have no_open: "\<not> opens p r" using opn(1) by (simp add: opens_def)
    have first: "seq p = r_window_first r"
      using accepted(2) opn(1) le by (auto simp: dropped_def not_less)
    note spec = accept_packet_spec [OF hist(1,2) p(1) hist(3) accepted(3)]
    have unb: "unblocked r'"
      using opn(1,2) by (intro recv_packet_unblocked [OF hist(1,2) p(1) turn]) simp
    have t: "turn_first p r = seq p" using no_open first by (simp add: turn_first_def)
    have "seq p < r_window_first r'"
    proof (rule ccontr)
      assume "\<not> seq p < r_window_first r'"
      then have "seq p \<in> seq ` set (r_recv_buffer r')" using spec(5) by (auto simp: seq_less_iff)
      then have "r_window_first r' < seq p" using unb by (auto simp: unblocked_def)
      with spec(1) t show False by (simp add: seq_less_iff)
    qed
    then have "moves_past (seq p) (r_selective_repeat r) (ack_seq p r')"
      using accepted(3) by (simp add: moves_past_def ack_seq_def accept_packet_frame)
    moreover have "to_bytes (ack_packet k (ack_seq p r')) \<in> snd ` set (outbox (r_channel r'))"
    proof -
      let ?r = "recv_deliver p (fst (recv_switch p addr r))"
      have "ack_seq p r' = ack_seq p ?r"
        by (simp add: accepted(3) accept_packet_def Let_def ack_seq_def frame_simps)
      moreover have "r' = reply_ack os_ok k (ack_seq p ?r) ?r"
        by (simp add: accepted(3) accept_packet_def Let_def)
      moreover have "r_peer_addr ?r \<noteq> None" "12 \<le> unat (max_buf_size (r_channel ?r))"
        using peer size by (simp_all add: frame_simps)
      ultimately show ?thesis using reply_ack_posts by simp
    qed
    ultimately show ?thesis
      using turn get_ack_kind_is_ack [OF accepted(1)] by (intro that) auto
  qed
qed

subsection \<open>The sender handles the answer\<close>

lemma acked_moves:
  assumes "moves_past (lower_bound (s_window s)) (s_selective_repeat s) (seq p)" "acked_ok s"
    and "lower_bound (s_window s) < upper_bound (s_window s)"
  shows "lower_bound (s_window s) < lower_bound (s_window (recv_handler_acked p s))"
proof (cases "s_selective_repeat s")
  case True
  then have p: "seq p = lower_bound (s_window s)" using assms(1) by (simp add: moves_past_def)
  let ?A = "insert (seq p) (s_acked_seq_set s)"
  obtain A' w' where sl: "slide_acked ?A (s_window s) = (A', w')" by (metis surj_pair)
  have "\<forall>x \<in> ?A. x < upper_bound (s_window s)" using assms(2,3) p by (simp add: acked_ok_def)
  note spec = slide_acked_spec [OF sl this order_less_imp_le [OF assms(3)]]
  have "lower_bound w' \<noteq> lower_bound (s_window s)" using spec p by auto
  moreover have "s_window (recv_handler_acked p s) = w'"
    using sl True by (simp add: recv_handler_acked_def)
  ultimately show ?thesis using spec by (simp add: order_le_less)
next
  case False
  with assms(1) show ?thesis by (simp add: gbn_lower moves_past_def less_max_iff_disj)
qed

lemma enter_frame [simp]:
  "s_window (enter_state st s) = s_window s"
  "s_selective_repeat (enter_state st s) = s_selective_repeat s"
  "s_acked_seq_set (enter_state st s) = s_acked_seq_set s"
  by (simp_all add: enter_state_def)

text \<open>Entering a state that is decided, then handling the packet in hand.\<close>

lemma finish_enter:
  assumes "\<not> holds_state_mutex (c_api c)"
  obtains c' s where "quiet_steps c c'" "c' = c\<lparr>c_enter := None, c_sender := s\<rparr>"
    "s = c_sender c \<or> (\<exists>st. s = enter_state st (c_sender c))"
proof (cases "c_enter c")
  case None
  then have "c = c\<lparr>c_enter := None, c_sender := c_sender c\<rparr>" by simp
  then show ?thesis by (intro that [of c "c_sender c"]) simp_all
next
  case (Some st)
  from r_into_rtranclp [of "client_step Works", OF client_enter [OF Some assms]] show ?thesis
    by (rule that [of _ "enter_state st (c_sender c)"]) auto
qed

lemma quiet_sys: "quiet_steps (y_client y) c \<Longrightarrow> sys_step\<^sup>*\<^sup>* y (y\<lparr>y_client := c\<rparr>)"
proof (induction rule: rtranclp_induct)
  case base
  have "y\<lparr>y_client := y_client y\<rparr> = y" by simp
  then show ?case by simp
next
  case (step c c')
  have "sys_step (y\<lparr>y_client := c\<rparr>) (y\<lparr>y_client := c'\<rparr>)"
    using sys_client [of Works "y\<lparr>y_client := c\<rparr>" c'] step.hyps(2) by simp
  with step.IH show ?case by (rule rtranclp.rtrancl_into_rtrancl)
qed

lemma acked_keeps:
  "s_retry_count (recv_handler_acked p s) = s_retry_count s"
  "s_max_retry_count (recv_handler_acked p s) = s_max_retry_count s"
  "s_running (recv_handler_acked p s) = s_running s"
  by (simp_all add: recv_handler_acked_def duplicate_ack_def Let_def split: prod.splits)

lemma acked_lower:
  assumes "lower_bound (s_window (c_sender c)) = lo" "moves_past lo (s_selective_repeat (c_sender c)) (seq p)"
    and "acked_ok (c_sender c)" "lo < upper_bound (s_window (c_sender c))" "c_got c = Some p"
    "\<not> holds_state_mutex (c_api c)" "\<not> c_locked c"
  obtains c' where "quiet_steps c c'" "lo < lower_bound (s_window (c_sender c'))"
    "keeps 0 c c'" "c_hist c' = c_hist c" "s_running (c_sender c') = s_running (c_sender c)"
proof -
  obtain c1 s where c1: "quiet_steps c c1" "c1 = c\<lparr>c_enter := None, c_sender := s\<rparr>"
    and s: "s = c_sender c \<or> (\<exists>st. s = enter_state st (c_sender c))"
    by (rule finish_enter [OF assms(6)])
  let ?c = "c1\<lparr>c_got := None, c_sender := recv_handler_acked p (c_sender c1)\<rparr>"
  have "client_step Works c1 ?c" using assms(5,7) by (intro client_acked) (simp_all add: c1(2))
  then have "quiet_steps c ?c" using c1(1) by (blast intro: rtranclp.rtrancl_into_rtrancl)
  moreover have "lo < lower_bound (s_window (c_sender ?c))"
    using acked_moves [of s p] assms(1-4) s by (auto simp: c1(2) acked_ok_def)
  moreover have "keeps 0 c ?c" "s_running (c_sender ?c) = s_running (c_sender c)"
    using s by (auto intro!: keeps_same simp: c1(2) acked_keeps enter_state_def)
  ultimately show ?thesis by (intro that [of ?c]) (simp_all add: c1(2))
qed

lemma take_answer:
  assumes c: "c_got (y_client y) = None" "s_running (y_sender y)" "\<not> holds_state_mutex (c_api (y_client y))"
      "\<not> c_locked (y_client y)"
    and past: "moves_past (lower_bound (s_window (y_sender y))) (s_selective_repeat (y_sender y)) (seq p)"
    and "acked_ok (y_sender y)" "lower_bound (s_window (y_sender y)) < upper_bound (s_window (y_sender y))"
    and p: "packet_ok p" "length (to_bytes p) \<le> unat (max_buf_size (s_channel (y_sender y)))"
    and sent: "to_bytes p \<in> snd ` set (outbox (r_channel (y_receiver y)))"
  obtains c where "sys_step\<^sup>*\<^sup>* y (y\<lparr>y_client := c\<rparr>)"
    "lower_bound (s_window (y_sender y)) < lower_bound (s_window (c_sender c))"
    "keeps 0 (y_client y) c" "c_hist c = y_hist y" "s_running (c_sender c)"
proof -
  let ?d = "RecvDatagram (to_bytes p) addr_zero" and ?s = "y_sender y"
  have recv: "recv_handler_recv ?d ?s = Inr (Some p, ?s)"
    using p by (simp add: recv_handler_recv_def socket_recv_def decode_encode_ok)
  have del: "deliverable (r_channel (y_receiver y)) (s_channel ?s) ?d"
    using sent by (simp add: deliverable_def)
  let ?c = "(y_client y)\<lparr>c_got := Some p,
    c_enter := Option.bind (Some p) (\<lambda>p. recv_handler_switch p ?s), c_sender := ?s\<rparr>"
  have "client_step (Hears ?d) (y_client y) ?c" by (rule client_receive [OF c(1) recv])
  then have step: "sys_step y (y\<lparr>y_client := ?c\<rparr>)"
    using del by (intro sys_client) auto
  obtain c' where c': "quiet_steps ?c c'"
    "lower_bound (s_window ?s) < lower_bound (s_window (c_sender c'))"
    "keeps 0 ?c c'" "c_hist c' = y_hist y" "s_running (c_sender c') = s_running (y_sender y)"
    using acked_lower [of ?c "lower_bound (s_window ?s)" p] assms(3-7) by auto
  have "sys_step\<^sup>*\<^sup>* (y\<lparr>y_client := ?c\<rparr>) (y\<lparr>y_client := c'\<rparr>)"
    using quiet_sys [of "y\<lparr>y_client := ?c\<rparr>" c'] c'(1) by simp
  with step have "sys_step\<^sup>*\<^sup>* y (y\<lparr>y_client := c'\<rparr>)" by (rule converse_rtranclp_into_rtranclp)
  moreover have "keeps 0 (y_client y) c'"
    using keeps_trans0 [OF _ c'(3), of "y_client y"] by (simp add: keeps_same)
  ultimately show ?thesis using c'(2,4,5) c(2) by (intro that) simp_all
qed

subsection \<open>Progress\<close>

text \<open>What the packet needs to get through: threads and receiver run, and retries are left.\<close>

definition can_retry :: "Client \<Rightarrow> bool" where
  "can_retry c \<longleftrightarrow>
     (\<forall>sq n. (sq = lower_bound (s_window (c_sender c)) \<or> c_popped c = Some sq) \<and>
        s_retry_count (c_sender c) sq = Some n \<longrightarrow> n < s_max_retry_count (c_sender c))"

definition link_up :: "System \<Rightarrow> bool" where
  "link_up y \<longleftrightarrow>
     s_running (y_sender y) \<and> r_running (y_receiver y) \<and> \<not> y_done y \<and>
     r_state (y_receiver y) \<noteq> RIdle \<and> \<not> holds_state_mutex (c_api (y_client y)) \<and> \<not> c_locked (y_client y) \<and>
     0 < unat (r_max_window_size (y_receiver y)) mod 4294967296 \<and>
     length (y_hist y) + unat (r_max_window_size (y_receiver y)) mod 4294967296 < 4294967296"

lemma acked_mono:
  assumes "ack_in_range p s" "acked_ok s" "lower_bound (s_window s) \<le> upper_bound (s_window s)"
  shows "lower_bound (s_window s) \<le> lower_bound (s_window (recv_handler_acked p s))"
proof (cases "s_selective_repeat s")
  case True
  let ?A = "insert (seq p) (s_acked_seq_set s)"
  obtain A' w' where sl: "slide_acked ?A (s_window s) = (A', w')" by (metis surj_pair)
  have "\<forall>x \<in> ?A. x < upper_bound (s_window s)"
    using assms(1,2) True by (simp add: acked_ok_def ack_in_range_def)
  from slide_acked_spec [OF sl this assms(3)] sl True show ?thesis
    by (simp add: recv_handler_acked_def)
qed (simp add: gbn_lower)

text \<open>The receive thread first finishes what it has in hand.\<close>

lemma finish_got:
  assumes "client_inv c" "\<forall>p. c_got c = Some p \<longrightarrow> ack_in_range p (c_sender c)"
    and "\<not> holds_state_mutex (c_api c)" "\<not> c_locked c"
  obtains c' s where "quiet_steps c c'" "c' = c\<lparr>c_got := None, c_enter := None, c_sender := s\<rparr>"
    "s_retry_count s = s_retry_count (c_sender c)" "s_max_retry_count s = s_max_retry_count (c_sender c)"
    "s_running s = s_running (c_sender c)"
    "lower_bound (s_window (c_sender c)) \<le> lower_bound (s_window s)"
proof -
  obtain c1 s where c1: "quiet_steps c c1" "c1 = c\<lparr>c_enter := None, c_sender := s\<rparr>"
    and s: "s = c_sender c \<or> (\<exists>st. s = enter_state st (c_sender c))"
    by (rule finish_enter [OF assms(3)])
  then have keep: "s_retry_count s = s_retry_count (c_sender c)" "s_window s = s_window (c_sender c)"
    "s_max_retry_count s = s_max_retry_count (c_sender c)" "s_running s = s_running (c_sender c)"
    "s_acked_seq_set s = s_acked_seq_set (c_sender c)"
    "s_selective_repeat s = s_selective_repeat (c_sender c)"
    by (auto simp: enter_state_def)
  show ?thesis
  proof (cases "c_got c")
    case None
    then have "c1 = c\<lparr>c_got := None, c_enter := None, c_sender := s\<rparr>" by (simp add: c1(2))
    with c1(1) keep show ?thesis by (intro that [of c1 s]) simp_all
  next
    case (Some p)
    let ?c = "c1\<lparr>c_got := None, c_sender := recv_handler_acked p (c_sender c1)\<rparr>"
    have "client_step Works c1 ?c" using Some assms(4) by (intro client_acked) (simp_all add: c1(2))
    then have "quiet_steps c ?c" using c1(1) by (blast intro: rtranclp.rtrancl_into_rtrancl)
    moreover have "lower_bound (s_window s) \<le> lower_bound (s_window (recv_handler_acked p s))"
      using assms Some keep
      by (intro acked_mono) (simp_all add: ack_in_range_def acked_ok_def client_inv_def sender_inv_def window_ok_def)
    ultimately show ?thesis
      using keep by (intro that [of ?c "recv_handler_acked p s"]) (simp_all add: c1(2) acked_keeps)
  qed
qed

lemma reach_session_inv:
  "sys_reach y \<Longrightarrow> length (y_hist y) < 4294967296 \<Longrightarrow> y_opened y \<le> 1 \<Longrightarrow> session_inv y"
  by (rule session.reach_inv) (simp_all add: session_bound_def sys_bound_def)

lemma session_parts:
  assumes "session_inv y"
  shows "client_inv (y_client y)" "window_ok (y_hist y) (y_sender y)" "acked_ok (y_sender y)"
    "receiver_inv (y_hist y) (y_receiver y)"
    "s_selective_repeat (y_sender y) = r_selective_repeat (y_receiver y)"
    "max_buf_size (s_channel (y_sender y)) = max_buf_size (r_channel (y_receiver y))"
    "c_got (y_client y) = Some p \<Longrightarrow> ack_in_range p (y_sender y)"
  using assms ack_known_range [of "y_hist y" "r_selective_repeat (y_receiver y)" p "y_sender y"]
  by (simp_all add: session_inv_def sys_inv_def client_inv_def sender_inv_def)

text \<open>What such a run keeps: the packets made, both ends running, the connection; it costs at most
  \<open>k\<close> retries of any number.\<close>

definition onward :: "nat \<Rightarrow> System \<Rightarrow> System \<Rightarrow> bool" where
  "onward k y y' \<longleftrightarrow>
     keeps k (y_client y) (y_client y') \<and> y_hist y' = y_hist y \<and> s_running (y_sender y') \<and>
     y_opened y' = y_opened y \<and> y_base y' = y_base y \<and> r_running (y_receiver y') \<and>
     (no_disconnect (y_hist y) \<longrightarrow> \<not> y_done y')"

lemma recv_packet_leaves:
  assumes "recv_packet a p addr r = Inr (ctl, r')"
  shows "r_running r' = r_running r" "ctl = LeaveLoop \<Longrightarrow> r_state r' = RIdle"
proof -
  have "r_running r' = r_running r \<and> (ctl = LeaveLoop \<longrightarrow> r_state r' = RIdle)"
    using assms
  proof (cases rule: recv_packet_cases)
    case (accepted k)
    then show ?thesis
      using assms by (auto simp: accept_packet_frame recv_packet_def Let_def frame_simps split: if_splits option.splits prod.splits)
  qed (auto simp: drop_packet_frame)
  then show "r_running r' = r_running r" "ctl = LeaveLoop \<Longrightarrow> r_state r' = RIdle" by auto
qed

text \<open>Once the packet is on the network it is answered and the window moves.\<close>

lemma progress_posted:
  assumes reach: "sys_reach y" "y_opened y \<le> 1" "y_base y = Some 0" and up: "link_up y"
    and posted: "posted (y_hist y) lo (y_client y)" "lo < upper_bound (s_window (y_sender y))"
    and size: "length (to_bytes (y_hist y ! sn lo)) \<le> unat (max_buf_size (s_channel (y_sender y)))"
  obtains y' where "sys_step\<^sup>*\<^sup>* y y'" "lo < lower_bound (s_window (y_sender y'))" "onward 0 y y'"
proof -
  let ?p = "y_hist y ! sn lo" and ?r = "y_receiver y"
  have len: "length (y_hist y) < 4294967296" using up by (simp add: link_up_def)
  have inv: "session_inv y" by (rule reach_session_inv [OF reach(1) len reach(2)])
  note parts = session_parts [OF inv]
  have lo: "lower_bound (s_window (y_sender y)) = lo" using posted(1) by (simp add: posted_def)
  have i: "sn lo < length (y_hist y)" "numbered (y_hist y)"
    using parts(2) posted(2) by (simp_all add: window_ok_def seq_less_iff)
  have p: "in_hist (y_hist y) ?p" "seq ?p = lo"
    using i in_hist_nth [OF i(2,1)] by (simp_all add: numbered_def seq_eq_iff del: sn_inject)
  have "?p \<in> set (y_hist y)" using i(1) by simp
  then have kind: "get_ack_kind (kind ?p) \<noteq> None" "packet_ok ?p"
    using parts(1) p(1) hist_ok_packet by (auto simp: client_inv_def hist_ok_def sendable_def)
  have "12 \<le> length (to_bytes ?p)" by (simp add: length_to_bytes reserve_size_def)
  then have size': "12 \<le> unat (max_buf_size (r_channel ?r))" using size parts(6) by simp
  have shp: "receiver_shape ?r"
    using shape.reach_inv [OF reach(1)] by (simp add: shape_inv_def)
  have on: "s_running (y_sender y)" "r_running ?r" "\<not> y_done y" "r_state ?r \<noteq> RIdle"
    "0 < unat (r_max_window_size ?r) mod 4294967296"
    "length (y_hist y) + unat (r_max_window_size ?r) mod 4294967296 < 4294967296"
    using up by (simp_all add: link_up_def)
  have le: "seq ?p \<le> r_window_first ?r"
    using lower_le_first [OF inv reach(3) on(4)] lo p(2) by simp
  have unb: "unblocked ?r" using inv reach(3) on(4) by (simp add: session_inv_def)
  have buf: "buffer_ok (y_hist y) (r_recv_buffer ?r)" "sn (r_window_first ?r) \<le> length (y_hist y)"
    using parts(4) by (simp_all add: receiver_inv_def)
  obtain ctl r k sq where turn: "recv_packet os_ok ?p addr_zero ?r = Inr (ctl, r)"
    and ack: "to_bytes (ack_packet k sq) \<in> snd ` set (outbox (r_channel r))"
    "kind_ok k" "moves_past (seq ?p) (r_selective_repeat ?r) sq"
    by (rule receiver_answers [OF i(2) buf p(1) kind(1) on(4) unb shp on(5,6) le size'])
  let ?d = "RecvDatagram (to_bytes ?p) addr_zero"
  have it: "recv_iter os_ok ?d ?r = Inr (ctl, r)"
    using turn size parts(6) kind(2)
    by (simp add: recv_iter_def socket_recv_def decode_encode_ok)
  have "deliverable (s_channel (y_sender y)) (r_channel ?r) ?d"
    using posted(1) by (simp add: posted_def deliverable_def)
  note step = sys_receiver [OF on(3,2) this it]
  define y1 where "y1 = y\<lparr>y_receiver := r, y_done := (ctl = LeaveLoop),
    y_opened := y_opened y + (if opened_at ?d ?r = None then 0 else 1),
    y_base := (if opened_at ?d ?r = None then y_base y else opened_at ?d ?r)\<rparr>"
  have y1: "y_client y1 = y_client y" "y_receiver y1 = r" "sys_step y y1"
    using step by (simp_all add: y1_def)
  obtain c where c: "sys_step\<^sup>*\<^sup>* y1 (y1\<lparr>y_client := c\<rparr>)" "lo < lower_bound (s_window (c_sender c))"
    "keeps 0 (y_client y) c" "c_hist c = y_hist y" "s_running (c_sender c)"
  proof (rule take_answer [of y1 "ack_packet k sq"])
    show "c_got (y_client y1) = None" "s_running (y_sender y1)" "\<not> holds_state_mutex (c_api (y_client y1))"
      "\<not> c_locked (y_client y1)"
      using posted(1) on(1) by (simp_all add: y1 posted_def)
    show "moves_past (lower_bound (s_window (y_sender y1))) (s_selective_repeat (y_sender y1)) (seq (ack_packet k sq))"
      using ack(3) p(2) lo parts(5) by (simp add: y1)
    show "acked_ok (y_sender y1)" "lower_bound (s_window (y_sender y1)) < upper_bound (s_window (y_sender y1))"
      using parts(3) posted(2) lo by (simp_all add: y1)
    show "packet_ok (ack_packet k sq)" using ack(2) by (simp add: packet_ok_def)
    show "length (to_bytes (ack_packet k sq)) \<le> unat (max_buf_size (s_channel (y_sender y1)))"
      using size' parts(6) by (simp add: y1)
    show "to_bytes (ack_packet k sq) \<in> snd ` set (outbox (r_channel (y_receiver y1)))"
      using ack(1) by (simp add: y1)
  qed (use that lo y1(1) in auto)
  from y1(3) c(1) have "sys_step\<^sup>*\<^sup>* y (y1\<lparr>y_client := c\<rparr>)" by (rule converse_rtranclp_into_rtranclp)
  moreover have "onward 0 y (y1\<lparr>y_client := c\<rparr>)"
  proof -
    have "opened_at ?d ?r = None"
      using on(4) by (simp add: opened_at_def opens_def split: option.splits)
    moreover have "ctl \<noteq> LeaveLoop" if "no_disconnect (y_hist y)"
      using recv_packet_leaves(2) [OF turn] recv_packet_connected [OF turn] on(4)
        in_hist_no_disconnect [OF p(1) that] by auto
    ultimately show ?thesis
      using c(3-5) recv_packet_leaves(1) [OF turn] on(2) by (simp add: onward_def y1_def)
  qed
  ultimately show ?thesis using c(2) by (intro that [of "y1\<lparr>y_client := c\<rparr>"]) simp_all
qed

text \<open>From any state: hand the packet in hand on, send, be answered.\<close>

lemma progress:
  assumes reach: "sys_reach y" "y_opened y \<le> 1" "y_base y = Some 0" and up: "link_up y"
    and retry: "can_retry (y_client y)"
    and open': "\<not> window_zero (s_window (y_sender y))"
    and size: "length (to_bytes (y_hist y ! sn (lower_bound (s_window (y_sender y))))) \<le>
      unat (max_buf_size (s_channel (y_sender y)))"
  obtains y' where "sys_step\<^sup>*\<^sup>* y y'"
    "lower_bound (s_window (y_sender y)) < lower_bound (s_window (y_sender y'))" "onward 2 y y'"
proof -
  let ?lo = "lower_bound (s_window (y_sender y))" and ?h = "y_hist y"
  have len: "length ?h < 4294967296" using up by (simp add: link_up_def)
  have inv: "session_inv y" by (rule reach_session_inv [OF reach(1) len reach(2)])
  note parts = session_parts [OF inv]
  obtain c1 s where c1: "quiet_steps (y_client y) c1"
    "c1 = (y_client y)\<lparr>c_got := None, c_enter := None, c_sender := s\<rparr>"
    and s: "s_retry_count s = s_retry_count (y_sender y)"
      "s_max_retry_count s = s_max_retry_count (y_sender y)" "s_running s = s_running (y_sender y)"
    and mono: "?lo \<le> lower_bound (s_window s)"
    using finish_got [OF parts(1)] parts(7) up unfolding link_up_def by metis
  let ?y1 = "y\<lparr>y_client := c1\<rparr>"
  have st1: "sys_step\<^sup>*\<^sup>* y ?y1" by (rule quiet_sys [OF c1(1)])
  have r1: "sys_reach ?y1" by (rule reach_run [OF reach(1) st1])
  have h1: "y_hist ?y1 = ?h" by (simp add: c1(2))
  have inv1: "session_inv ?y1"
    using r1 len reach(2) h1 by (intro reach_session_inv) simp_all
  note parts1 = session_parts [OF inv1]
  show ?thesis
  proof (cases "lower_bound (s_window s) = ?lo")
    case False
    moreover have "onward 2 y ?y1"
      using up s keeps_same [of c1 "y_client y" 2] by (simp add: onward_def link_up_def c1(2))
    ultimately show ?thesis
      using mono st1 by (intro that [of ?y1]) (simp_all add: c1(2) order_le_less)
  next
    case True
    have "upper_bound (s_window s) = upper_bound (s_window (y_sender y))"
      using parts(2) parts1(2) by (simp add: c1(2) window_ok_def flip: sn_inject)
    moreover have "?lo < upper_bound (s_window (y_sender y))"
      using parts(2) open' by (auto simp: window_ok_def window_zero_def order_le_less)
    ultimately have upper: "?lo < upper_bound (s_window s)" by simp
    have size1: "length (to_bytes (?h ! sn ?lo)) \<le> unat (max_buf_size (s_channel s))"
      using size parts(6) parts1(6) by (simp add: c1(2))
    have "slid s" using shape.reach_inv [OF r1] by (simp add: shape_inv_def c1(2))
    then have "outstanding s ?lo" using True upper by (auto simp: slid_def outstanding_def)
    moreover have retries: "\<not> retries_used s ?lo" "\<forall>sq. c_popped c1 = Some sq \<longrightarrow> \<not> retries_used s sq"
      using retry s(1,2) by (auto simp: can_retry_def retries_used_def c1(2) not_le)
    ultimately have work: "at_work ?h ?lo c1"
      using parts1(1) len True up s(3) size1 by (simp add: at_work_def c1(2) link_up_def)
    obtain c2 where c2: "quiet_steps c1 c2" "posted ?h ?lo c2" "keeps 2 c1 c2"
      using can_post [OF work] retries(2) up by (auto simp: c1(2) link_up_def)
    let ?y2 = "?y1\<lparr>y_client := c2\<rparr>"
    have st2: "sys_step\<^sup>*\<^sup>* ?y1 ?y2" using quiet_sys [of ?y1 c2] c2(1) by simp
    have r2: "sys_reach ?y2" by (rule reach_run [OF r1 st2])
    have h2: "y_hist ?y2 = ?h" using c2(2) by (simp add: posted_def)
    have up2: "link_up ?y2" using up c2(2) h2 by (simp add: link_up_def posted_def)
    have inv2: "session_inv ?y2"
      using r2 len reach(2) h2 by (intro reach_session_inv) simp_all
    note parts2 = session_parts [OF inv2]
    have "sn (upper_bound (s_window (c_sender c2))) = sn (upper_bound (s_window (y_sender y)))"
      using parts(2) parts2(2) h2 by (simp add: window_ok_def)
    then have upper2: "?lo < upper_bound (s_window (y_sender ?y2))"
      using \<open>?lo < upper_bound (s_window (y_sender y))\<close> by simp
    have size2: "length (to_bytes (y_hist ?y2 ! sn ?lo)) \<le> unat (max_buf_size (s_channel (y_sender ?y2)))"
      using size parts(6) parts2(6) h2 by simp
    obtain y' where y': "sys_step\<^sup>*\<^sup>* ?y2 y'" "?lo < lower_bound (s_window (y_sender y'))"
      "onward 0 ?y2 y'"
    proof (rule progress_posted [OF r2 _ _ up2 _ upper2 size2])
      show "y_opened ?y2 \<le> 1" "y_base ?y2 = Some 0" using reach(2,3) by simp_all
      show "posted (y_hist ?y2) ?lo (y_client ?y2)" using c2(2) h2 by simp
    qed (use that in auto)
    have "sys_step\<^sup>*\<^sup>* y y'" using st1 st2 y'(1) by (blast intro: rtranclp_trans)
    moreover have "onward 2 y y'"
    proof -
      have "keeps 0 (y_client y) c1" using s(1) by (simp add: keeps_same c1(2))
      from keeps_trans0 [OF this c2(3)] have "keeps 2 (y_client y) c2" .
      with keeps_trans [of 2 "y_client y" c2 0 "y_client y'"] y'(3) h2 show ?thesis
        by (simp add: onward_def)
    qed
    ultimately show ?thesis using y'(2) by (intro that [of y']) simp_all
  qed
qed

text \<open>A send thread that holds its mutexes for another packet finishes its turn first.\<close>

lemma after_body_keeps:
  assumes "\<not> retries_used s sq" "lower_bound (s_window s) < upper_bound (s_window s)"
  defines "s' \<equiv> send_handler_body os_ok 0 sq s"
  shows "s_running s' = s_running s" "s_window s' = s_window s"
    "s_max_retry_count s' = s_max_retry_count s" "lo \<noteq> sq \<Longrightarrow> s_retry_count s' lo = s_retry_count s lo"
    "max_buf_size (s_channel s') = max_buf_size (s_channel s)"
proof -
  show "max_buf_size (s_channel s') = max_buf_size (s_channel s)"
    using same_config_max [OF same_config_body [of s os_ok 0 sq]] by (simp add: s'_def)
  have "s_running s' = s_running s \<and> s_window s' = s_window s \<and>
      s_max_retry_count s' = s_max_retry_count s \<and>
      (lo \<noteq> sq \<longrightarrow> s_retry_count s' lo = s_retry_count s lo)"
    by (cases rule: body_cases [OF assms(1,2), of os_ok 0])
      (auto simp: s'_def frame_simps transmit_frame)
  then show "s_running s' = s_running s" "s_window s' = s_window s"
    "s_max_retry_count s' = s_max_retry_count s" "lo \<noteq> sq \<Longrightarrow> s_retry_count s' lo = s_retry_count s lo"
    by auto
qed

lemma progress_locked:
  assumes reach: "sys_reach y" "y_opened y \<le> 1" "y_base y = Some 0"
    and up: "link_up (y\<lparr>y_client := (y_client y)\<lparr>c_locked := False\<rparr>\<rparr>)"
    and retry: "can_retry (y_client y)"
    and open': "\<not> window_zero (s_window (y_sender y))"
    and size: "length (to_bytes (y_hist y ! sn (lower_bound (s_window (y_sender y))))) \<le>
      unat (max_buf_size (s_channel (y_sender y)))"
    and lock: "c_locked (y_client y) \<longrightarrow> c_popped (y_client y) \<noteq> Some (lower_bound (s_window (y_sender y)))"
  obtains y' where "sys_step\<^sup>*\<^sup>* y y'"
    "lower_bound (s_window (y_sender y)) < lower_bound (s_window (y_sender y'))"
proof (cases "c_locked (y_client y)")
  case False
  then have "link_up y" using up by (simp add: link_up_def)
  from progress [OF reach this retry open' size] that show ?thesis by blast
next
  case True
  let ?c = "y_client y" and ?lo = "lower_bound (s_window (y_sender y))"
  obtain sq where sq: "c_popped ?c = Some sq" "sq \<noteq> ?lo"
    using shape.reach_inv [OF reach(1)] True lock by (auto simp: shape_inv_def lock_ok_def)
  have len: "length (y_hist y) < 4294967296" using up by (simp add: link_up_def)
  have "session_inv y" by (rule reach_session_inv [OF reach(1) len reach(2)])
  note win = session_parts(2) [OF this]
  have "\<forall>n. s_retry_count (y_sender y) sq = Some n \<longrightarrow> n < s_max_retry_count (y_sender y)"
    using retry sq(1) unfolding can_retry_def by blast
  then have "\<not> retries_used (y_sender y) sq" by (auto simp: retries_used_def not_le)
  moreover have "?lo < upper_bound (s_window (y_sender y))"
    using win open' by (auto simp: window_ok_def window_zero_def order_le_less)
  ultimately have keep: "\<not> retries_used (y_sender y) sq" "?lo < upper_bound (s_window (y_sender y))"
    by simp_all
  note same = after_body_keeps [OF keep]
  let ?y = "y\<lparr>y_client := after_body sq ?c\<rparr>"
  have "?c\<lparr>c_locked := True\<rparr> = ?c" using True by (cases ?c) simp
  moreover have "\<not> holds_state_mutex (c_api ?c)" using up by (simp add: link_up_def)
  ultimately have "client_step Works ?c (after_body sq ?c)"
    using body_locked [OF sq(1)] by metis
  then have step: "sys_step y ?y" by (intro sys_client) auto
  have "link_up ?y" using up same by (simp add: link_up_def)
  moreover have "can_retry (y_client ?y)" using retry same sq(2) by (auto simp: can_retry_def)
  moreover have "sys_reach ?y" by (rule reach_step [OF reach(1) step])
  ultimately obtain y' where "sys_step\<^sup>*\<^sup>* ?y y'"
    "lower_bound (s_window (y_sender ?y)) < lower_bound (s_window (y_sender y'))"
    using progress [of ?y] reach(2,3) open' size same by auto
  with step same show ?thesis by (intro that [of y']) (auto intro: converse_rtranclp_into_rtranclp)
qed

end
