(* ===== verification/Completion.thy ===== *)
theory Completion
  imports Progress
begin

text \<open>
  A transfer can always be completed. From any moment at which \<open>send\<close> is reading its stream
  or waiting for the window to empty, the threads, the network and the receiver can go on
  until everything is read, sent, received and acknowledged, if the retries suffice. The
  steps of Progress empty the window; each then lets the caller make one more packet.
\<close>

subsection \<open>The caller's part\<close>

text \<open>The packets a stream still yields, and those \<open>send\<close> has yet to make.\<close>

definition chunks :: "istream \<Rightarrow> nat" where
  "chunks is = (if is_good is then length (is_rest is) div NKURDT_MAX_PAYLOAD_SIZE + 1 else 0)"

fun packets_left :: "ApiPc \<Rightarrow> nat" where
  "packets_left (DataRead is n) = chunks is"
| "packets_left (DataSend (SpPoll k pl) is n) = chunks is + 1"
| "packets_left (DataSend (SpReserved p) is n) = chunks is"
| "packets_left _ = 0"

fun rank :: "ApiPc \<Rightarrow> nat" where
  "rank (DataRead is n) = 3 * chunks is + 2"
| "rank (DataSend (SpPoll k pl) is n) = 3 * chunks is + 4"
| "rank (DataSend (SpReserved p) is n) = 3 * chunks is + 3"
| "rank _ = 0"

fun reading :: "ApiPc \<Rightarrow> bool" where
  "reading (DataRead is n) = True"
| "reading (DataSend sp is n) = True"
| "reading (ZeroWait n) = True"
| "reading _ = False"

lemma max_payload: "0 < NKURDT_MAX_PAYLOAD_SIZE"
  by (simp add: NKURDT_MAX_PAYLOAD_SIZE_def NKURDT_MAX_PACKET_SIZE_def)

lemma chunks_read:
  assumes "is_good is" "istream_read NKURDT_MAX_PAYLOAD_SIZE is = (pl, is')"
  shows "chunks is = chunks is' + 1"
proof (cases "NKURDT_MAX_PAYLOAD_SIZE \<le> length (is_rest is)")
  case True
  then have "is' = is\<lparr>is_rest := drop NKURDT_MAX_PAYLOAD_SIZE (is_rest is)\<rparr>"
    using assms by (simp add: istream_read_def)
  then show ?thesis
    using assms(1) True le_div_geq [OF max_payload True] by (simp add: chunks_def)
next
  case False
  then have "is' = is\<lparr>is_rest := [], is_good := False\<rparr>"
    using assms by (simp add: istream_read_def)
  then show ?thesis using assms(1) False by (simp add: chunks_def)
qed

text \<open>The packet in the caller's hands inside the loop is one of data.\<close>

fun data_kind :: "ApiPc \<Rightarrow> bool" where
  "data_kind (DataSend (SpPoll k pl) is n) = (k = Data)"
| "data_kind _ = True"

lemma data_kind_api: "api_step duration pc s = Inr (pc', s') \<Longrightarrow> data_kind pc \<Longrightarrow> data_kind pc'"
  by (cases pc rule: data_kind.cases)
    (auto simp: connect_wait_def disconnect_wait_def split: if_splits option.splits prod.splits poll.splits
      elim!: send_packet_step.elims)

lemma data_kind_step: "client_step l c c' \<Longrightarrow> data_kind (c_api c) \<Longrightarrow> data_kind (c_api c')"
proof (induction rule: client_step.induct)
  case (client_call c pc s)
  then show ?case
    by (auto simp: api_call_def connect_call_def send_call_def disconnect_call_def split: if_splits)
next
  case (client_api duration c pc s)
  then show ?case by (simp add: data_kind_api)
qed simp_all

interpretation data_kind: invariant_system sys_start sys_step "\<lambda>y. data_kind (c_api (y_client y))" "\<lambda>y. True"
proof
  fix y assume "sys_start y"
  then show "data_kind (c_api (y_client y))" by (auto simp: sys_start_def)
next
  fix y y' assume "sys_step y y'" "data_kind (c_api (y_client y))"
  then show "data_kind (c_api (y_client y'))"
    by (cases rule: sys_step.cases) (auto dest: data_kind_step)
qed simp

subsection \<open>What stays fixed\<close>

definition fixed_parts :: "System \<Rightarrow> size_t \<times> size_t \<times> size_t \<times> size_t" where
  "fixed_parts y =
     (s_max_retry_count (y_sender y), max_window_size (s_window (y_sender y)),
      max_buf_size (s_channel (y_sender y)), r_max_window_size (y_receiver y))"

lemma slide_acked_limit: "slide_acked A w = (A', w') \<Longrightarrow> max_window_size w' = max_window_size w"
proof (induction A w rule: slide_acked.induct)
  case (1 A w)
  then show ?case by (auto simp: slide_acked.simps [of A w] split: if_splits)
qed

lemma acked_limit: "max_window_size (s_window (recv_handler_acked p s)) = max_window_size (s_window s)"
  by (auto simp: recv_handler_acked_def duplicate_ack_def Let_def dest: slide_acked_limit split: prod.splits)

lemma body_limit:
  "s_window (send_handler_body a now sq s) = s_window s"
  "s_max_retry_count (send_handler_body a now sq s) = s_max_retry_count s"
  by (auto simp: send_handler_body_def send_handler_cleanup_def give_up_def transmit_def Let_def
      split: option.splits)

lemma client_step_limits:
  assumes "client_step l c c'"
  shows "s_max_retry_count (c_sender c') = s_max_retry_count (c_sender c) \<and>
    max_window_size (s_window (c_sender c')) = max_window_size (s_window (c_sender c))"
  using assms
proof (induction rule: client_step.induct)
  case (client_call c pc s)
  from api_call_control [OF client_call(2)] show ?case by (auto simp: control_only_def)
next
  case (client_api duration c pc s)
  from client_api(1) show ?case
    by (cases rule: api_step_cases)
      (auto simp: control_only_def send_packet_reserve_def send_packet_enqueue_def Let_def)
next
  case (client_pop c x s)
  then show ?case by (auto simp: send_handler_pop_def split: prod.splits)
next
  case (client_receive c d got s)
  then show ?case using recv_handler_recv_effect(1) [OF client_receive(2)] by simp
next
  case (client_timeout c order)
  then show ?case by (auto simp: timeout_handler_iter_def split: prod.splits)
qed (simp_all add: body_limit acked_limit acked_keeps enter_state_def sender_timer_turn_def sender_stop_def)

lemma recv_iter_limit:
  assumes "recv_iter a d r = Inr (ctl, r')"
  shows "r_max_window_size r' = r_max_window_size r"
  using assms
proof (cases rule: recv_iter_cases)
  case (packet p bs addr)
  from packet(4) show ?thesis
    by (cases rule: recv_packet_cases)
      (auto simp: drop_packet_frame accept_packet_def Let_def frame_simps)
qed auto

lemma fixed_step: "sys_step y y' \<Longrightarrow> fixed_parts y' = fixed_parts y"
proof (induction rule: sys_step.induct)
  case (sys_client l y c)
  then show ?case
    using client_step_limits [OF sys_client(1)] same_config_max [OF client_step_config [OF sys_client(1)]]
    by (simp add: fixed_parts_def)
next
  case (sys_receiver y d a ctl r)
  then show ?case using recv_iter_limit [OF sys_receiver(4)] by (simp add: fixed_parts_def)
qed

lemma fixed_run: "sys_step\<^sup>*\<^sup>* y y' \<Longrightarrow> fixed_parts y' = fixed_parts y"
  by (induction rule: rtranclp_induct) (auto dest: fixed_step)

subsection \<open>A transfer under way\<close>

text \<open>The number of packets when all is read, and those of them not yet passed by the window.\<close>

definition final :: "System \<Rightarrow> nat" where
  "final y = length (y_hist y) + packets_left (c_api (y_client y))"

definition remaining :: "System \<Rightarrow> nat" where
  "remaining y = final y - sn (lower_bound (s_window (y_sender y)))"

text \<open>Both ends run, the connection is the first one, the buffers hold the largest packet, the
  numbers and the retries suffice: three for each remaining packet.\<close>

definition under_way :: "System \<Rightarrow> bool" where
  "under_way y \<longleftrightarrow>
     sys_reach y \<and> y_opened y = 1 \<and> y_base y = Some 0 \<and> no_disconnect (y_hist y) \<and>
     s_running (y_sender y) \<and> r_running (y_receiver y) \<and> \<not> y_done y \<and> reading (c_api (y_client y)) \<and>
     0 < unat (r_max_window_size (y_receiver y)) mod 4294967296 \<and>
     0 < window_limit (s_window (y_sender y)) \<and>
     NKURDT_MAX_PACKET_SIZE \<le> unat (max_buf_size (s_channel (y_sender y))) \<and>
     final y + unat (r_max_window_size (y_receiver y)) mod 4294967296 < 4294967296 \<and>
     (\<forall>sq. retries (y_client y) sq + 3 * remaining y < unat (s_max_retry_count (y_sender y)))"

lemma reading_moves:
  "api_moves pc pc' \<Longrightarrow> reading pc \<Longrightarrow> reading pc' \<and> packets_left pc' = packets_left pc \<and>
     rank pc' \<le> rank pc \<and> held pc' = held pc \<and> unread pc' = unread pc \<and> in_send pc'"
  by (cases pc) (auto simp: api_moves_def)

lemma reading_in_send: "reading pc \<Longrightarrow> in_send pc \<and> \<not> holds_state_mutex pc"
  by (cases pc) auto

lemma under_way_inv:
  assumes "under_way y"
  shows "transfer_inv y" "session_inv y" "length (y_hist y) < 4294967296"
proof -
  show len: "length (y_hist y) < 4294967296" using assms by (simp add: under_way_def final_def)
  show "transfer_inv y"
    using assms len by (intro transfer.reach_inv) (simp_all add: under_way_def session_bound_def sys_bound_def)
  then show "session_inv y" by (simp add: transfer_inv_def)
qed

text \<open>Steps that keep the hands off the stream keep the transfer under way.\<close>

lemma under_way_onward:
  assumes "under_way y" "sys_step\<^sup>*\<^sup>* y y'" "onward k y y'"
    and "remaining y' = remaining y \<and> k = 0 \<or> remaining y' < remaining y \<and> k \<le> 3"
  shows "under_way y'" "final y' = final y" "c_file (y_client y') = c_file (y_client y)"
    "rank (c_api (y_client y')) \<le> rank (c_api (y_client y))"
proof -
  note on = assms(3) [unfolded onward_def keeps_def]
  have reach: "sys_reach y'" using assms(1,2) by (auto simp: under_way_def intro: reach_run)
  have pc: "reading (c_api (y_client y))" using assms(1) by (simp add: under_way_def)
  have moves: "api_moves (c_api (y_client y)) (c_api (y_client y'))" using on by blast
  note pc' = reading_moves [OF moves pc]
  show fin: "final y' = final y" using pc' on by (simp add: final_def)
  show "rank (c_api (y_client y')) \<le> rank (c_api (y_client y))" using pc' by blast
  have fixed: "fixed_parts y' = fixed_parts y" by (rule fixed_run [OF assms(2)])
  have "retries (y_client y') sq + 3 * remaining y' < unat (s_max_retry_count (y_sender y'))" for sq
  proof -
    have "retries (y_client y') sq \<le> retries (y_client y) sq + k" using on by blast
    moreover have "retries (y_client y) sq + 3 * remaining y < unat (s_max_retry_count (y_sender y))"
      using assms(1) by (simp add: under_way_def)
    moreover have "s_max_retry_count (y_sender y') = s_max_retry_count (y_sender y)"
      using fixed by (simp add: fixed_parts_def)
    ultimately show ?thesis using assms(4) by auto
  qed
  moreover have "y_hist y' = y_hist y" "y_opened y' = y_opened y" "y_base y' = y_base y"
    "s_running (y_sender y')" "r_running (y_receiver y')" "no_disconnect (y_hist y) \<longrightarrow> \<not> y_done y'"
    using on by blast+
  ultimately show way: "under_way y'"
    using assms(1) reach fin pc' fixed by (auto simp: under_way_def fixed_parts_def window_limit_def)
  have "file_inv (y_client y)" "file_inv (y_client y')"
    using under_way_inv(1) [OF assms(1)] under_way_inv(1) [OF way] by (simp_all add: transfer_inv_def)
  then show "c_file (y_client y') = c_file (y_client y)"
    using pc' reading_in_send [OF pc] assms(1) way \<open>y_hist y' = y_hist y\<close>
    by (simp add: file_inv_def under_way_def)
qed

lemma under_way_window:
  assumes "under_way y"
  shows "lower_bound (s_window (y_sender y)) \<le> upper_bound (s_window (y_sender y))"
    "sn (upper_bound (s_window (y_sender y))) = length (y_hist y)"
    "sn (lower_bound (s_window (y_sender y))) \<le> final y"
proof -
  have "window_ok (y_hist y) (y_sender y)" by (rule session_parts(2) [OF under_way_inv(2) [OF assms]])
  then show "lower_bound (s_window (y_sender y)) \<le> upper_bound (s_window (y_sender y))"
    "sn (upper_bound (s_window (y_sender y))) = length (y_hist y)"
    by (simp_all add: window_ok_def)
  then show "sn (lower_bound (s_window (y_sender y))) \<le> final y"
    by (simp add: seq_le_iff final_def)
qed

lemma less_not_used:
  assumes "\<forall>sq. retries c sq < unat (s_max_retry_count (c_sender c))"
  shows "can_retry c" "\<not> retries_used (c_sender c) x"
proof -
  have less: "n < s_max_retry_count (c_sender c)" if "s_retry_count (c_sender c) sq = Some n" for sq n
    using assms that by (fastforce simp: retries_def word_less_nat_alt dest: spec [of _ sq])
  then show "can_retry c" unfolding can_retry_def by blast
  show "\<not> retries_used (c_sender c) x" using less [of x] by (auto simp: retries_used_def not_le)
qed

lemma body_running_retries:
  "\<not> retries_used s sq \<Longrightarrow> s_running (send_handler_body a now sq s) = s_running s"
  by (auto simp: send_handler_body_def retries_used_def send_handler_cleanup_def transmit_def Let_def
      split: option.splits)

lemma onward_trans: "onward j y y1 \<Longrightarrow> onward k y1 y' \<Longrightarrow> onward (j + k) y y'"
  unfolding onward_def using keeps_trans by auto

lemma under_way_size:
  assumes "under_way y" "\<not> window_zero (s_window (y_sender y))"
  shows "length (to_bytes (y_hist y ! sn (lower_bound (s_window (y_sender y))))) \<le>
    unat (max_buf_size (s_channel (y_sender y)))"
proof -
  have "lower_bound (s_window (y_sender y)) < upper_bound (s_window (y_sender y))"
    using under_way_window(1) [OF assms(1)] assms(2) by (auto simp: window_zero_def order_le_less)
  then have "y_hist y ! sn (lower_bound (s_window (y_sender y))) \<in> set (y_hist y)"
    using under_way_window(2) [OF assms(1)] by (simp add: seq_less_iff)
  then have "length (payload (y_hist y ! sn (lower_bound (s_window (y_sender y))))) \<le> NKURDT_MAX_PAYLOAD_SIZE"
    using session_parts(1) [OF under_way_inv(2) [OF assms(1)]]
    by (auto simp: client_inv_def hist_ok_def sendable_def)
  then have "length (to_bytes (y_hist y ! sn (lower_bound (s_window (y_sender y))))) \<le> NKURDT_MAX_PACKET_SIZE"
    by (simp add: length_to_bytes reserve_size_def NKURDT_MAX_PAYLOAD_SIZE_def NKURDT_MAX_PACKET_SIZE_def)
  then show ?thesis using assms(1) by (simp add: under_way_def)
qed

lemma under_way_link:
  assumes "under_way y" "\<not> c_locked (y_client y)"
  shows "link_up y"
proof -
  have "open_inv y" using under_way_inv(1) [OF assms(1)] by (simp add: transfer_inv_def)
  then have "r_state (y_receiver y) \<noteq> RIdle" using assms(1) by (simp add: open_inv_def under_way_def)
  then show ?thesis
    using assms reading_in_send [of "c_api (y_client y)"] by (simp add: link_up_def under_way_def final_def)
qed

text \<open>The send thread ends its turn.\<close>

lemma unlock:
  assumes "under_way y" "c_locked (y_client y)"
  obtains c sq where "sys_step y (y\<lparr>y_client := c\<rparr>)" "onward 1 y (y\<lparr>y_client := c\<rparr>)" "\<not> c_locked c"
    "s_window (c_sender c) = s_window (y_sender y)" "c_api c = c_api (y_client y)" "c = after_body sq (y_client y)"
proof -
  let ?c = "y_client y"
  have reach: "sys_reach y" using assms(1) by (simp add: under_way_def)
  obtain sq where sq: "c_popped ?c = Some sq"
    using shape.reach_inv [OF reach] assms(2) by (auto simp: shape_inv_def lock_ok_def)
  have "\<not> holds_state_mutex (c_api ?c)"
    using assms(1) reading_in_send by (auto simp: under_way_def)
  moreover have "?c\<lparr>c_locked := True\<rparr> = ?c" using assms(2) by (cases ?c) simp
  ultimately have "client_step Works ?c (after_body sq ?c)" using body_locked [OF sq] by metis
  then have step: "sys_step y (y\<lparr>y_client := after_body sq ?c\<rparr>)" by (intro sys_client) auto
  have "\<forall>sq. retries ?c sq < unat (s_max_retry_count (y_sender y))"
    using assms(1) unfolding under_way_def by (meson add_lessD1)
  note less = less_not_used [OF this]
  have "s_running (send_handler_body os_ok 0 sq (y_sender y)) = s_running (y_sender y)"
    using less(2) [of sq] by (intro body_running_retries)
  then have "onward 1 y (y\<lparr>y_client := after_body sq ?c\<rparr>)"
    using assms(1) keeps_body by (simp add: onward_def under_way_def)
  with step show ?thesis by (intro that [of "after_body sq ?c" sq]) (simp_all add: body_limit)
qed

text \<open>The window moves while it is not empty.\<close>

lemma move_on:
  assumes "under_way y" "\<not> window_zero (s_window (y_sender y))"
  obtains y' where "sys_step\<^sup>*\<^sup>* y y'" "onward 3 y y'"
    "lower_bound (s_window (y_sender y)) < lower_bound (s_window (y_sender y'))"
proof -
  obtain y1 where y1: "sys_step\<^sup>*\<^sup>* y y1" "onward 1 y y1" "\<not> c_locked (y_client y1)"
    "s_window (y_sender y1) = s_window (y_sender y)" "y_receiver y1 = y_receiver y" "y_done y1 = y_done y"
    "c_api (y_client y1) = c_api (y_client y)"
  proof (cases "c_locked (y_client y)")
    case True
    from unlock [OF assms(1) True] obtain c sq where c: "sys_step y (y\<lparr>y_client := c\<rparr>)"
      "onward 1 y (y\<lparr>y_client := c\<rparr>)" "\<not> c_locked c" "s_window (c_sender c) = s_window (y_sender y)"
      "c_api c = c_api (y_client y)" "c = after_body sq (y_client y)" .
    from c(1) have "sys_step\<^sup>*\<^sup>* y (y\<lparr>y_client := c\<rparr>)" by (rule r_into_rtranclp)
    with c(2-5) show ?thesis by (intro that [of "y\<lparr>y_client := c\<rparr>"]) simp_all
  next
    case False
    have "onward 1 y y" using assms(1) by (simp add: onward_def under_way_def)
    with False show ?thesis by (intro that [of y]) simp_all
  qed
  have reach: "sys_reach y1" using assms(1) y1(1) by (auto simp: under_way_def intro: reach_run)
  have same: "y_opened y1 = 1" "y_base y1 = Some 0" "y_hist y1 = y_hist y"
    using y1(2) assms(1) by (simp_all add: onward_def under_way_def)
  have fixed: "fixed_parts y1 = fixed_parts y" by (rule fixed_run [OF y1(1)])
  have "link_up (y\<lparr>y_client := (y_client y)\<lparr>c_locked := False\<rparr>\<rparr>)"
  proof -
    have "open_inv y" using under_way_inv(1) [OF assms(1)] by (simp add: transfer_inv_def)
    then have "r_state (y_receiver y) \<noteq> RIdle" using assms(1) by (simp add: open_inv_def under_way_def)
    then show ?thesis
      using assms(1) reading_in_send [of "c_api (y_client y)"] by (simp add: link_up_def under_way_def final_def)
  qed
  then have up: "link_up y1"
    using y1 same by (simp add: link_up_def onward_def)
  have "remaining y \<noteq> 0"
  proof -
    have "sn (lower_bound (s_window (y_sender y))) < length (y_hist y)"
      using under_way_window [OF assms(1)] assms(2)
      by (auto simp: window_zero_def order_le_less seq_less_iff)
    then show ?thesis by (simp add: remaining_def final_def)
  qed
  have "retries (y_client y1) sq < unat (s_max_retry_count (y_sender y1))" for sq
  proof -
    have "retries (y_client y1) sq \<le> retries (y_client y) sq + 1"
      using y1(2) unfolding onward_def keeps_def by blast
    moreover have "retries (y_client y) sq + 3 * remaining y < unat (s_max_retry_count (y_sender y))"
      using assms(1) by (simp add: under_way_def)
    ultimately show ?thesis using \<open>remaining y \<noteq> 0\<close> fixed by (simp add: fixed_parts_def)
  qed
  then have retry: "can_retry (y_client y1)" by (intro less_not_used) blast
  obtain y' where y': "sys_step\<^sup>*\<^sup>* y1 y'" "onward 2 y1 y'"
    "lower_bound (s_window (y_sender y1)) < lower_bound (s_window (y_sender y'))"
    by (rule progress [OF reach _ same(2) up retry])
      (use same y1(4) assms(2) under_way_size [OF assms] fixed in \<open>simp_all add: fixed_parts_def\<close>)
  have "onward 3 y y'" using onward_trans [OF y1(2) y'(2)] by (simp add: numeral_3_eq_3)
  with y1(1,4) y'(1,3) show ?thesis by (intro that [of y']) auto
qed

text \<open>Over an empty window the send thread changes nothing that counts.\<close>

lemma body_empty:
  "window_zero (s_window s) \<Longrightarrow>
     send_handler_body a now sq s = s \<or> send_handler_body a now sq s = send_handler_cleanup sq s"
  by (simp add: send_handler_body_def window_zero_def)

lemma unlock_empty:
  assumes "under_way y" "c_locked (y_client y)" "window_zero (s_window (y_sender y))"
  obtains c where "sys_step y (y\<lparr>y_client := c\<rparr>)" "onward 0 y (y\<lparr>y_client := c\<rparr>)" "\<not> c_locked c"
    "s_window (c_sender c) = s_window (y_sender y)" "c_api c = c_api (y_client y)"
proof -
  obtain c sq where c: "sys_step y (y\<lparr>y_client := c\<rparr>)" "onward 1 y (y\<lparr>y_client := c\<rparr>)" "\<not> c_locked c"
    "s_window (c_sender c) = s_window (y_sender y)" "c_api c = c_api (y_client y)"
    and sq: "c = after_body sq (y_client y)"
    by (rule unlock [OF assms(1,2)])
  have "retries c x \<le> retries (y_client y) x" for x
    using body_empty [OF assms(3), of os_ok 0 sq]
    by (auto simp: sq retries_def send_handler_cleanup_def Let_def split: option.splits if_splits)
  with c show ?thesis by (intro that [of c]) (simp_all add: onward_def keeps_def)
qed

text \<open>One step of the caller.\<close>

lemma caller_step:
  assumes way: "under_way y" and step: "api_step 1 (c_api (y_client y)) (y_sender y) = Inr (pc, s)"
    and lock: "reserved_of (c_api (y_client y)) = None \<or> \<not> c_locked (y_client y)"
    and pc: "reading pc" "length (new_packets (c_api (y_client y)) pc) + packets_left pc = packets_left (c_api (y_client y))"
      "\<forall>p \<in> set (new_packets (c_api (y_client y)) pc). kind p \<noteq> DisconnReq"
    and s: "s_retry_count s = s_retry_count (y_sender y)" "s_running s = s_running (y_sender y)"
      "lower_bound (s_window s) = lower_bound (s_window (y_sender y))"
  defines "c \<equiv> (y_client y)\<lparr>c_api := pc, c_sender := s,
    c_hist := y_hist y @ new_packets (c_api (y_client y)) pc\<rparr>"
  shows "sys_step y (y\<lparr>y_client := c\<rparr>)" "under_way (y\<lparr>y_client := c\<rparr>)"
    "remaining (y\<lparr>y_client := c\<rparr>) = remaining y"
proof -
  have "client_step Works (y_client y) c" unfolding c_def by (rule client_api [OF step lock])
  then show st: "sys_step y (y\<lparr>y_client := c\<rparr>)" by (intro sys_client) auto
  have fin: "final (y\<lparr>y_client := c\<rparr>) = final y" using pc(2) by (simp add: final_def c_def)
  then show rem: "remaining (y\<lparr>y_client := c\<rparr>) = remaining y" using s(3) by (simp add: remaining_def c_def)
  have "fixed_parts (y\<lparr>y_client := c\<rparr>) = fixed_parts y" by (rule fixed_step [OF st])
  moreover have "sys_reach (y\<lparr>y_client := c\<rparr>)"
    using way st by (auto simp: under_way_def intro: reach_step)
  moreover have "retries c = retries (y_client y)" using s(1) by (simp add: retries_def c_def fun_eq_iff)
  moreover have "no_disconnect (c_hist c)"
    using way pc(3) by (auto simp: under_way_def no_disconnect_def c_def)
  ultimately show "under_way (y\<lparr>y_client := c\<rparr>)"
    using way fin rem pc(1) s(2) by (simp add: under_way_def fixed_parts_def window_limit_def c_def)
qed

lemma caller_moves:
  assumes way: "under_way y" and zero: "window_zero (s_window (y_sender y))"
    and lock: "\<not> c_locked (y_client y)" and pc: "\<forall>n. c_api (y_client y) \<noteq> ZeroWait n"
  obtains c where "sys_step y (y\<lparr>y_client := c\<rparr>)" "under_way (y\<lparr>y_client := c\<rparr>)"
    "remaining (y\<lparr>y_client := c\<rparr>) = remaining y" "rank (c_api c) < rank (c_api (y_client y))"
    "c_file c = c_file (y_client y)"
proof -
  let ?s = "y_sender y"
  have "\<exists>pc s. api_step 1 (c_api (y_client y)) ?s = Inr (pc, s) \<and> reading pc \<and>
      length (new_packets (c_api (y_client y)) pc) + packets_left pc = packets_left (c_api (y_client y)) \<and>
      (\<forall>p \<in> set (new_packets (c_api (y_client y)) pc). kind p \<noteq> DisconnReq) \<and>
      s_retry_count s = s_retry_count ?s \<and> s_running s = s_running ?s \<and>
      lower_bound (s_window s) = lower_bound (s_window ?s) \<and> rank pc < rank (c_api (y_client y))"
  proof (cases "c_api (y_client y)")
    case (DataRead "is" n)
    show ?thesis
    proof (cases "is_good is")
      case True
      obtain pl is' where rd: "istream_read NKURDT_MAX_PAYLOAD_SIZE is = (pl, is')" by (metis surj_pair)
      from chunks_read [OF True rd] True rd DataRead show ?thesis
        by (simp add: new_packets_def reserved_of_def)
    next
      case False
      with DataRead show ?thesis by (simp add: new_packets_def reserved_of_def chunks_def)
    qed
  next
    case (DataSend sp "is" n)
    show ?thesis
    proof (cases sp)
      case (SpPoll k pl)
      have "data_kind (c_api (y_client y))"
        using way by (intro data_kind.reach_inv) (simp_all add: under_way_def)
      then have k: "k = Data" by (simp add: DataSend SpPoll)
      have "send_packet_poll ?s = Available"
        using zero way by (simp add: send_packet_poll_def window_available_iff window_zero_iff under_way_def)
      with k DataSend SpPoll show ?thesis
        by (simp add: send_packet_reserve_def new_packets_def reserved_of_def mk_packet_def Let_def)
    next
      case (SpReserved p)
      with DataSend show ?thesis
        by (simp add: send_packet_enqueue_def new_packets_def reserved_of_def)
    qed
  next
    case (ZeroWait n)
    with pc show ?thesis by simp
  qed (use way in \<open>simp_all add: under_way_def\<close>)
  then obtain pc s where step: "api_step 1 (c_api (y_client y)) ?s = Inr (pc, s)" "reading pc"
    "length (new_packets (c_api (y_client y)) pc) + packets_left pc = packets_left (c_api (y_client y))"
    "\<forall>p \<in> set (new_packets (c_api (y_client y)) pc). kind p \<noteq> DisconnReq"
    "s_retry_count s = s_retry_count ?s" "s_running s = s_running ?s"
    "lower_bound (s_window s) = lower_bound (s_window ?s)" and rank: "rank pc < rank (c_api (y_client y))"
    by blast
  from caller_step [OF way step(1) _ step(2-7)] lock rank show ?thesis
    by (intro that [of "(y_client y)\<lparr>c_api := pc, c_sender := s,
      c_hist := y_hist y @ new_packets (c_api (y_client y)) pc\<rparr>"]) simp_all
qed

text \<open>The transfer comes to the wait for the empty window, with the window empty.\<close>

lemma reaches_zero:
  assumes "under_way y"
  shows "\<exists>y' n. sys_step\<^sup>*\<^sup>* y y' \<and> under_way y' \<and> window_zero (s_window (y_sender y')) \<and>
    c_api (y_client y') = ZeroWait n \<and> c_file (y_client y') = c_file (y_client y)"
  using assms
proof (induction y rule: wf_induct_rule [OF wf_measures [of
    "[remaining, \<lambda>y. rank (c_api (y_client y)), \<lambda>y. if c_locked (y_client y) then 1 else 0]"]])
  case (1 y)
  have onto: ?case
    if "sys_step\<^sup>*\<^sup>* y y1" "under_way y1" "c_file (y_client y1) = c_file (y_client y)"
      "(y1, y) \<in> measures [remaining, \<lambda>y. rank (c_api (y_client y)), \<lambda>y. if c_locked (y_client y) then 1 else 0]"
    for y1
    using "1.IH" [OF that(4,2)] that(1,3) by (metis rtranclp_trans)
  show ?case
  proof (cases "window_zero (s_window (y_sender y))")
    case False
    obtain y1 where y1: "sys_step\<^sup>*\<^sup>* y y1" "onward 3 y y1"
      "lower_bound (s_window (y_sender y)) < lower_bound (s_window (y_sender y1))"
      by (rule move_on [OF "1.prems" False])
    have moves: "api_moves (c_api (y_client y)) (c_api (y_client y1))" "y_hist y1 = y_hist y"
      using y1(2) unfolding onward_def keeps_def by blast+
    have "final y1 = final y"
      using reading_moves [OF moves(1)] moves(2) "1.prems" by (simp add: final_def under_way_def)
    moreover have "sn (lower_bound (s_window (y_sender y))) < final y"
      using under_way_window [OF "1.prems"] False
      by (auto simp: window_zero_def order_le_less seq_less_iff final_def)
    ultimately have less: "remaining y1 < remaining y"
      using y1(3) by (simp add: remaining_def seq_less_iff)
    note way = under_way_onward [OF "1.prems" y1(1,2) disjI2 [OF conjI [OF less order_refl]]]
    from onto [OF y1(1) way(1,3)] less show ?thesis by simp
  next
    case zero: True
    show ?thesis
    proof (cases "\<exists>n. c_api (y_client y) = ZeroWait n")
      case True
      with zero "1.prems" show ?thesis by blast
    next
      case no_wait: False
      show ?thesis
      proof (cases "c_locked (y_client y)")
        case True
        obtain c where c: "sys_step y (y\<lparr>y_client := c\<rparr>)" "onward 0 y (y\<lparr>y_client := c\<rparr>)" "\<not> c_locked c"
          "s_window (c_sender c) = s_window (y_sender y)" "c_api c = c_api (y_client y)"
          by (rule unlock_empty [OF "1.prems" True zero])
        have "y_hist (y\<lparr>y_client := c\<rparr>) = y_hist y" using c(2) by (simp add: onward_def)
        then have rem: "remaining (y\<lparr>y_client := c\<rparr>) = remaining y"
          using c(4,5) by (simp add: remaining_def final_def)
        note way = under_way_onward [OF "1.prems" r_into_rtranclp [of sys_step, OF c(1)] c(2) disjI1 [OF conjI [OF rem refl]]]
        from onto [OF r_into_rtranclp [of sys_step, OF c(1)] way(1,3)] rem c(3,5) True show ?thesis by simp
      next
        case False
        obtain c where c: "sys_step y (y\<lparr>y_client := c\<rparr>)" "under_way (y\<lparr>y_client := c\<rparr>)"
          "remaining (y\<lparr>y_client := c\<rparr>) = remaining y" "rank (c_api c) < rank (c_api (y_client y))"
          "c_file c = c_file (y_client y)"
          by (rule caller_moves [OF "1.prems" zero False]) (use no_wait in auto)
        from onto [OF r_into_rtranclp [of sys_step, OF c(1)] c(2)] c(3-5) show ?thesis by simp
      qed
    qed
  qed
qed

lemma completes:
  assumes "under_way y"
  obtains y' where "sys_step\<^sup>*\<^sup>* y y'" "at_stop (c_api (y_client y'))"
    "r_os (y_receiver y') = Some (c_file (y_client y))" "s_running (y_sender y')"
proof -
  obtain y1 n where y1: "sys_step\<^sup>*\<^sup>* y y1" "under_way y1" "window_zero (s_window (y_sender y1))"
    "c_api (y_client y1) = ZeroWait n" "c_file (y_client y1) = c_file (y_client y)"
    using reaches_zero [OF assms] by blast
  let ?pc = "StopSend (SpPoll DataStop []) n" and ?s = "(y_sender y1)\<lparr>s_state := Stopping\<rparr>"
  let ?c = "(y_client y1)\<lparr>c_api := ?pc, c_sender := ?s, c_hist := c_hist (y_client y1) @ new_packets (ZeroWait n) ?pc\<rparr>"
  have new: "new_packets (ZeroWait n) ?pc = []" by (simp add: new_packets_def reserved_of_def)
  have "client_step Works (y_client y1) ?c"
    using client_api [of 1 "y_client y1" ?pc ?s] y1(3,4) by (simp add: reserved_of_def)
  then have step: "sys_step y1 (y1\<lparr>y_client := ?c\<rparr>)" by (intro sys_client) auto
  let ?y = "y1\<lparr>y_client := ?c\<rparr>"
  have run: "sys_step\<^sup>*\<^sup>* y ?y" using y1(1) step by (rule rtranclp.rtrancl_into_rtrancl)
  have reach: "sys_reach ?y" using assms run by (auto simp: under_way_def intro: reach_run)
  have "transfer_inv ?y"
    using y1(2) under_way_inv(3) [OF y1(2)] new
    by (intro transfer.reach_inv [OF reach]) (simp add: session_bound_def sys_bound_def under_way_def)
  then have "whole ?y" "file_inv ?c"
    using y1(2) new by (auto simp: transfer_inv_def clean_def under_way_def)
  then have "r_os (y_receiver ?y) = Some (c_file (y_client y))"
    using y1(2,5) by (simp add: whole_def file_inv_def under_way_def)
  moreover have "s_running (y_sender ?y)" using y1(2) by (simp add: under_way_def)
  ultimately show ?thesis using run by (intro that [of ?y]) simp_all
qed

subsection \<open>A run with buffers for the largest packet\<close>

text \<open>For evaluation, lengths are compared with the buffer in binary.\<close>

lemma buffer_compare:
  "uint w < int n \<longleftrightarrow> unat w < n"
  "int n \<le> uint w \<longleftrightarrow> n \<le> unat w"
proof -
  have w: "uint w = int (unat w)" by simp
  show "uint w < int n \<longleftrightarrow> unat w < n" "int n \<le> uint w \<longleftrightarrow> n \<le> unat w"
    unfolding w by (simp_all only: of_nat_less_iff of_nat_le_iff)
qed

lemma socket_send_code [code]:
  "socket_send a addr data s =
     (if uint (max_buf_size s) < int (length data) then (system_error EMSGSIZE, s)
      else if os_result a < 0 then (system_error (os_errno a), s)
      else (no_error, s\<lparr>outbox := outbox s @ [(addr, data)]\<rparr>))"
  by (simp only: socket_send_def buffer_compare)

lemma socket_recv_code [code]:
  "socket_recv a s =
     (case a of
        RecvFailed err \<Rightarrow> (system_error err, [], addr_zero)
      | RecvDatagram d addr \<Rightarrow>
          (no_error, if int (length d) \<le> uint (max_buf_size s) then d else take (unat (max_buf_size s)) d, addr))"
  unfolding socket_recv_def buffer_compare by (auto split: recvfrom_answer.split)

definition roomy_start :: System where
  "roomy_start =
     \<lparr>y_client = \<lparr>c_sender = snd (sender_init ((sender_at_rest True)\<lparr>s_channel := socket_new 8192\<rparr>)),
        c_api = Ready, c_popped = None, c_locked = False, c_got = None, c_enter = None, c_hist = [], c_file = []\<rparr>,
      y_receiver = recv_start ((receiver_at_rest True)\<lparr>r_channel := socket_new 8192\<rparr>),
      y_done = False, y_opened = 0, y_base = None\<rparr>"

lemma roomy_start: "sys_start roomy_start"
  unfolding sys_start_def
  by (intro exI [of _ "(sender_at_rest True)\<lparr>s_channel := socket_new 8192\<rparr>"]
      exI [of _ "(receiver_at_rest True)\<lparr>r_channel := socket_new 8192\<rparr>"])
    (simp add: roomy_start_def sender_fresh_def receiver_fresh_def sender_at_rest_def
      receiver_at_rest_def queue_new_def socket_new_def)

text \<open>Connected, the first packet of the file acknowledged, the stream about to be read.\<close>

definition about_to_read_run :: "action list" where
  "about_to_read_run =
     connected_run @ DoSend \<lparr>is_rest = [1, 2, 3], is_good = True\<rparr> # exchange [DoEnter] 1"

definition about_to_read :: System where
  "about_to_read = the (run about_to_read_run roomy_start)"

definition about_to_read_summary :: "SequenceNumber \<Rightarrow> System \<Rightarrow> bool" where
  "about_to_read_summary sq y \<longleftrightarrow>
     y_opened y = 1 \<and> y_base y = Some 0 \<and> map kind (y_hist y) = [ConnReq, DataPush] \<and>
     s_running (y_sender y) \<and> r_running (y_receiver y) \<and> \<not> y_done y \<and>
     c_api (y_client y) = DataRead \<lparr>is_rest = [1, 2, 3], is_good = True\<rparr> 0 \<and>
     r_max_window_size (y_receiver y) = 5 \<and> max_window_size (s_window (y_sender y)) = 5 \<and>
     max_buf_size (s_channel (y_sender y)) = 8192 \<and> c_file (y_client y) = [1, 2, 3] \<and>
     lower_bound (s_window (y_sender y)) = SequenceNumber 2 \<and> s_max_retry_count (y_sender y) = 100 \<and>
     s_retry_count (y_sender y) sq =
       (if sq = SequenceNumber 1 then Some 0 else if sq = SequenceNumber 0 then Some 0 else None)"

lemma about_to_read_evaluates:
  "case run about_to_read_run roomy_start of None \<Rightarrow> False | Some y \<Rightarrow> about_to_read_summary sq y"
  by code_simp

lemma about_to_read_run: "run about_to_read_run roomy_start = Some about_to_read"
  using about_to_read_evaluates [of seq_default] by (auto simp: about_to_read_def split: option.splits)

lemma about_to_read: "about_to_read_summary sq about_to_read"
  using about_to_read_evaluates [of sq] by (simp add: about_to_read_run)

lemma reach_about_to_read: "sys_reach about_to_read"
  by (rule run_reach [OF about_to_read_run reach_start [of sys_start, OF roomy_start]])

text \<open>C4: a transfer can always be completed. After one opening, by packet 0, with both window sizes
  above zero modulo 2^32 and the receiver's window to spare below 2^32 packets, buffers for the
  largest packet, no disconnect request made, and a \<open>send\<close> under way that has had its push packet
  acknowledged: whatever was lost, repeated or damaged and whatever the threads have in hand, as long
  as the sender and the receiver run and each packet has
  three retries left for every packet yet to be acknowledged, the threads and the network can go on
  until \<open>send\<close> has read its whole stream and seen its window empty; the receiver has then put out
  all of the file.\<close>

theorem transfer_can_complete:
  assumes "sys_reach y" "y_opened y = 1" "y_base y = Some 0"
    and "\<forall>p \<in> set (y_hist y). kind p \<noteq> DisconnReq"
    and "s_running (y_sender y)" "r_running (y_receiver y)" "\<not> y_done y" "reading (c_api (y_client y))"
    and "0 < unat (r_max_window_size (y_receiver y)) mod 4294967296"
    and "0 < unat (max_window_size (s_window (y_sender y))) mod 4294967296"
    and "NKURDT_MAX_PACKET_SIZE \<le> unat (max_buf_size (s_channel (y_sender y)))"
    and "length (y_hist y) + packets_left (c_api (y_client y)) +
      unat (r_max_window_size (y_receiver y)) mod 4294967296 < 4294967296"
    and "\<And>sq. (case s_retry_count (y_sender y) sq of None \<Rightarrow> 0 | Some n \<Rightarrow> unat n) +
      3 * (length (y_hist y) + packets_left (c_api (y_client y)) - sn (lower_bound (s_window (y_sender y))))
      < unat (s_max_retry_count (y_sender y))"
  shows "\<exists>y'. sys_step\<^sup>*\<^sup>* y y' \<and> at_stop (c_api (y_client y')) \<and>
    r_os (y_receiver y') = Some (c_file (y_client y))"
proof -
  have "under_way y"
    using assms by (simp add: under_way_def no_disconnect_def window_limit_def final_def remaining_def retries_def)
  from completes [OF this] show ?thesis by metis
qed

theorem transfer_can_complete_witness:
  "\<exists>y'. sys_step\<^sup>*\<^sup>* about_to_read y' \<and> at_stop (c_api (y_client y')) \<and> r_os (y_receiver y') = Some [1, 2, 3]"
proof -
  note here = about_to_read [unfolded about_to_read_summary_def]
  have kinds: "map kind (y_hist about_to_read) = [ConnReq, DataPush]" using here by blast
  have "length (y_hist about_to_read) = 2" using arg_cong [OF kinds, of length] by simp
  moreover have "kind ` set (y_hist about_to_read) = {ConnReq, DataPush}"
    using kinds by (simp flip: set_map)
  then have "\<forall>p \<in> set (y_hist about_to_read). kind p \<noteq> DisconnReq"
    by (metis PacketKind.distinct image_eqI insertE singletonD)
  moreover have "chunks \<lparr>is_rest = [1, 2, 3], is_good = True\<rparr> = 1"
    by (simp add: chunks_def NKURDT_MAX_PAYLOAD_SIZE_def NKURDT_MAX_PACKET_SIZE_def)
  moreover have "s_retry_count (y_sender about_to_read) sq \<in> {Some 0, None}" for sq
    using here [of sq] by simp
  ultimately show ?thesis
    using transfer_can_complete [OF reach_about_to_read] here
    by (auto simp: sn_def NKURDT_MAX_PACKET_SIZE_def split: option.splits)
qed

end
