(* ===== verification/Workers.thy ===== *)
theory Workers
  imports Completion
begin

text \<open>
  The loops of the worker threads in full. \<open>Client\<close> has the pieces of their turns; here are
  also the heads of the loops, where a thread reads \<open>running_\<close> and leaves, the wait of the
  timeout thread, and the mutexes of the queue and the window, which \<open>timeout_handler\<close> locks by
  hand. The threads refine the system: whatever holds of all runs of the system holds of them;
  and as long as the sender runs, they have all its runs. \<open>stop\<close> joins them.
\<close>

subsection \<open>The control points\<close>

text \<open>A worker is at the head of its loop, inside a turn, or has left the loop.\<close>

datatype worker = AtHead | Inside | Gone

text \<open>\<open>timeout_handler\<close>: at the head, in \<open>wait_for_timed_out\<close>, behind it, with the mutex of the
  queue, with those of the queue and the window, the events mapped, the window unlocked, left.\<close>

datatype timeout_pc =
  TAtHead | TWaits | TWoken | THoldsQueue | THoldsBoth | TMapped | TFreedWindow | TGone

record Workers =
  w_send :: worker
  w_recv :: worker
  w_timeout :: timeout_pc

definition at_heads :: Workers where
  "at_heads = \<lparr>w_send = AtHead, w_recv = AtHead, w_timeout = TAtHead\<rparr>"

text \<open>From \<open>lock\<close> to \<open>unlock_and_notify\<close> of the queue, and from \<open>lock\<close> to \<open>unlock\<close> of the window.\<close>

definition queue_held :: "Workers \<Rightarrow> bool" where
  "queue_held k \<longleftrightarrow> w_timeout k \<in> {THoldsQueue, THoldsBoth, TMapped, TFreedWindow}"

definition window_held :: "Workers \<Rightarrow> bool" where
  "window_held k \<longleftrightarrow> w_timeout k \<in> {THoldsBoth, TMapped}"

text \<open>Where the caller needs the mutex of the window: in the two timed waits for it.\<close>

definition awaits_window :: "ApiPc \<Rightarrow> bool" where
  "awaits_window pc \<longleftrightarrow>
     (case send_pc_of pc of
        Some (SpPoll k pl) \<Rightarrow> True
      | Some (SpReserved p) \<Rightarrow> False
      | None \<Rightarrow> (case pc of ZeroWait n \<Rightarrow> True | _ \<Rightarrow> False))"

text \<open>Where the receive thread needs the mutex of the queue: in the fast retransmission.\<close>

definition retransmits :: "Packet \<Rightarrow> Sender \<Rightarrow> bool" where
  "retransmits p s \<longleftrightarrow>
     \<not> s_selective_repeat s \<and> lower_bound (s_window s) = seq p \<and> s_ack_dup_times s = 2 \<and> s_fast_retransmit s"

subsection \<open>The steps\<close>

inductive worker_step :: "step_label \<Rightarrow> Client \<times> Workers \<Rightarrow> Client \<times> Workers \<Rightarrow> bool" where
  worker_call: "api_free (c_api c) \<Longrightarrow> api_call (c_sender c) out \<Longrightarrow>
    worker_step Calls (c, k) (start_call out c, k)"
| worker_api: "api_step duration (c_api c) (c_sender c) = Inr (pc, s) \<Longrightarrow>
    reserved_of (c_api c) \<noteq> None \<longrightarrow> \<not> c_locked c \<and> \<not> queue_held k \<Longrightarrow>
    awaits_window (c_api c) \<longrightarrow> \<not> window_held k \<Longrightarrow>
    worker_step Works (c, k)
      (c\<lparr>c_api := pc, c_sender := s, c_hist := c_hist c @ new_packets (c_api c) pc\<rparr>, k)"
| send_enters: "w_send k = AtHead \<Longrightarrow> s_running (c_sender c) \<Longrightarrow>
    worker_step Works (c, k) (c, k\<lparr>w_send := Inside\<rparr>)"
| send_leaves: "w_send k = AtHead \<Longrightarrow> \<not> s_running (c_sender c) \<Longrightarrow>
    worker_step Works (c, k) (c, k\<lparr>w_send := Gone\<rparr>)"
| send_pops: "w_send k = Inside \<Longrightarrow> c_popped c = None \<Longrightarrow> \<not> queue_held k \<Longrightarrow>
    send_handler_pop (c_sender c) = (x, s) \<Longrightarrow>
    worker_step Works (c, k)
      (c\<lparr>c_popped := x, c_sender := s\<rparr>, k\<lparr>w_send := if x = None then AtHead else Inside\<rparr>)"
| send_locks: "c_popped c \<noteq> None \<Longrightarrow> \<not> c_locked c \<Longrightarrow>
    worker_step Works (c, k) (c\<lparr>c_locked := True\<rparr>, k)"
| send_sends: "c_popped c = Some sq \<Longrightarrow> c_locked c \<Longrightarrow>
    holds_state_mutex (c_api c) \<longrightarrow> \<not> reaches_give_up sq (c_sender c) \<Longrightarrow>
    s_selective_repeat (c_sender c) \<and> sq \<in> s_acked_seq_set (c_sender c) \<or> \<not> window_held k \<Longrightarrow>
    worker_step Works (c, k)
      (c\<lparr>c_popped := None, c_locked := False, c_sender := send_handler_body a now sq (c_sender c)\<rparr>,
       k\<lparr>w_send := AtHead\<rparr>)"
| recv_enters: "w_recv k = AtHead \<Longrightarrow> s_running (c_sender c) \<Longrightarrow>
    worker_step Works (c, k) (c, k\<lparr>w_recv := Inside\<rparr>)"
| recv_leaves: "w_recv k = AtHead \<Longrightarrow> \<not> s_running (c_sender c) \<Longrightarrow>
    worker_step Works (c, k) (c, k\<lparr>w_recv := Gone\<rparr>)"
| recv_hears: "w_recv k = Inside \<Longrightarrow> c_got c = None \<Longrightarrow>
    recv_handler_recv d (c_sender c) = Inr (got, s) \<Longrightarrow>
    worker_step (Hears d) (c, k)
      (c\<lparr>c_got := got, c_enter := Option.bind got (\<lambda>p. recv_handler_switch p s), c_sender := s\<rparr>,
       k\<lparr>w_recv := if got = None then AtHead else Inside\<rparr>)"
| recv_switches: "c_enter c = Some st \<Longrightarrow> \<not> holds_state_mutex (c_api c) \<Longrightarrow>
    worker_step Works (c, k) (c\<lparr>c_enter := None, c_sender := enter_state st (c_sender c)\<rparr>, k)"
| recv_acked: "c_got c = Some p \<Longrightarrow> c_enter c = None \<Longrightarrow> \<not> c_locked c \<Longrightarrow> \<not> window_held k \<Longrightarrow>
    retransmits p (c_sender c) \<longrightarrow> \<not> queue_held k \<Longrightarrow>
    worker_step Works (c, k)
      (c\<lparr>c_got := None, c_sender := recv_handler_acked p (c_sender c)\<rparr>, k\<lparr>w_recv := AtHead\<rparr>)"
| timeout_enters: "w_timeout k = TAtHead \<Longrightarrow> s_running (c_sender c) \<Longrightarrow>
    worker_step Works (c, k) (c, k\<lparr>w_timeout := TWaits\<rparr>)"
| timeout_leaves: "w_timeout k = TAtHead \<Longrightarrow> \<not> s_running (c_sender c) \<Longrightarrow>
    worker_step Works (c, k) (c, k\<lparr>w_timeout := TGone\<rparr>)"
| timeout_waited: "w_timeout k = TWaits \<Longrightarrow> 
    worker_step Works (c, k)
      (c, k\<lparr>w_timeout := if has_timed_out (s_timer (c_sender c)) then TWoken else TAtHead\<rparr>)"
| timeout_locks_queue: "w_timeout k = TWoken \<Longrightarrow>
    worker_step Works (c, k) (c, k\<lparr>w_timeout := THoldsQueue\<rparr>)"
| timeout_locks_window: "w_timeout k = THoldsQueue \<Longrightarrow>
    worker_step Works (c, k) (c, k\<lparr>w_timeout := THoldsBoth\<rparr>)"
| timeout_maps: "w_timeout k = THoldsBoth \<Longrightarrow>
    set order = timed_out_events (s_timer (c_sender c)) \<Longrightarrow> distinct order \<Longrightarrow>
    map_timed_out_events order queue_unsafe_push True (s_timer (c_sender c)) (s_pending_queue (c_sender c)) = (q, t) \<Longrightarrow>
    worker_step Works (c, k)
      (c\<lparr>c_sender := (c_sender c)\<lparr>s_pending_queue := q, s_timer := t\<rparr>\<rparr>, k\<lparr>w_timeout := TMapped\<rparr>)"
| timeout_frees_window: "w_timeout k = TMapped \<Longrightarrow>
    worker_step Works (c, k) (c, k\<lparr>w_timeout := TFreedWindow\<rparr>)"
| timeout_frees_queue: "w_timeout k = TFreedWindow \<Longrightarrow>
    worker_step Works (c, k) (c, k\<lparr>w_timeout := TAtHead\<rparr>)"
| timing_thread:
    "worker_step Works (c, k) (c\<lparr>c_sender := sender_timer_turn clk (c_sender c)\<rparr>, k)"
| worker_stop: "api_free (c_api c) \<Longrightarrow>
    worker_step Stops (c, k) (c\<lparr>c_sender := snd (sender_stop (c_sender c))\<rparr>, k)"

text \<open>With the network and the receiver.\<close>

inductive threads_step :: "System \<times> Workers \<Rightarrow> System \<times> Workers \<Rightarrow> bool" where
  threads_worker: "worker_step l (y_client y, k) (c, k') \<Longrightarrow>
    \<forall>d. l = Hears d \<longrightarrow> deliverable (r_channel (y_receiver y)) (s_channel (y_sender y)) d \<Longrightarrow>
    threads_step (y, k) (y\<lparr>y_client := c\<rparr>, k')"
| threads_receiver: "sys_step y y' \<Longrightarrow> y_client y' = y_client y \<Longrightarrow>
    threads_step (y, k) (y', k)"

definition threads_start :: "System \<times> Workers \<Rightarrow> bool" where
  "threads_start w \<longleftrightarrow> sys_start (fst w) \<and> snd w = at_heads"

abbreviation threads_reach :: "System \<times> Workers \<Rightarrow> bool" where
  "threads_reach \<equiv> reach threads_start threads_step"

subsection \<open>The threads refine the system\<close>

lemma map_is_iter:
  assumes "set order = timed_out_events (s_timer s)"
    and "map_timed_out_events order queue_unsafe_push True (s_timer s) (s_pending_queue s) = (q, t)"
  shows "s\<lparr>s_pending_queue := q, s_timer := t\<rparr> = timeout_handler_iter order s"
proof (cases "has_timed_out (s_timer s)")
  case True
  with assms(2) show ?thesis by (simp add: timeout_handler_iter_def)
next
  case False
  then have "order = []" "(s_timer s)\<lparr>timed_out_events := {}\<rparr> = s_timer s"
    using assms(1) by (simp_all add: has_timed_out_def)
  with assms(2) False show ?thesis
    by (cases s) (simp add: timeout_handler_iter_def map_timed_out_events_def)
qed

lemma worker_client:
  "worker_step l (c, k) (c', k') \<Longrightarrow> c' = c \<or> client_step l c c'"
proof (induction "(c, k)" "(c', k')" rule: worker_step.induct)
  case (timeout_maps order q t)
  have "(c_sender c)\<lparr>s_pending_queue := q, s_timer := t\<rparr> = timeout_handler_iter order (c_sender c)"
    by (rule map_is_iter [OF timeout_maps(2,4)])
  then show ?case using client_timeout [OF timeout_maps(2,3)] timeout_maps(5) by simp
qed (auto intro: client_step.intros client_start_call)

lemma threads_system: "threads_step w w' \<Longrightarrow> sys_step\<^sup>*\<^sup>* (fst w) (fst w')"
proof (induction rule: threads_step.induct)
  case (threads_worker l y k c k')
  from worker_client [OF threads_worker(1)] show ?case
    using threads_worker(2) by (auto intro: sys_client)
qed auto

interpretation threads: simulation threads_start threads_step sys_start sys_step fst
  by unfold_locales (auto simp: threads_start_def dest: threads_system)

subsection \<open>While the sender runs, they have all its runs\<close>

text \<open>The threads are where a state of the system leaves them: at the heads of their loops when
  they have nothing in hand.\<close>

definition resting :: "Client \<Rightarrow> Workers" where
  "resting c =
     \<lparr>w_send = (if c_popped c = None then AtHead else Inside),
      w_recv = (if c_got c = None then AtHead else Inside), w_timeout = TAtHead\<rparr>"

lemma resting_free [simp]: "\<not> queue_held (resting c)" "\<not> window_held (resting c)"
  by (simp_all add: queue_held_def window_held_def resting_def)

abbreviation works :: "Client \<times> Workers \<Rightarrow> Client \<times> Workers \<Rightarrow> bool" where
  "works \<equiv> (worker_step Works)\<^sup>*\<^sup>*"

lemma works_one: "worker_step Works w w' \<Longrightarrow> works w w'"
  by (rule r_into_rtranclp)

lemma works_timeout:
  assumes "w_timeout k = TAtHead" "s_running (c_sender c)"
    and "set order = timed_out_events (s_timer (c_sender c))" "distinct order"
  shows "works (c, k) (c\<lparr>c_sender := timeout_handler_iter order (c_sender c)\<rparr>, k)"
proof (cases "has_timed_out (s_timer (c_sender c))")
  case False
  then show ?thesis by (simp add: timeout_handler_iter_def)
next
  case True
  obtain q t where qt: "map_timed_out_events order queue_unsafe_push True (s_timer (c_sender c))
      (s_pending_queue (c_sender c)) = (q, t)" by (metis surj_pair)
  let ?c = "c\<lparr>c_sender := (c_sender c)\<lparr>s_pending_queue := q, s_timer := t\<rparr>\<rparr>"
  have k: "k\<lparr>w_timeout := TAtHead\<rparr> = k" using assms(1) by (cases k) simp
  have "works (c, k) (c, k\<lparr>w_timeout := TWaits\<rparr>)"
    by (intro works_one timeout_enters assms(1,2))
  also have "works (c, k\<lparr>w_timeout := TWaits\<rparr>) (c, k\<lparr>w_timeout := TWoken\<rparr>)"
    using works_one [OF timeout_waited [of "k\<lparr>w_timeout := TWaits\<rparr>" c]] True by simp
  also have "works (c, k\<lparr>w_timeout := TWoken\<rparr>) (c, k\<lparr>w_timeout := THoldsQueue\<rparr>)"
    using works_one [OF timeout_locks_queue [of "k\<lparr>w_timeout := TWoken\<rparr>" c]] by simp
  also have "works (c, k\<lparr>w_timeout := THoldsQueue\<rparr>) (c, k\<lparr>w_timeout := THoldsBoth\<rparr>)"
    using works_one [OF timeout_locks_window [of "k\<lparr>w_timeout := THoldsQueue\<rparr>" c]] by simp
  also have "works (c, k\<lparr>w_timeout := THoldsBoth\<rparr>) (?c, k\<lparr>w_timeout := TMapped\<rparr>)"
    using works_one [OF timeout_maps [OF _ assms(3,4) qt, of "k\<lparr>w_timeout := THoldsBoth\<rparr>"]] by simp
  also have "works (?c, k\<lparr>w_timeout := TMapped\<rparr>) (?c, k\<lparr>w_timeout := TFreedWindow\<rparr>)"
    using works_one [OF timeout_frees_window [of "k\<lparr>w_timeout := TMapped\<rparr>" ?c]] by simp
  also have "works (?c, k\<lparr>w_timeout := TFreedWindow\<rparr>) (?c, k)"
    using works_one [OF timeout_frees_queue [of "k\<lparr>w_timeout := TFreedWindow\<rparr>" ?c]] by (simp add: k)
  finally show ?thesis using map_is_iter [OF assms(3) qt] by simp
qed

lemma follows:
  assumes "client_step l c c'" "s_running (c_sender c')"
  shows "(\<exists>k. works (c, resting c) (c, k) \<and> worker_step l (c, k) (c', resting c')) \<or>
    l = Works \<and> works (c, resting c) (c', resting c')"
proof -
  have run: "s_running (c_sender c)" by (rule client_step_running [OF assms])
  have one: ?thesis if "worker_step l (c, resting c) (c', resting c')"
    using that by blast
  have two: ?thesis if "worker_step Works (c, resting c) (c, k)" "worker_step l (c, k) (c', resting c')" for k
    using that works_one by blast
  show ?thesis
    using assms(1)
  proof (cases rule: client_step.cases)
    case (client_call pc s)
    then have "worker_step l (c, resting c) (start_call (pc, s) c, resting c)" by (simp add: worker_call)
    then show ?thesis by (intro one) (simp add: client_call(2) start_call_def resting_def)
  next
    case (client_api duration pc s)
    have "worker_step l (c, resting c) (c', resting c)"
      unfolding client_api(1,2) using client_api(3,4) by (intro worker_api) auto
    then show ?thesis by (intro one) (simp add: client_api(2) resting_def)
  next
    case (client_pop x s)
    let ?k = "(resting c)\<lparr>w_send := Inside\<rparr>"
    have "worker_step Works (c, resting c) (c, ?k)"
      using client_pop(3) run by (intro send_enters) (simp_all add: resting_def)
    moreover have "worker_step l (c, ?k) (c', ?k\<lparr>w_send := if x = None then AtHead else Inside\<rparr>)"
      unfolding client_pop(1,2) using client_pop(3,4)
      by (intro send_pops) (simp_all add: queue_held_def resting_def)
    moreover have "?k\<lparr>w_send := if x = None then AtHead else Inside\<rparr> = resting c'"
      by (simp add: client_pop(2) resting_def)
    ultimately show ?thesis using two by simp
  next
    case client_lock
    then have "worker_step l (c, resting c) (c', resting c)" by (simp add: send_locks)
    then show ?thesis by (intro one) (simp add: client_lock(2) resting_def)
  next
    case (client_body sq a now)
    have "worker_step l (c, resting c) (c', (resting c)\<lparr>w_send := AtHead\<rparr>)"
      unfolding client_body(1,2) using client_body(3-5) by (intro send_sends) auto
    then show ?thesis by (intro one) (simp add: client_body(2) resting_def)
  next
    case (client_receive d got s)
    let ?k = "(resting c)\<lparr>w_recv := Inside\<rparr>"
    have "worker_step Works (c, resting c) (c, ?k)"
      using client_receive(3) run by (intro recv_enters) (simp_all add: resting_def)
    moreover have "worker_step l (c, ?k) (c', ?k\<lparr>w_recv := if got = None then AtHead else Inside\<rparr>)"
      unfolding client_receive(1,2) using client_receive(3,4) by (intro recv_hears) simp_all
    moreover have "?k\<lparr>w_recv := if got = None then AtHead else Inside\<rparr> = resting c'"
      by (simp add: client_receive(2) resting_def)
    ultimately show ?thesis using two by simp
  next
    case (client_enter st)
    then have "worker_step l (c, resting c) (c', resting c)" by (simp add: recv_switches)
    then show ?thesis by (intro one) (simp add: client_enter(2) resting_def)
  next
    case (client_acked p)
    then have "worker_step l (c, resting c) (c', (resting c)\<lparr>w_recv := AtHead\<rparr>)" by (simp add: recv_acked)
    then show ?thesis by (intro one) (simp add: client_acked(2) resting_def)
  next
    case (client_timeout order)
    have "works (c, resting c) (c', resting c)"
      unfolding client_timeout(2) using client_timeout(3,4) run
      by (intro works_timeout) (simp_all add: resting_def)
    moreover have "resting c' = resting c" by (simp add: client_timeout(2) resting_def)
    ultimately show ?thesis using client_timeout(1) by simp
  next
    case (client_timer clk)
    then have "worker_step l (c, resting c) (c', resting c)" by (simp add: timing_thread)
    then show ?thesis by (intro one) (simp add: client_timer(2) resting_def)
  next
    case client_stop
    with assms(2) show ?thesis by (simp add: sender_stop_def)
  qed
qed

lemma works_threads:
  "works (y_client y, k) (c, k') \<Longrightarrow> threads_step\<^sup>*\<^sup>* (y, k) (y\<lparr>y_client := c\<rparr>, k')"
proof (induction "(c, k')" arbitrary: c k' rule: rtranclp_induct)
  case (step w)
  then have "threads_step\<^sup>*\<^sup>* (y, k) (y\<lparr>y_client := fst w\<rparr>, snd w)" by simp
  moreover have "threads_step (y\<lparr>y_client := fst w\<rparr>, snd w) (y\<lparr>y_client := c\<rparr>, k')"
    using threads_worker [of Works "y\<lparr>y_client := fst w\<rparr>" "snd w" c k'] step.hyps(2) by simp
  ultimately show ?case by (rule rtranclp.rtrancl_into_rtrancl)
qed simp

lemma threads_follow:
  assumes "sys_step y y'" "s_running (y_sender y')"
  shows "threads_step\<^sup>*\<^sup>* (y, resting (y_client y)) (y', resting (y_client y'))"
  using assms(1)
proof (cases rule: sys_step.cases)
  case (sys_client l c)
  have "s_running (c_sender c)" using assms(2) sys_client(1) by simp
  from follows [OF sys_client(2) this] show ?thesis
  proof
    assume "\<exists>k. works (y_client y, resting (y_client y)) (y_client y, k) \<and>
      worker_step l (y_client y, k) (c, resting c)"
    then obtain k where k: "works (y_client y, resting (y_client y)) (y_client y, k)"
      "worker_step l (y_client y, k) (c, resting c)" by blast
    have "threads_step\<^sup>*\<^sup>* (y, resting (y_client y)) (y, k)" using works_threads [OF k(1)] by simp
    moreover have "threads_step (y, k) (y', resting (y_client y'))"
      using threads_worker [OF k(2) sys_client(3)] by (simp add: sys_client(1))
    ultimately show ?thesis by (rule rtranclp.rtrancl_into_rtrancl)
  next
    assume "l = Works \<and> works (y_client y, resting (y_client y)) (c, resting c)"
    then show ?thesis using works_threads [of y _ c "resting c"] by (simp add: sys_client(1))
  qed
next
  case sys_receiver
  then have "threads_step (y, resting (y_client y)) (y', resting (y_client y'))"
    using threads_receiver [OF assms(1)] by simp
  then show ?thesis by blast
qed

lemma sys_step_running: "sys_step y y' \<Longrightarrow> s_running (y_sender y') \<Longrightarrow> s_running (y_sender y)"
  by (induction rule: sys_step.induct) (auto dest: client_step_running)

lemma threads_follow_run:
  "sys_step\<^sup>*\<^sup>* y y' \<Longrightarrow> s_running (y_sender y') \<Longrightarrow>
     threads_step\<^sup>*\<^sup>* (y, resting (y_client y)) (y', resting (y_client y'))"
proof (induction rule: rtranclp_induct)
  case (step y1 y2)
  from step.IH sys_step_running [OF step.hyps(2) step.prems] threads_follow [OF step.hyps(2) step.prems]
  show ?case by (blast intro: rtranclp_trans)
qed simp

lemma reach_resting:
  "sys_reach y \<Longrightarrow> s_running (y_sender y) \<Longrightarrow> threads_reach (y, resting (y_client y))"
proof (induction rule: reach.induct)
  case (reach_start y)
  then have "threads_start (y, resting (y_client y))"
    by (auto simp: threads_start_def sys_start_def resting_def at_heads_def)
  then show ?case by (rule reach.reach_start)
next
  case (reach_step y y')
  with threads_follow [OF reach_step(2,4)] sys_step_running [OF reach_step(2,4)]
  show ?case by (blast intro: reach_run)
qed

text \<open>C7: the threads in full, with the heads of their loops and the mutexes that \<open>timeout_handler\<close>
  locks by hand, implement the system: they reach nothing it does not reach, and while the sender
  runs they reach all of it. So what holds of all states of the system holds of the threads.\<close>

theorem threads_implement_system:
  "fst ` {w. threads_reach w} \<subseteq> {y. sys_reach y} \<and>
   {y. s_running (y_sender y) \<and> sys_reach y} \<subseteq> fst ` {w. threads_reach w}"
proof
  show "fst ` {w. threads_reach w} \<subseteq> {y. sys_reach y}" using threads.sim_reach by blast
  show "{y. s_running (y_sender y) \<and> sys_reach y} \<subseteq> fst ` {w. threads_reach w}"
    using reach_resting by (force simp: image_iff)
qed

end
