(* ===== verification/Stopping.thy ===== *)
theory Stopping
  imports Workers
begin

text \<open>
  The second half of \<open>Sender::stop\<close>: joining the send, receive and timeout threads. A worker
  that has read \<open>running_\<close> before it was cleared finishes its turn, which may still take up a
  number or a datagram, and then leaves. Joining the timing thread is the subject of TimerThread.
\<close>

subsection \<open>The way out\<close>

text \<open>What a thread has in hand it has inside a turn.\<close>

definition hands_ok :: "Client \<times> Workers \<Rightarrow> bool" where
  "hands_ok w \<longleftrightarrow>
     (let (c, k) = w in
      (w_send k \<noteq> Inside \<longrightarrow> c_popped c = None) \<and> (c_popped c = None \<longrightarrow> \<not> c_locked c) \<and>
      (w_recv k \<noteq> Inside \<longrightarrow> c_got c = None) \<and> (c_got c = None \<longrightarrow> c_enter c = None))"

lemma hands_ok_step: "worker_step l w w' \<Longrightarrow> hands_ok w \<Longrightarrow> hands_ok w'"
  by (induction rule: worker_step.induct) (auto simp: hands_ok_def start_call_def)

abbreviation threads_of :: "System \<times> Workers \<Rightarrow> Client \<times> Workers" where
  "threads_of w \<equiv> (y_client (fst w), snd w)"

lemma threads_worker_cases:
  assumes "threads_step w w'"
  obtains l where "worker_step l (threads_of w) (threads_of w')" | "threads_of w' = threads_of w"
  using assms by (cases rule: threads_step.cases) auto

interpretation hands: invariant_system threads_start threads_step "\<lambda>w. hands_ok (threads_of w)" "\<lambda>w. True"
proof
  fix w assume "threads_start w"
  then show "hands_ok (threads_of w)" by (auto simp: threads_start_def sys_start_def hands_ok_def at_heads_def)
next
  fix w w' assume "threads_step w w'" "hands_ok (threads_of w)"
  then show "hands_ok (threads_of w')" by (metis threads_worker_cases hands_ok_step)
qed simp

text \<open>How far each worker is from the end of its loop.\<close>

fun send_left :: "worker \<Rightarrow> SequenceNumber option \<Rightarrow> bool \<Rightarrow> nat" where
  "send_left Gone x b = 0"
| "send_left AtHead x b = 1"
| "send_left Inside None b = 4"
| "send_left Inside (Some sq) b = (if b then 2 else 3)"

fun recv_left :: "worker \<Rightarrow> Packet option \<Rightarrow> SenderState option \<Rightarrow> nat" where
  "recv_left Gone g e = 0"
| "recv_left AtHead g e = 1"
| "recv_left Inside None e = 4"
| "recv_left Inside (Some p) e = (if e = None then 2 else 3)"

fun timeout_left :: "timeout_pc \<Rightarrow> nat" where
  "timeout_left TGone = 0"
| "timeout_left TAtHead = 1"
| "timeout_left TFreedWindow = 2"
| "timeout_left TMapped = 3"
| "timeout_left THoldsBoth = 4"
| "timeout_left THoldsQueue = 5"
| "timeout_left TWoken = 6"
| "timeout_left TWaits = 7"

definition work_left :: "Client \<times> Workers \<Rightarrow> nat" where
  "work_left w =
     (let (c, k) = w in
      send_left (w_send k) (c_popped c) (c_locked c) + recv_left (w_recv k) (c_got c) (c_enter c) +
      timeout_left (w_timeout k))"

text \<open>Where the workers are.\<close>

definition workers_at ::
  "Client \<times> Workers \<Rightarrow> Workers \<times> SequenceNumber option \<times> bool \<times> Packet option \<times> SenderState option" where
  "workers_at w = (let (c, k) = w in (k, c_popped c, c_locked c, c_got c, c_enter c))"

lemma work_left_step:
  "worker_step l w w' \<Longrightarrow> \<not> s_running (c_sender (fst w)) \<Longrightarrow> hands_ok w \<Longrightarrow>
     work_left w' < work_left w \<or> workers_at w' = workers_at w"
proof (induction rule: worker_step.induct)
  case (send_sends c sq k a now)
  then show ?case by (cases "w_send k") (auto simp: work_left_def hands_ok_def)
next
  case (send_locks c k)
  then show ?case by (cases "w_send k") (auto simp: work_left_def hands_ok_def)
next
  case (recv_switches c st k)
  then show ?case by (cases "w_recv k"; cases "c_got c") (auto simp: work_left_def hands_ok_def)
next
  case (recv_acked c p k)
  then show ?case by (cases "w_recv k") (auto simp: work_left_def hands_ok_def)
next
  case (recv_hears k c d got s)
  then show ?case by (cases got) (auto simp: work_left_def hands_ok_def split: option.splits)
qed (auto simp: work_left_def workers_at_def start_call_def)

text \<open>The joins of \<open>stop\<close> block until the threads have left their loops; then \<open>stop\<close> returns without
  an error.\<close>

definition all_gone :: "Workers \<Rightarrow> bool" where
  "all_gone k \<longleftrightarrow> w_send k = Gone \<and> w_recv k = Gone \<and> w_timeout k = TGone"

definition stop_joins :: "Workers \<Rightarrow> error_condition option" where
  "stop_joins k = (if all_gone k then Some no_error else None)"

text \<open>A wait for the network that ends with nothing.\<close>

definition RecvNothing :: step_label where
  "RecvNothing = Hears (RecvFailed EAGAIN)"

definition moves_on :: "Client \<times> Workers \<Rightarrow> bool" where
  "moves_on w \<longleftrightarrow> (\<exists>l w'. worker_step l w w' \<and> (l = Works \<or> l = RecvNothing) \<and>
     c_api (fst w') = c_api (fst w) \<and> work_left w' < work_left w)"

lemma moves_onI:
  "worker_step l w w' \<Longrightarrow> l = Works \<or> l = RecvNothing \<Longrightarrow> c_api (fst w') = c_api (fst w) \<Longrightarrow>
     work_left w' < work_left w \<Longrightarrow> moves_on w"
  unfolding moves_on_def by blast

lemma timeout_moves:
  assumes "w_timeout k \<noteq> TGone" "\<not> s_running (c_sender c)"
  shows "moves_on (c, k)"
proof (cases "w_timeout k")
  case TAtHead
  from moves_onI [OF timeout_leaves [OF TAtHead assms(2)]] TAtHead show ?thesis by (simp add: work_left_def)
next
  case TWaits
  from moves_onI [OF timeout_waited [OF TWaits, of c]] TWaits show ?thesis by (simp add: work_left_def)
next
  case TWoken
  from moves_onI [OF timeout_locks_queue [OF TWoken, of c]] TWoken show ?thesis by (simp add: work_left_def)
next
  case THoldsQueue
  from moves_onI [OF timeout_locks_window [OF THoldsQueue, of c]] THoldsQueue show ?thesis
    by (simp add: work_left_def)
next
  case THoldsBoth
  obtain order where order: "set order = timed_out_events (s_timer (c_sender c))" "distinct order"
    using finite_distinct_list [of "timed_out_events (s_timer (c_sender c))"] by auto
  obtain q t where qt: "map_timed_out_events order queue_unsafe_push True (s_timer (c_sender c))
      (s_pending_queue (c_sender c)) = (q, t)" by (metis surj_pair)
  from moves_onI [OF timeout_maps [OF THoldsBoth order qt]] THoldsBoth show ?thesis
    by (simp add: work_left_def)
next
  case TMapped
  from moves_onI [OF timeout_frees_window [OF TMapped, of c]] TMapped show ?thesis by (simp add: work_left_def)
next
  case TFreedWindow
  from moves_onI [OF timeout_frees_queue [OF TFreedWindow, of c]] TFreedWindow show ?thesis
    by (simp add: work_left_def)
qed (use assms(1) in simp)

lemma send_moves:
  assumes "w_send k \<noteq> Gone" "w_timeout k = TGone" "\<not> s_running (c_sender c)"
    and "hands_ok (c, k)" "\<not> holds_state_mutex (c_api c)"
  shows "moves_on (c, k)"
proof -
  have free: "\<not> queue_held k" "\<not> window_held k"
    using assms(2) by (simp_all add: queue_held_def window_held_def)
  show ?thesis
  proof (cases "w_send k")
    case AtHead
    from moves_onI [OF send_leaves [OF AtHead assms(3)]] AtHead show ?thesis by (simp add: work_left_def)
  next
    case inside: Inside
    show ?thesis
    proof (cases "c_popped c")
      case None
      obtain x s where pop: "send_handler_pop (c_sender c) = (x, s)" by (metis surj_pair)
      from moves_onI [OF send_pops [OF inside None free(1) pop]] inside None show ?thesis
        by (cases x) (simp_all add: work_left_def)
    next
      case (Some sq)
      then have popped: "c_popped c \<noteq> None" by simp
      show ?thesis
      proof (cases "c_locked c")
        case True
        from moves_onI [OF send_sends [OF Some True _ disjI2 [OF free(2)], of os_ok 0]] assms(5) inside Some True
        show ?thesis by (simp add: work_left_def)
      next
        case False
        from moves_onI [OF send_locks [OF popped False]] inside Some False show ?thesis
          by (simp add: work_left_def)
      qed
    qed
  qed (use assms(1) in simp)
qed

lemma recv_moves:
  assumes "w_recv k \<noteq> Gone" "w_send k = Gone" "w_timeout k = TGone" "\<not> s_running (c_sender c)"
    and "hands_ok (c, k)" "\<not> holds_state_mutex (c_api c)"
  shows "moves_on (c, k)"
proof -
  have free: "\<not> queue_held k" "\<not> window_held k" "\<not> c_locked c"
    using assms(2,3,5) by (simp_all add: queue_held_def window_held_def hands_ok_def)
  show ?thesis
  proof (cases "w_recv k")
    case AtHead
    from moves_onI [OF recv_leaves [OF AtHead assms(4)]] AtHead show ?thesis by (simp add: work_left_def)
  next
    case inside: Inside
    show ?thesis
    proof (cases "c_got c")
      case None
      have "recv_handler_recv (RecvFailed EAGAIN) (c_sender c) = Inr (None, c_sender c)"
        by (simp add: recv_handler_recv_def socket_recv_def is_fatal_error_iff EAGAIN_def)
      from moves_onI [OF recv_hears [OF inside None this]] inside None show ?thesis
        by (simp add: work_left_def RecvNothing_def)
    next
      case got: (Some p)
      show ?thesis
      proof (cases "c_enter c")
        case None
        from moves_onI [OF recv_acked [OF got None free(3,2)]] free(1) inside got None show ?thesis
          by (simp add: work_left_def)
      next
        case (Some st)
        from moves_onI [OF recv_switches [OF Some assms(6)]] inside got Some show ?thesis
          by (simp add: work_left_def)
      qed
    qed
  qed (use assms(1) in simp)
qed

lemma some_worker_moves:
  assumes "\<not> all_gone (snd w)" "\<not> s_running (c_sender (fst w))" "hands_ok w"
    and "\<not> holds_state_mutex (c_api (fst w))"
  shows "moves_on w"
  using assms timeout_moves [of "snd w" "fst w"] send_moves [of "snd w" "fst w"] recv_moves [of "snd w" "fst w"]
  by (cases w) (auto simp: all_gone_def)

text \<open>So the workers leave, in whatever order they are scheduled.\<close>

lemma workers_leave:
  assumes "\<not> s_running (y_sender y)" "hands_ok (y_client y, k)" "\<not> holds_state_mutex (c_api (y_client y))"
  shows "\<exists>y' k'. threads_step\<^sup>*\<^sup>* (y, k) (y', k') \<and> all_gone k'"
  using assms
proof (induction "work_left (y_client y, k)" arbitrary: y k rule: less_induct)
  case less
  show ?case
  proof (cases "all_gone k")
    case False
    have "moves_on (y_client y, k)" using some_worker_moves [of "(y_client y, k)"] False less.prems by simp
    then obtain l c1 k1 where step: "worker_step l (y_client y, k) (c1, k1)" "l = Works \<or> l = RecvNothing"
      "c_api c1 = c_api (y_client y)" "work_left (c1, k1) < work_left (y_client y, k)"
      by (auto simp: moves_on_def)
    let ?y = "y\<lparr>y_client := c1\<rparr>"
    have one: "threads_step (y, k) (?y, k1)"
      using step(2) by (intro threads_worker [OF step(1)]) (auto simp: RecvNothing_def deliverable_def)
    have "\<not> s_running (c_sender c1)"
      using worker_client [OF step(1)] less.prems(1) client_step_running by blast
    moreover have "hands_ok (c1, k1)" by (rule hands_ok_step [OF step(1) less.prems(2)])
    ultimately obtain y' k' where "threads_step\<^sup>*\<^sup>* (?y, k1) (y', k')" "all_gone k'"
      using less.hyps [of ?y k1] less.prems(3) step(3,4) by auto
    with one show ?thesis by (blast intro: converse_rtranclp_into_rtranclp)
  qed blast
qed

text \<open>C33: \<open>stop\<close> joins the workers of a sender in whatever state: once the flag is down and the
  caller is out of its calls, the threads can always finish what they hold and leave; and they
  cannot put it off, since every step that moves a worker brings it nearer to its end.\<close>

theorem stop_joins_workers:
  assumes "threads_reach (y, k)" "api_free (c_api (y_client y))" "\<not> s_running (y_sender y)"
  shows "(\<exists>y' k'. threads_step\<^sup>*\<^sup>* (y, k) (y', k') \<and> stop_joins k' = Some no_error) \<and>
    wf {(w', w). threads_reach w \<and> threads_step w w' \<and> \<not> s_running (y_sender (fst w)) \<and>
      workers_at (threads_of w') \<noteq> workers_at (threads_of w)}"
proof
  have "hands_ok (y_client y, k)" using hands.reach_inv [OF assms(1)] by simp
  then show "\<exists>y' k'. threads_step\<^sup>*\<^sup>* (y, k) (y', k') \<and> stop_joins k' = Some no_error"
    using workers_leave [OF assms(3), of k] mutex_not_free assms(2) by (auto simp: stop_joins_def)
  have "work_left (threads_of w') < work_left (threads_of w)"
    if "threads_reach w" "threads_step w w'" "\<not> s_running (y_sender (fst w))"
      "workers_at (threads_of w') \<noteq> workers_at (threads_of w)" for w w'
    using that(2)
  proof (cases rule: threads_worker_cases)
    case (1 l)
    then show ?thesis using work_left_step [OF 1] hands.reach_inv [OF that(1)] that(3,4) by simp
  qed (use that(4) in simp)
  then show "wf {(w', w). threads_reach w \<and> threads_step w w' \<and> \<not> s_running (y_sender (fst w)) \<and>
      workers_at (threads_of w') \<noteq> workers_at (threads_of w)}"
    by (intro wf_subset [OF wf_measure [of "\<lambda>w. work_left (threads_of w)"]]) auto
qed

text \<open>A sender stopped while its send thread waits for a number.\<close>

theorem stop_joins_workers_witness:
  "\<exists>w. threads_reach w \<and> w_send (snd w) = Inside \<and>
     (\<exists>y' k'. threads_step\<^sup>*\<^sup>* w (y', k') \<and> stop_joins k' = Some no_error)"
proof -
  let ?y = "system_at_start True" and ?k = "at_heads\<lparr>w_send := Inside\<rparr>"
  let ?c = "(y_client ?y)\<lparr>c_sender := snd (sender_stop (y_sender ?y))\<rparr>"
  have here: "s_running (y_sender ?y)" "c_api (y_client ?y) = Ready"
    by (simp_all add: system_at_start_def sender_init_def)
  have "threads_reach (?y, at_heads)"
    by (rule reach_start) (simp add: threads_start_def system_at_start)
  moreover have "threads_step (?y, at_heads) (?y, ?k)"
    using threads_worker [of Works ?y at_heads "y_client ?y" ?k] send_enters [of at_heads "y_client ?y"] here
    by (simp add: at_heads_def)
  moreover have "threads_step (?y, ?k) (?y\<lparr>y_client := ?c\<rparr>, ?k)"
    using threads_worker [of Stops ?y ?k ?c ?k] worker_stop [of "y_client ?y" ?k] here by simp
  ultimately have reach: "threads_reach (?y\<lparr>y_client := ?c\<rparr>, ?k)" by (blast intro: reach_step)
  have "\<not> s_running (c_sender ?c)" by (simp add: sender_stop_def)
  with stop_joins_workers [OF reach] here(2)
  have "\<exists>y' k'. threads_step\<^sup>*\<^sup>* (?y\<lparr>y_client := ?c\<rparr>, ?k) (y', k') \<and> stop_joins k' = Some no_error" by simp
  with reach show ?thesis by (intro exI [of _ "(?y\<lparr>y_client := ?c\<rparr>, ?k)"]) simp
qed

end
