(* ===== verification/FromStart.thy ===== *)
theory FromStart
  imports Stopping
begin

text \<open>
  A file from nothing: whatever the modes, the sizes and the file, two ends that have just been
  started can connect, send the whole of it and have it written, if the retries and the numbers
  suffice. The two handshakes, of \<open>connect\<close> and of the push packet, are one exchange of a
  packet for its acknowledgement; the rest is Completion.
\<close>

subsection \<open>One exchange\<close>

text \<open>Everything made so far has been acknowledged, and nobody has anything in hand.\<close>

definition at_rest :: "SequenceNumber \<Rightarrow> System \<Rightarrow> bool" where
  "at_rest sq y \<longleftrightarrow>
     c_popped (y_client y) = None \<and> \<not> c_locked (y_client y) \<and> c_got (y_client y) = None \<and>
     c_enter (y_client y) = None \<and> s_running (y_sender y) \<and>
     container (s_pending_queue (y_sender y)) = {} \<and> s_acked_seq_set (y_sender y) = {} \<and>
     lower_bound (s_window (y_sender y)) = sq \<and> upper_bound (s_window (y_sender y)) = sq \<and>
     (\<forall>x. sq \<le> x \<longrightarrow> s_packet_pool (y_sender y) x = None \<and> s_retry_count (y_sender y) x = None) \<and>
     (\<forall>x. s_retry_count (y_sender y) x \<in> {None, Some 0}) \<and>
     r_running (y_receiver y) \<and> \<not> y_done y \<and>
     s_selective_repeat (y_sender y) = r_selective_repeat (y_receiver y) \<and>
     max_buf_size (s_channel (y_sender y)) = max_buf_size (r_channel (y_receiver y)) \<and>
     12 \<le> unat (max_buf_size (r_channel (y_receiver y)))"

text \<open>The control points of a call around \<open>send_packet\<close>: \<open>f\<close> inside it, \<open>w\<close> behind it.\<close>

definition around :: "(SendPc \<Rightarrow> ApiPc) \<Rightarrow> ApiPc \<Rightarrow> bool" where
  "around f w \<longleftrightarrow>
     (\<forall>sp s. api_step 1 (f sp) s =
        (case send_packet_step sp s of (Some sp, s) \<Rightarrow> Inr (f sp, s) | (None, s) \<Rightarrow> Inr (w, s))) \<and>
     (\<forall>sp. send_pc_of (f sp) = Some sp) \<and> send_pc_of w = None \<and> \<not> holds_state_mutex w"

lemma around_calls: "around ConnectSend ConnectWait" "around (\<lambda>sp. PushSend sp is) (PushWait is)"
  by (auto simp: around_def)

lemma empty_packet: "packet_ok (mk_packet v k sq []) \<longleftrightarrow> kind_ok k" "length (to_bytes (mk_packet v k sq [])) = 12"
  by (simp_all add: packet_ok_def mk_packet_def length_to_bytes reserve_size_def)

text \<open>The caller makes the packet and enters it.\<close>

lemma asks:
  assumes "around f w" "c_api c = f (SpPoll k [])" "\<not> c_locked c" "0 < window_limit (s_window (c_sender c))"
    and "lower_bound (s_window (c_sender c)) = sq" "upper_bound (s_window (c_sender c)) = sq"
  shows "quiet_steps c (c\<lparr>c_api := w,
    c_sender := send_packet_enqueue (mk_packet NKURDT_VERSION k sq [])
      ((c_sender c)\<lparr>s_window := update_upper_bound (s_window (c_sender c))\<rparr>),
    c_hist := c_hist c @ [mk_packet NKURDT_VERSION k sq []]\<rparr>)"
proof -
  let ?s = "c_sender c" and ?p = "mk_packet NKURDT_VERSION k sq []"
  let ?s1 = "?s\<lparr>s_window := update_upper_bound (s_window ?s)\<rparr>"
  let ?c1 = "c\<lparr>c_api := f (SpReserved ?p), c_sender := ?s1, c_hist := c_hist c @ [?p]\<rparr>"
  have "window_available (s_window ?s)"
    using assms(4-6) by (simp add: window_available_iff in_flight_ordered)
  then have a1: "api_step 1 (c_api c) ?s = Inr (f (SpReserved ?p), ?s1)"
    using assms(1,2,6) by (simp add: around_def send_packet_poll_def send_packet_reserve_def Let_def)
  have n1: "new_packets (c_api c) (f (SpReserved ?p)) = [?p]" "reserved_of (c_api c) = None"
    using assms(1,2) by (simp_all add: around_def new_packets_def reserved_of_def)
  have st1: "client_step Works c ?c1" using client_api [OF a1] n1 by simp
  have a2: "api_step 1 (c_api ?c1) (c_sender ?c1) = Inr (w, send_packet_enqueue ?p ?s1)"
    using assms(1) by (simp add: around_def)
  have n2: "new_packets (c_api ?c1) w = []"
    using assms(1) by (simp add: around_def new_packets_def reserved_of_def)
  have "client_step Works ?c1 (?c1\<lparr>c_api := w, c_sender := send_packet_enqueue ?p ?s1, c_hist := c_hist ?c1 @ []\<rparr>)"
    using client_api [OF a2] n2 assms(3) by simp
  with st1 show ?thesis by (auto intro: converse_rtranclp_into_rtranclp)
qed

text \<open>The send thread sends it.\<close>

definition sent_once :: "SequenceNumber \<Rightarrow> Packet \<Rightarrow> Sender \<Rightarrow> Sender" where
  "sent_once sq p s =
     s\<lparr>s_pending_queue := \<lparr>container = {}\<rparr>, s_retry_count := (s_retry_count s)(sq \<mapsto> 0),
       s_channel := snd (socket_send os_ok (s_peer_addr s) (to_bytes p) (s_channel s)),
       s_timer := register_event sq (s_timeout s) 0 (s_timer s)\<rparr>"

lemma goes_out:
  assumes "c_popped c = None" "\<not> c_locked c" "\<not> holds_state_mutex (c_api c)"
    and "container (s_pending_queue (c_sender c)) = {sq}" "s_packet_pool (c_sender c) sq = Some p"
    and "s_retry_count (c_sender c) sq = None" "sq \<notin> s_acked_seq_set (c_sender c)"
    and "lower_bound (s_window (c_sender c)) = sq" "upper_bound (s_window (c_sender c)) \<noteq> sq"
  shows "quiet_steps c (c\<lparr>c_sender := sent_once sq p (c_sender c)\<rparr>)"
proof -
  let ?s1 = "(c_sender c)\<lparr>s_pending_queue := \<lparr>container = {}\<rparr>\<rparr>"
  let ?c1 = "c\<lparr>c_popped := Some sq, c_sender := ?s1\<rparr>"
  have "send_handler_pop (c_sender c) = (Some sq, ?s1)"
    using assms(4) by (simp add: send_handler_pop_def queue_wait_pop_def Let_def)
  then have st1: "client_step Works c ?c1" by (rule client_pop [OF assms(1)])
  have st2: "client_step Works ?c1 (?c1\<lparr>c_locked := True\<rparr>)"
    using assms(2) by (intro client_lock) simp_all
  have "send_handler_body os_ok 0 sq ?s1 = sent_once sq p (c_sender c)"
    using assms(5-9) by (simp add: send_handler_body_def transmit_def sent_once_def)
  moreover have "client_step Works (?c1\<lparr>c_locked := True\<rparr>)
      (?c1\<lparr>c_popped := None, c_locked := False, c_sender := send_handler_body os_ok 0 sq ?s1\<rparr>)"
    using client_body [of "?c1\<lparr>c_locked := True\<rparr>" sq os_ok 0] assms(3) by simp
  moreover have "?c1\<lparr>c_popped := None, c_locked := False, c_sender := sent_once sq p (c_sender c)\<rparr> =
      c\<lparr>c_sender := sent_once sq p (c_sender c)\<rparr>"
    using assms(1,2) by (cases c) simp
  ultimately have st3: "client_step Works (?c1\<lparr>c_locked := True\<rparr>) (c\<lparr>c_sender := sent_once sq p (c_sender c)\<rparr>)"
    by simp
  show ?thesis using st1 st2 st3 by (blast intro: converse_rtranclp_into_rtranclp)
qed

text \<open>The receive thread handles the answer.\<close>

lemma acked_one:
  assumes "lower_bound (s_window s) = sq" "upper_bound (s_window s) = update_seq sq" "s_acked_seq_set s = {}"
    and "seq a = (if s_selective_repeat s then sq else update_seq sq)" "sn sq < 4294967295"
  shows "recv_handler_acked a s =
    (if s_selective_repeat s then s else s\<lparr>s_ack_dup_times := 0\<rparr>)\<lparr>s_window := set_lower_bound (update_seq sq) (s_window s)\<rparr>"
proof (cases "s_selective_repeat s")
  case True
  have "slide_acked {sq} (s_window s) = slide_acked {} (update_lower_bound (s_window s))"
    using assms(1) by (simp add: slide_acked.simps [of "{sq}"])
  also have "\<dots> = ({}, update_lower_bound (s_window s))"
    by (simp add: slide_acked.simps)
  finally show ?thesis
    using assms(1,3,4) True
    by (cases s) (simp add: recv_handler_acked_def update_lower_bound_def set_lower_bound_def)
next
  case False
  have "sq < update_seq sq" using assms(5) by (simp add: seq_less_iff sn_update)
  then show ?thesis
    using assms(1,3,4) False by (cases s) (auto simp: gbn_acked_eq)
qed

lemma answered:
  assumes "c_got c = None" "c_enter c = None" "\<not> c_locked c" "\<not> holds_state_mutex (c_api c)"
    and "recv_handler_recv d (c_sender c) = Inr (Some a, c_sender c)"
    and "recv_handler_switch a (c_sender c) = Some st"
  obtains c1 where "client_step (Hears d) c c1"
    "quiet_steps c1 (c\<lparr>c_sender := recv_handler_acked a (enter_state st (c_sender c))\<rparr>)"
proof -
  let ?c1 = "c\<lparr>c_got := Some a, c_enter := Some st\<rparr>"
  let ?c2 = "?c1\<lparr>c_enter := None, c_sender := enter_state st (c_sender c)\<rparr>"
  have st1: "client_step (Hears d) c ?c1"
    using client_receive [OF assms(1,5)] assms(6) by simp
  have st2: "client_step Works ?c1 ?c2" using client_enter [of ?c1 st] assms(4) by simp
  have "client_step Works ?c2 (?c2\<lparr>c_got := None, c_sender := recv_handler_acked a (c_sender ?c2)\<rparr>)"
    using assms(3) by (intro client_acked) simp_all
  moreover have "?c2\<lparr>c_got := None, c_sender := recv_handler_acked a (c_sender ?c2)\<rparr> =
      c\<lparr>c_sender := recv_handler_acked a (enter_state st (c_sender c))\<rparr>"
    using assms(1,2) by (cases c) simp
  ultimately have "quiet_steps ?c1 (c\<lparr>c_sender := recv_handler_acked a (enter_state st (c_sender c))\<rparr>)"
    using st2 by (simp add: converse_rtranclp_into_rtranclp r_into_rtranclp)
  with st1 show ?thesis by (rule that)
qed

lemma outbox_sent_once:
  "length (to_bytes p) \<le> unat (max_buf_size (s_channel s)) \<Longrightarrow>
     to_bytes p \<in> snd ` set (outbox (s_channel (sent_once sq p s)))"
  by (simp add: sent_once_def outbox_send os_ok_def)

lemma received_whole:
  assumes "packet_ok p" "length (to_bytes p) \<le> unat (max_buf_size (r_channel r))"
  shows "turn_packet (RecvDatagram (to_bytes p) addr) r = Some p"
    "recv_iter a (RecvDatagram (to_bytes p) addr) r = recv_packet a p addr r"
  using assms by (simp_all add: turn_packet_def recv_iter_def socket_recv_def decode_encode_ok)

lemma exchange:
  assumes rest: "at_rest sq y" and api: "around f w" "c_api (y_client y) = f (SpPoll k [])"
    and window: "0 < window_limit (s_window (y_sender y))" "sn sq < 4294967295"
    and kinds: "kind_ok k" "kind_ok ka" and p: "p = mk_packet NKURDT_VERSION k sq []"
    and a: "a = mk_packet NKURDT_VERSION ka (if r_selective_repeat (y_receiver y) then sq else update_seq sq) []"
    and turn: "recv_packet os_ok p addr_zero (y_receiver y) = Inr (NextTurn, r')"
    and r': "r_running r'" "r_selective_repeat r' = r_selective_repeat (y_receiver y)"
      "max_buf_size (r_channel r') = max_buf_size (r_channel (y_receiver y))"
      "to_bytes a \<in> snd ` set (outbox (r_channel r'))"
    and switch: "\<And>s. s_state s = s_state (y_sender y) \<Longrightarrow> recv_handler_switch a s = Some st"
  obtains y' where "sys_step\<^sup>*\<^sup>* y y'" "at_rest (update_seq sq) y'" "c_api (y_client y') = w"
    "s_state (y_sender y') = st" "y_receiver y' = r'" "y_hist y' = y_hist y @ [p]"
    "y_opened y' = y_opened y + (if opens p (y_receiver y) then 1 else 0)"
    "y_base y' = (if opens p (y_receiver y) then Some (sn sq) else y_base y)"
    "fixed_parts y' = fixed_parts y"
proof -
  let ?c = "y_client y" and ?r = "y_receiver y"
  note rest = rest [unfolded at_rest_def]
  let ?s1 = "send_packet_enqueue p ((y_sender y)\<lparr>s_window := update_upper_bound (s_window (y_sender y))\<rparr>)"
  let ?c1 = "?c\<lparr>c_api := w, c_sender := ?s1, c_hist := y_hist y @ [p]\<rparr>"
  let ?s2 = "sent_once sq p ?s1"
  let ?c2 = "?c1\<lparr>c_sender := ?s2\<rparr>"
  have q1: "quiet_steps ?c ?c1"
    using asks [OF api(1,2) _ window(1)] rest by (simp add: p)
  have fresh: "container (s_pending_queue ?s1) = {sq}" "s_packet_pool ?s1 sq = Some p"
    using rest by (simp_all add: send_packet_enqueue_def queue_push_def p mk_packet_def)
  have "quiet_steps ?c1 ?c2"
    using goes_out [of ?c1 sq p] fresh rest api(1)
    by (simp add: around_def send_packet_enqueue_def)
  with q1 have "quiet_steps ?c ?c2" by (rule rtranclp_trans)
  then have run1: "sys_step\<^sup>*\<^sup>* y (y\<lparr>y_client := ?c2\<rparr>)" by (rule quiet_sys)
  have size: "length (to_bytes p) \<le> unat (max_buf_size (r_channel ?r))"
    "length (to_bytes p) \<le> unat (max_buf_size (s_channel ?s1))"
    using rest by (simp_all add: p empty_packet send_packet_enqueue_def)
  have ok: "packet_ok p" "packet_ok a" using kinds by (simp_all add: p a empty_packet)
  let ?d = "RecvDatagram (to_bytes p) addr_zero"
  let ?y3 = "y\<lparr>y_client := ?c2, y_receiver := r', y_done := False,
    y_opened := y_opened y + (if opens p ?r then 1 else 0),
    y_base := (if opens p ?r then Some (sn sq) else y_base y)\<rparr>"
  have at: "opened_at ?d ?r = (if opens p ?r then Some (sn sq) else None)"
    using received_whole(1) [OF ok(1) size(1)] by (simp add: opened_at_def p mk_packet_def)
  have "recv_iter os_ok ?d ?r = Inr (NextTurn, r')"
    using received_whole(2) [OF ok(1) size(1)] turn by simp
  moreover have "deliverable (s_channel ?s2) (r_channel ?r) ?d"
    using outbox_sent_once [OF size(2)] by (simp add: deliverable_def)
  ultimately have "sys_step (y\<lparr>y_client := ?c2\<rparr>) ?y3"
    using sys_receiver [of "y\<lparr>y_client := ?c2\<rparr>" ?d os_ok NextTurn r'] rest
    by (cases "opens p ?r") (simp_all add: at)
  with run1 have run3: "sys_step\<^sup>*\<^sup>* y ?y3" by (rule rtranclp.rtrancl_into_rtrancl)
  let ?e = "RecvDatagram (to_bytes a) addr_zero" and ?s3 = "enter_state st ?s2"
  have "length (to_bytes a) \<le> unat (max_buf_size (s_channel ?s2))"
    using rest by (simp add: a empty_packet sent_once_def send_packet_enqueue_def)
  then have recv: "recv_handler_recv ?e ?s2 = Inr (Some a, ?s2)"
    using ok(2) by (simp add: recv_handler_recv_def socket_recv_def decode_encode_ok)
  have sw: "recv_handler_switch a ?s2 = Some st"
    by (rule switch) (simp add: sent_once_def send_packet_enqueue_def)
  obtain c4 where c4: "client_step (Hears ?e) ?c2 c4" "quiet_steps c4 (?c2\<lparr>c_sender := recv_handler_acked a ?s3\<rparr>)"
    by (rule answered [of ?c2 ?e a st]) (use rest api(1) recv sw in \<open>simp_all add: around_def\<close>)
  have "sys_step ?y3 (?y3\<lparr>y_client := c4\<rparr>)"
    using r'(4) c4(1) by (intro sys_client [of "Hears ?e"]) (simp_all add: deliverable_def)
  moreover have "sys_step\<^sup>*\<^sup>* (?y3\<lparr>y_client := c4\<rparr>) (?y3\<lparr>y_client := ?c2\<lparr>c_sender := recv_handler_acked a ?s3\<rparr>\<rparr>)"
    using quiet_sys [of "?y3\<lparr>y_client := c4\<rparr>"] c4(2) by simp
  ultimately have run: "sys_step\<^sup>*\<^sup>* y (?y3\<lparr>y_client := ?c2\<lparr>c_sender := recv_handler_acked a ?s3\<rparr>\<rparr>)"
    using run3 by (meson rtranclp.rtrancl_into_rtrancl rtranclp_trans)
  let ?y = "?y3\<lparr>y_client := ?c2\<lparr>c_sender := recv_handler_acked a ?s3\<rparr>\<rparr>"
  have s4: "recv_handler_acked a ?s3 =
      (if s_selective_repeat ?s3 then ?s3 else ?s3\<lparr>s_ack_dup_times := 0\<rparr>)\<lparr>s_window := set_lower_bound (update_seq sq) (s_window ?s3)\<rparr>"
    using rest window(2)
    by (intro acked_one) (simp_all add: enter_state_def sent_once_def send_packet_enqueue_def a mk_packet_def)
  have above: "update_seq sq \<le> x \<Longrightarrow> sq \<le> x \<and> x \<noteq> sq" for x
    using window(2) by (auto simp: seq_le_iff sn_update)
  have s5: "s_running (recv_handler_acked a ?s3) = s_running (y_sender y)"
    "container (s_pending_queue (recv_handler_acked a ?s3)) = {}"
    "s_acked_seq_set (recv_handler_acked a ?s3) = {}" "s_state (recv_handler_acked a ?s3) = st"
    "lower_bound (s_window (recv_handler_acked a ?s3)) = update_seq sq"
    "upper_bound (s_window (recv_handler_acked a ?s3)) = update_seq sq"
    "s_packet_pool (recv_handler_acked a ?s3) = (s_packet_pool (y_sender y))(sq \<mapsto> p)"
    "s_retry_count (recv_handler_acked a ?s3) = (s_retry_count (y_sender y))(sq \<mapsto> 0)"
    "s_selective_repeat (recv_handler_acked a ?s3) = s_selective_repeat (y_sender y)"
    "max_buf_size (s_channel (recv_handler_acked a ?s3)) = max_buf_size (s_channel (y_sender y))"
    unfolding s4 using rest
    by (simp_all add: enter_state_def sent_once_def send_packet_enqueue_def p mk_packet_def)
  have "at_rest (update_seq sq) ?y"
    using rest r' above by (simp add: at_rest_def s5)
  moreover have "fixed_parts ?y = fixed_parts y" by (rule fixed_run [OF run])
  ultimately show ?thesis
    using run s5(4) by (intro that [of ?y]) simp_all
qed

subsection \<open>The receiver's turns\<close>

lemma slide_one:
  "seq p = first \<Longrightarrow> payload p = [] \<Longrightarrow>
     slide_buffer [p] first second (Some w) = ([], update_seq first, update_seq second, Some w)"
  by (simp add: os_write_def)

lemma reply_sent:
  "r_peer_addr r \<noteq> None \<Longrightarrow> 12 \<le> unat (max_buf_size (r_channel r)) \<Longrightarrow>
     to_bytes (mk_packet NKURDT_VERSION k sq []) \<in> snd ` set (outbox (r_channel (reply_ack os_ok k sq r)))"
  by (auto simp: reply_ack_def outbox_send empty_packet os_ok_def)

lemma reply_frame:
  "r_running (reply_ack a k sq r) = r_running r" "r_state (reply_ack a k sq r) = r_state r"
  "r_selective_repeat (reply_ack a k sq r) = r_selective_repeat r"
  "max_buf_size (r_channel (reply_ack a k sq r)) = max_buf_size (r_channel r)"
  "r_peer_addr (reply_ack a k sq r) = r_peer_addr r"
  "r_window_first (reply_ack a k sq r) = r_window_first r"
  "r_window_second (reply_ack a k sq r) = r_window_second r"
  "r_recv_buffer (reply_ack a k sq r) = r_recv_buffer r" "r_os (reply_ack a k sq r) = r_os r"
  by (simp_all add: reply_ack_def split: option.splits)

text \<open>A turn that takes one control packet at the front of an empty buffer.\<close>

lemma control_turn:
  assumes "p = mk_packet NKURDT_VERSION k sq []" "get_ack_kind k = Some ka" "\<not> is_ack p"
    and "r_state r = RIdle \<or> r_window_first r = sq \<and> sq < r_window_second r"
    and "recv_switch p addr_zero r = (r1, False)" "r_window_first r1 = sq" "r_state r1 \<noteq> RIdle"
    and "r_recv_buffer r1 = []" "r_os r1 = Some os" "r_peer_addr r1 \<noteq> None"
    and "12 \<le> unat (max_buf_size (r_channel r1))"
  obtains r' where "recv_packet os_ok p addr_zero r = Inr (NextTurn, r')"
    "r_running r' = r_running r1" "r_state r' = r_state r1" "r_selective_repeat r' = r_selective_repeat r1"
    "max_buf_size (r_channel r') = max_buf_size (r_channel r1)" "r_peer_addr r' = r_peer_addr r1"
    "r_window_first r' = update_seq sq" "r_window_second r' = update_seq (r_window_second r1)"
    "r_recv_buffer r' = []" "r_os r' = Some os"
    "to_bytes (mk_packet NKURDT_VERSION ka (if r_selective_repeat r1 then sq else update_seq sq) [])
      \<in> snd ` set (outbox (r_channel r'))"
proof -
  let ?r2 = "r1\<lparr>r_recv_buffer := [], r_window_first := update_seq sq,
    r_window_second := update_seq (r_window_second r1), r_os := Some os\<rparr>"
  let ?r' = "reply_ack os_ok ka (if r_selective_repeat r1 then sq else update_seq sq) ?r2"
  have "recv_deliver p r1 = ?r2"
    using assms(1,6,8,9) slide_one [of p sq] by (simp add: recv_deliver_def mk_packet_def)
  then have "recv_packet os_ok p addr_zero r = Inr (NextTurn, ?r')"
    using assms(1-7) by (auto simp: recv_packet_def Let_def mk_packet_def reply_frame)
  moreover have "to_bytes (mk_packet NKURDT_VERSION ka (if r_selective_repeat r1 then sq else update_seq sq) [])
      \<in> snd ` set (outbox (r_channel ?r'))"
    using assms(10,11) by (intro reply_sent) simp_all
  ultimately show ?thesis by (intro that [of ?r']) (simp_all add: reply_frame)
qed

subsection \<open>Connecting\<close>

text \<open>The sizes with which anything can be sent.\<close>

definition sizes_ok :: "System \<Rightarrow> bool" where
  "sizes_ok y \<longleftrightarrow>
     0 < unat (r_max_window_size (y_receiver y)) mod 4294967296 \<and>
     0 < window_limit (s_window (y_sender y)) \<and>
     NKURDT_MAX_PACKET_SIZE \<le> unat (max_buf_size (s_channel (y_sender y)))"

lemma sizes_fixed: "fixed_parts y' = fixed_parts y \<Longrightarrow> sizes_ok y' = sizes_ok y"
  by (simp add: fixed_parts_def sizes_ok_def window_limit_def)

lemma start_at_rest:
  assumes "sys_start y" "sizes_ok y"
  shows "at_rest (SequenceNumber 0) y" "c_api (y_client y) = Ready" "y_hist y = []" "y_opened y = 0"
    "r_state (y_receiver y) = RIdle" "r_recv_buffer (y_receiver y) = []" "r_os (y_receiver y) = Some []"
  using assms
  by (auto simp: sys_start_def at_rest_def sender_init_def sender_fresh_def recv_start_def receiver_fresh_def
      sizes_ok_def NKURDT_MAX_PACKET_SIZE_def)

text \<open>A call, or one of its steps that makes no packet, seen from the system.\<close>

lemma sys_call:
  "api_free (c_api (y_client y)) \<Longrightarrow> api_call (y_sender y) out \<Longrightarrow>
     sys_step y (y\<lparr>y_client := start_call out (y_client y)\<rparr>)"
  by (rule sys_client [OF client_start_call]) auto

lemma sys_wait:
  assumes "api_step 1 (c_api (y_client y)) (y_sender y) = Inr (pc, y_sender y)"
    and "send_pc_of (c_api (y_client y)) = None" "send_pc_of pc = None"
  shows "sys_step y (y\<lparr>y_client := (y_client y)\<lparr>c_api := pc\<rparr>\<rparr>)"
proof -
  have "new_packets (c_api (y_client y)) pc = []" "reserved_of (c_api (y_client y)) = None"
    using assms(2,3) by (simp_all add: new_packets_def reserved_of_def)
  then have "client_step Works (y_client y) ((y_client y)\<lparr>c_api := pc\<rparr>)"
    using client_api [OF assms(1)] by simp
  then show ?thesis by (rule sys_client) simp
qed

lemma connects:
  assumes "sys_start y" "sizes_ok y"
    and "unat (r_max_window_size (y_receiver y)) mod 4294967296 < 4294967295"
  obtains y' where "sys_step\<^sup>*\<^sup>* y y'" "at_rest (SequenceNumber 1) y'"
    "c_api (y_client y') = Returned no_error" "s_state (y_sender y') = Connected"
    "y_hist y' = [mk_packet NKURDT_VERSION ConnReq (SequenceNumber 0) []]" "y_opened y' = 1" "y_base y' = Some 0"
    "r_state (y_receiver y') = RConnected" "r_window_first (y_receiver y') = SequenceNumber 1"
    "SequenceNumber 1 < r_window_second (y_receiver y')" "r_recv_buffer (y_receiver y') = []"
    "r_os (y_receiver y') = Some []" "r_peer_addr (y_receiver y') \<noteq> None" "fixed_parts y' = fixed_parts y"
proof -
  note at = start_at_rest [OF assms(1,2)]
  let ?c = "start_call (connect_call addr_zero (y_sender y)) (y_client y)"
  let ?y1 = "y\<lparr>y_client := ?c\<rparr>"
  let ?sq = "SequenceNumber 0" and ?r = "y_receiver y"
  let ?p = "mk_packet NKURDT_VERSION ConnReq ?sq []"
  let ?r1 = "?r\<lparr>r_peer_addr := Some addr_zero, r_state := RConnected, r_window_first := ?sq,
    r_window_second := ?sq + SequenceNumber (ucast (r_max_window_size ?r))\<rparr>"
  have step: "sys_step y ?y1" using at(2) by (intro sys_call) (auto simp: api_call_def)
  have fixed1: "fixed_parts ?y1 = fixed_parts y" by (rule fixed_step [OF step])
  have rest: "at_rest ?sq ?y1" using at(1) by (simp add: at_rest_def start_call_def connect_call_def)
  have sw: "recv_switch ?p addr_zero ?r = (?r1, False)"
    using at(5) by (simp add: recv_switch_def mk_packet_def)
  obtain r' where turn: "recv_packet os_ok ?p addr_zero ?r = Inr (NextTurn, r')"
    and r': "r_running r' = r_running ?r1" "r_state r' = r_state ?r1"
      "r_selective_repeat r' = r_selective_repeat ?r1" "max_buf_size (r_channel r') = max_buf_size (r_channel ?r1)"
      "r_peer_addr r' = r_peer_addr ?r1" "r_window_first r' = update_seq ?sq"
      "r_window_second r' = update_seq (r_window_second ?r1)" "r_recv_buffer r' = []" "r_os r' = Some []"
      "to_bytes (mk_packet NKURDT_VERSION ConnAck (if r_selective_repeat ?r1 then ?sq else update_seq ?sq) [])
        \<in> snd ` set (outbox (r_channel r'))"
    by (rule control_turn [of ?p ConnReq ?sq ConnAck ?r ?r1 "[]"])
      (use at rest sw in \<open>simp_all add: get_ack_kind_def is_ack_def mk_packet_def at_rest_def\<close>)
  have call: "c_api (y_client ?y1) = ConnectSend (SpPoll ConnReq [])" "s_state (y_sender ?y1) = Connecting"
    "window_limit (s_window (y_sender ?y1)) = window_limit (s_window (y_sender y))"
    by (simp_all add: start_call_def connect_call_def)
  let ?a = "mk_packet NKURDT_VERSION ConnAck (if r_selective_repeat (y_receiver ?y1) then ?sq else update_seq ?sq) []"
  have switch: "recv_handler_switch ?a s = Some Connected" if "s_state s = s_state (y_sender ?y1)" for s
    using that unfolding call(2) by (simp add: recv_handler_switch_def mk_packet_def)
  have window: "0 < window_limit (s_window (y_sender ?y1))" "sn ?sq < 4294967295"
    using assms(2) unfolding call by (simp_all add: sizes_ok_def)
  have turn1: "recv_packet os_ok ?p addr_zero (y_receiver ?y1) = Inr (NextTurn, r')" using turn by simp
  have ends: "r_running r'" "r_selective_repeat r' = r_selective_repeat (y_receiver ?y1)"
    "max_buf_size (r_channel r') = max_buf_size (r_channel (y_receiver ?y1))"
    "to_bytes ?a \<in> snd ` set (outbox (r_channel r'))"
    using r' rest by (simp_all add: at_rest_def)
  obtain y2 where y2: "sys_step\<^sup>*\<^sup>* ?y1 y2" "at_rest (update_seq ?sq) y2" "c_api (y_client y2) = ConnectWait"
    "s_state (y_sender y2) = Connected" "y_receiver y2 = r'" "y_hist y2 = y_hist ?y1 @ [?p]"
    "y_opened y2 = y_opened ?y1 + (if opens ?p (y_receiver ?y1) then 1 else 0)"
    "y_base y2 = (if opens ?p (y_receiver ?y1) then Some (sn ?sq) else y_base ?y1)" "fixed_parts y2 = fixed_parts ?y1"
    by (rule exchange [OF rest around_calls(1) call(1) window _ _ refl refl turn1 ends switch])
      (simp_all add: kind_ok_def)
  let ?y3 = "y2\<lparr>y_client := (y_client y2)\<lparr>c_api := Returned no_error\<rparr>\<rparr>"
  have "sys_step y2 ?y3"
    using y2(3,4) by (intro sys_wait) (simp_all add: connect_wait_def)
  then have run: "sys_step\<^sup>*\<^sup>* y ?y3"
    using step y2(1) by (meson converse_rtranclp_into_rtranclp rtranclp.rtrancl_into_rtrancl)
  have one: "update_seq ?sq = SequenceNumber 1" by (simp add: update_seq_def)
  have "SequenceNumber 1 < r_window_second r'"
  proof -
    have "sn (r_window_second ?r1) = unat (r_max_window_size ?r) mod 4294967296"
      by (simp add: sn_def plus_SequenceNumber_def unsigned_ucast_eq take_bit_eq_mod)
    then have "sn (r_window_second r') = Suc (unat (r_max_window_size ?r) mod 4294967296)"
      using assms(3) by (simp add: r'(7) sn_update)
    then show ?thesis using assms(2) by (simp add: seq_less_iff sizes_ok_def sn_def)
  qed
  moreover have "opens ?p ?r" using at(5) by (simp add: opens_def mk_packet_def)
  moreover have "at_rest (SequenceNumber 1) ?y3" using y2(2) by (simp add: one at_rest_def)
  moreover have "y_hist ?y1 = []" "y_opened ?y1 = 0" using at(3,4) by (simp_all add: start_call_def)
  moreover have "fixed_parts ?y3 = fixed_parts y" by (rule fixed_run [OF run])
  ultimately show ?thesis
    using run y2 r' by (intro that [of ?y3]) (simp_all add: one)
qed

subsection \<open>Pushing\<close>

lemma pushes:
  assumes rest: "at_rest (SequenceNumber 1) y" and sizes: "sizes_ok y"
    and at: "c_api (y_client y) = Returned no_error"
      "r_state (y_receiver y) = RConnected" "r_window_first (y_receiver y) = SequenceNumber 1"
      "SequenceNumber 1 < r_window_second (y_receiver y)" "r_recv_buffer (y_receiver y) = []"
      "r_os (y_receiver y) = Some []" "r_peer_addr (y_receiver y) \<noteq> None"
  obtains y' where "sys_step\<^sup>*\<^sup>* y y'" "at_rest (SequenceNumber 2) y'" "c_api (y_client y') = DataRead is 0"
    "y_hist y' = y_hist y @ [mk_packet NKURDT_VERSION DataPush (SequenceNumber 1) []]"
    "y_opened y' = y_opened y" "y_base y' = y_base y" "fixed_parts y' = fixed_parts y"
proof -
  let ?c = "start_call (send_call is (y_sender y)) (y_client y)"
  let ?y1 = "y\<lparr>y_client := ?c\<rparr>"
  let ?sq = "SequenceNumber 1" and ?r = "y_receiver y"
  let ?p = "mk_packet NKURDT_VERSION DataPush ?sq []"
  let ?r1 = "?r\<lparr>r_state := Receiving\<rparr>"
  have step: "sys_step y ?y1" using at(1) by (intro sys_call) (auto simp: api_call_def)
  have fixed1: "fixed_parts ?y1 = fixed_parts y" by (rule fixed_step [OF step])
  have rest1: "at_rest ?sq ?y1" using rest by (simp add: at_rest_def start_call_def send_call_def)
  have sw: "recv_switch ?p addr_zero ?r = (?r1, False)"
    using at(2) by (simp add: recv_switch_def mk_packet_def)
  obtain r' where turn: "recv_packet os_ok ?p addr_zero ?r = Inr (NextTurn, r')"
    and r': "r_running r' = r_running ?r1" "r_state r' = r_state ?r1"
      "r_selective_repeat r' = r_selective_repeat ?r1" "max_buf_size (r_channel r') = max_buf_size (r_channel ?r1)"
      "r_peer_addr r' = r_peer_addr ?r1" "r_window_first r' = update_seq ?sq"
      "r_window_second r' = update_seq (r_window_second ?r1)" "r_recv_buffer r' = []" "r_os r' = Some []"
      "to_bytes (mk_packet NKURDT_VERSION DataPushAck (if r_selective_repeat ?r1 then ?sq else update_seq ?sq) [])
        \<in> snd ` set (outbox (r_channel r'))"
    by (rule control_turn [of ?p DataPush ?sq DataPushAck ?r ?r1 "[]"])
      (use at rest sw in \<open>simp_all add: get_ack_kind_def is_ack_def mk_packet_def at_rest_def\<close>)
  have call: "c_api (y_client ?y1) = PushSend (SpPoll DataPush []) is" "s_state (y_sender ?y1) = Pushing"
    "window_limit (s_window (y_sender ?y1)) = window_limit (s_window (y_sender y))"
    by (simp_all add: start_call_def send_call_def)
  let ?a = "mk_packet NKURDT_VERSION DataPushAck (if r_selective_repeat (y_receiver ?y1) then ?sq else update_seq ?sq) []"
  have switch: "recv_handler_switch ?a s = Some Sending" if "s_state s = s_state (y_sender ?y1)" for s
    using that unfolding call(2) by (simp add: recv_handler_switch_def mk_packet_def)
  have window: "0 < window_limit (s_window (y_sender ?y1))" "sn ?sq < 4294967295"
    using sizes unfolding call by (simp_all add: sizes_ok_def sn_def)
  have turn1: "recv_packet os_ok ?p addr_zero (y_receiver ?y1) = Inr (NextTurn, r')" using turn by simp
  have ends: "r_running r'" "r_selective_repeat r' = r_selective_repeat (y_receiver ?y1)"
    "max_buf_size (r_channel r') = max_buf_size (r_channel (y_receiver ?y1))"
    "to_bytes ?a \<in> snd ` set (outbox (r_channel r'))"
    using r' rest by (simp_all add: at_rest_def)
  obtain y2 where y2: "sys_step\<^sup>*\<^sup>* ?y1 y2" "at_rest (update_seq ?sq) y2" "c_api (y_client y2) = PushWait is"
    "s_state (y_sender y2) = Sending" "y_receiver y2 = r'" "y_hist y2 = y_hist ?y1 @ [?p]"
    "y_opened y2 = y_opened ?y1 + (if opens ?p (y_receiver ?y1) then 1 else 0)"
    "y_base y2 = (if opens ?p (y_receiver ?y1) then Some (sn ?sq) else y_base ?y1)" "fixed_parts y2 = fixed_parts ?y1"
    by (rule exchange [OF rest1 around_calls(2) call(1) window _ _ refl refl turn1 ends switch])
      (simp_all add: kind_ok_def)
  let ?y3 = "y2\<lparr>y_client := (y_client y2)\<lparr>c_api := DataRead is 0\<rparr>\<rparr>"
  have "sys_step y2 ?y3" using y2(3,4) by (intro sys_wait) simp_all
  then have run: "sys_step\<^sup>*\<^sup>* y ?y3"
    using step y2(1) by (meson converse_rtranclp_into_rtranclp rtranclp.rtrancl_into_rtrancl)
  have two: "update_seq ?sq = SequenceNumber 2" by (simp add: update_seq_def)
  have "\<not> opens ?p ?r" by (simp add: opens_def mk_packet_def)
  moreover have "at_rest (SequenceNumber 2) ?y3" using y2(2) by (simp add: two at_rest_def)
  moreover have "y_hist ?y1 = y_hist y" by (simp add: start_call_def)
  moreover have "fixed_parts ?y3 = fixed_parts y" by (rule fixed_run [OF run])
  ultimately show ?thesis using run y2 by (intro that [of ?y3]) simp_all
qed

subsection \<open>The whole of it\<close>

lemma ready_to_read:
  assumes "sys_start y" "sizes_ok y"
    and "chunks is + 2 + unat (r_max_window_size (y_receiver y)) mod 4294967296 < 4294967296"
    and "3 * chunks is < unat (s_max_retry_count (y_sender y))"
  obtains y' where "sys_step\<^sup>*\<^sup>* y y'" "under_way y'" "c_file (y_client y') = stream_bytes is"
proof -
  have room: "unat (r_max_window_size (y_receiver y)) mod 4294967296 < 4294967295" using assms(3) by simp
  obtain y1 where y1: "sys_step\<^sup>*\<^sup>* y y1" "at_rest (SequenceNumber 1) y1"
    "c_api (y_client y1) = Returned no_error" "s_state (y_sender y1) = Connected"
    "y_hist y1 = [mk_packet NKURDT_VERSION ConnReq (SequenceNumber 0) []]" "y_opened y1 = 1" "y_base y1 = Some 0"
    "r_state (y_receiver y1) = RConnected" "r_window_first (y_receiver y1) = SequenceNumber 1"
    "SequenceNumber 1 < r_window_second (y_receiver y1)" "r_recv_buffer (y_receiver y1) = []"
    "r_os (y_receiver y1) = Some []" "r_peer_addr (y_receiver y1) \<noteq> None" "fixed_parts y1 = fixed_parts y"
    by (rule connects [OF assms(1,2) room])
  have sizes1: "sizes_ok y1" using sizes_fixed [OF y1(14)] assms(2) by simp
  obtain y2 where y2: "sys_step\<^sup>*\<^sup>* y1 y2" "at_rest (SequenceNumber 2) y2" "c_api (y_client y2) = DataRead is 0"
    "y_hist y2 = y_hist y1 @ [mk_packet NKURDT_VERSION DataPush (SequenceNumber 1) []]"
    "y_opened y2 = y_opened y1" "y_base y2 = y_base y1" "fixed_parts y2 = fixed_parts y1"
    by (rule pushes [OF y1(2) sizes1 y1(3,8-13)])
  have run: "sys_step\<^sup>*\<^sup>* y y2" by (rule rtranclp_trans [OF y1(1) y2(1)])
  have reach: "sys_reach y2" by (rule reach_run [OF reach_start [of sys_start, OF assms(1)] run])
  have fixed: "fixed_parts y2 = fixed_parts y" by (rule fixed_run [OF run])
  have hist: "length (y_hist y2) = 2" "no_disconnect (y_hist y2)" "concat (map payload (y_hist y2)) = []"
    by (auto simp: y2(4) y1(5) no_disconnect_def mk_packet_def)
  have "s_retry_count (y_sender y2) sq \<in> {None, Some 0}" for sq
    using y2(2) unfolding at_rest_def by blast
  then have "retries (y_client y2) sq = 0" for sq
    unfolding retries_def by (metis insertE option.case singletonD unat_0)
  then have way: "under_way y2"
    using reach y1(6,7) y2 hist assms(2-4) fixed
    by (simp add: under_way_def at_rest_def sizes_ok_def final_def remaining_def fixed_parts_def window_limit_def sn_def)
  have "file_inv (y_client y2)" using under_way_inv(1) [OF way] by (simp add: transfer_inv_def)
  then have "c_file (y_client y2) = stream_bytes is"
    using y2(2,3) hist(3) by (simp add: file_inv_def at_rest_def stream_bytes_def)
  with run way show ?thesis by (rule that)
qed

text \<open>C5: any file arrives. Start the two ends in the same mode, with window sizes above zero modulo
  2^32 and buffers for the largest packet; take any file whose packets and the receiver's window
  stay together below 2^32, and retries of three for each packet. Then there is a run of the threads
  that connects, sends and has the receiver put out exactly the file.\<close>

theorem any_file_arrives:
  assumes "sys_start y"
    and "0 < unat (r_max_window_size (y_receiver y)) mod 4294967296"
    and "0 < unat (max_window_size (s_window (y_sender y))) mod 4294967296"
    and "NKURDT_MAX_PACKET_SIZE \<le> unat (max_buf_size (s_channel (y_sender y)))"
    and "length file div NKURDT_MAX_PAYLOAD_SIZE + 3 + unat (r_max_window_size (y_receiver y)) mod 4294967296 < 4294967296"
    and "3 * (length file div NKURDT_MAX_PAYLOAD_SIZE + 1) < unat (s_max_retry_count (y_sender y))"
  shows "\<exists>y' k. threads_step\<^sup>*\<^sup>* (y, at_heads) (y', k) \<and> at_stop (c_api (y_client y')) \<and>
    r_os (y_receiver y') = Some file"
proof -
  let ?is = "\<lparr>is_rest = file, is_good = True\<rparr>"
  have sizes: "sizes_ok y" using assms(2-4) by (simp add: sizes_ok_def window_limit_def)
  obtain y1 where y1: "sys_step\<^sup>*\<^sup>* y y1" "under_way y1" "c_file (y_client y1) = stream_bytes ?is"
    by (rule ready_to_read [OF assms(1) sizes]) (use assms(5,6) in \<open>auto simp: chunks_def\<close>)
  obtain y' where y': "sys_step\<^sup>*\<^sup>* y1 y'" "at_stop (c_api (y_client y'))"
    "r_os (y_receiver y') = Some (c_file (y_client y1))" "s_running (y_sender y')"
    by (rule completes [OF y1(2)])
  have "resting (y_client y) = at_heads"
    using assms(1) by (auto simp: sys_start_def resting_def at_heads_def)
  then have "threads_step\<^sup>*\<^sup>* (y, at_heads) (y', resting (y_client y'))"
    using threads_follow_run [OF rtranclp_trans [OF y1(1) y'(1)] y'(4)] by simp
  with y'(2,3) y1(3) show ?thesis by (auto simp: stream_bytes_def)
qed

theorem any_file_arrives_witness:
  "\<exists>y' k. threads_step\<^sup>*\<^sup>* (roomy_start, at_heads) (y', k) \<and> at_stop (c_api (y_client y')) \<and>
     r_os (y_receiver y') = Some (replicate 20000 7)"
  by (rule any_file_arrives [OF roomy_start])
    (simp_all add: roomy_start_def sender_init_def sender_at_rest_def recv_start_def receiver_at_rest_def
      socket_new_def NKURDT_MAX_PACKET_SIZE_def NKURDT_MAX_PAYLOAD_SIZE_def)

subsection \<open>A window of 2^32\<close>

text \<open>The window is compared with its size cut to 32 bits.\<close>

definition shut :: "System \<Rightarrow> bool" where
  "shut y \<longleftrightarrow> (window_limit (s_window (y_sender y)) = 0 \<longrightarrow> y_hist y = [] \<and> reserved_of (c_api (y_client y)) = None)"

lemma shut_step:
  assumes "client_step l c c'" "window_limit (s_window (c_sender c)) = 0" "c_hist c = []" "reserved_of (c_api c) = None"
  shows "c_hist c' = [] \<and> reserved_of (c_api c') = None"
  using assms
proof (induction rule: client_step.induct)
  case (client_call c pc s)
  from client_call(2) have "reserved_of pc = None"
    by (auto simp: api_call_def connect_call_def send_call_def disconnect_call_def reserved_of_def split: if_splits)
  with client_call show ?case by simp
next
  case (client_api duration c pc s)
  from client_api(1) show ?case
    by (cases rule: api_step_cases) (use client_api in \<open>auto simp: window_available_iff new_packets_def\<close>)
qed simp_all

lemma shut_sys_step: "sys_step y y' \<Longrightarrow> shut y \<Longrightarrow> shut y'"
proof (induction rule: sys_step.induct)
  case (sys_client l y c)
  then show ?case
    using shut_step [OF sys_client(1)] client_step_limits [OF sys_client(1)]
    by (simp add: shut_def window_limit_def)
qed (simp add: shut_def)

interpretation shut: invariant_system sys_start sys_step shut "\<lambda>y. True"
proof
  show "shut y" if "sys_start y" for y
    using that by (auto simp: shut_def sys_start_def reserved_of_def)
qed (simp_all add: shut_sys_step)

text \<open>A maximum window size that is a multiple of 2^32 is a window that is never available: no
  call makes a packet, and nothing is ever sent.\<close>

theorem wide_window_sends_nothing:
  assumes "sys_reach y" "unat (max_window_size (s_window (y_sender y))) mod 4294967296 = 0"
  shows "y_hist y = [] \<and> outbox (s_channel (y_sender y)) = []"
proof -
  have none: "y_hist y = []"
    using shut.reach_inv [OF assms(1)] assms(2) by (simp add: shut_def window_limit_def)
  then have "outbox_ok [] (y_sender y)"
    using sys.reach_inv [OF assms(1)] by (simp add: sys_bound_def sys_inv_def client_inv_def sender_inv_def)
  with none show ?thesis by (auto simp: outbox_ok_def in_hist_def)
qed

definition wide_start :: System where
  "wide_start =
     \<lparr>y_client = \<lparr>c_sender = snd (sender_init (set_sender_window_size 4294967296 (sender_at_rest True))),
        c_api = Ready, c_popped = None, c_locked = False, c_got = None, c_enter = None, c_hist = [], c_file = []\<rparr>,
      y_receiver = recv_start (receiver_at_rest True), y_done = False, y_opened = 0, y_base = None\<rparr>"

lemma wide_start: "sys_start wide_start"
  unfolding sys_start_def
  by (intro exI [of _ "set_sender_window_size 4294967296 (sender_at_rest True)"] exI [of _ "receiver_at_rest True"])
    (simp add: wide_start_def sender_fresh_def receiver_fresh_def sender_at_rest_def
      receiver_at_rest_def queue_new_def small_socket_def socket_new_def set_sender_window_size_def)

theorem wide_window_sends_nothing_witness:
  "outbox (s_channel (y_sender (wide_start\<lparr>y_client := start_call (connect_call addr_zero (y_sender wide_start)) (y_client wide_start)\<rparr>))) = []"
proof -
  let ?y = "wide_start\<lparr>y_client := start_call (connect_call addr_zero (y_sender wide_start)) (y_client wide_start)\<rparr>"
  have "sys_step wide_start ?y"
    by (rule sys_call) (auto simp: wide_start_def api_call_def)
  then have "sys_reach ?y"
    by (rule reach_step [OF reach_start [of sys_start, OF wide_start]])
  moreover have "max_window_size (s_window (y_sender ?y)) = 4294967296"
    by (simp add: wide_start_def start_call_def connect_call_def sender_init_def set_sender_window_size_def
        sender_at_rest_def set_max_window_size_def)
  ultimately show ?thesis
    using wide_window_sends_nothing [of ?y] by simp
qed

end
