(* ===== verification/TimerThread.thy ===== *)
theory TimerThread
  imports ConcTimer Transition
begin

text \<open>
  The timing thread of \<open>ConcurrentTimer\<close> against a caller of \<open>stop\<close>. \<open>thread_func\<close> reads
  \<open>running_\<close> at the head of its loop, takes the mutex afterwards, and with no event waits on
  the condition variable without a predicate; \<open>stop\<close> clears \<open>running_\<close> under the mutex,
  releases it and notifies once. A notification reaches only a thread that waits at that
  moment. Spurious wake-ups, which the standard allows and never promises, are not steps.
  Another thread registers events until it leaves; a sender's send thread may still be in a
  turn when \<open>stop\<close> of the timer runs.
\<close>

datatype thread_pc = AtCheck | AtLock | Waiting | Sleeping | Exited

datatype stop_pc = NotStopping | FlagCleared | Notified | Joined

record 'a TimerSys =
  tt_timer :: "'a ConcurrentTimer"
  tt_thread :: thread_pc
  tt_stop :: stop_pc
  tt_client :: bool

text \<open>\<open>notify_one\<close>: a waiting thread goes back to the head of its loop.\<close>

definition notified :: "thread_pc \<Rightarrow> thread_pc" where
  "notified pc = (if pc = Waiting \<or> pc = Sleeping then AtCheck else pc)"

text \<open>Where the thread goes after a turn under the mutex.\<close>

definition after_turn :: "timer_turn \<Rightarrow> thread_pc" where
  "after_turn turn =
     (case turn of WaitForEvent \<Rightarrow> Waiting | WaitUntil tp \<Rightarrow> Sleeping | NotifyTimeout \<Rightarrow> AtCheck)"

inductive timer_step :: "'a TimerSys \<Rightarrow> 'a TimerSys \<Rightarrow> bool" where
  thread_check: "tt_thread s = AtCheck \<Longrightarrow>
    timer_step s (s\<lparr>tt_thread := (if timer_running (tt_timer s) then AtLock else Exited)\<rparr>)"
| thread_lock: "tt_thread s = AtLock \<Longrightarrow> thread_turn clk (tt_timer s) = (turn, t) \<Longrightarrow>
    timer_step s (s\<lparr>tt_timer := t, tt_thread := after_turn turn\<rparr>)"
| thread_deadline: "tt_thread s = Sleeping \<Longrightarrow> timer_step s (s\<lparr>tt_thread := AtCheck\<rparr>)"
| client_register: "tt_client s \<Longrightarrow>
    timer_step s (s\<lparr>tt_timer := register_event e timeout now (tt_timer s),
                   tt_thread := notified (tt_thread s)\<rparr>)"
| client_leave: "tt_client s \<Longrightarrow> timer_step s (s\<lparr>tt_client := False\<rparr>)"
| stop_clear: "tt_stop s = NotStopping \<Longrightarrow>
    timer_step s (s\<lparr>tt_timer := timer_stop (tt_timer s), tt_stop := FlagCleared\<rparr>)"
| stop_notify: "tt_stop s = FlagCleared \<Longrightarrow>
    timer_step s (s\<lparr>tt_thread := notified (tt_thread s), tt_stop := Notified\<rparr>)"
| stop_join: "tt_stop s = Notified \<Longrightarrow> tt_thread s = Exited \<Longrightarrow> timer_step s (s\<lparr>tt_stop := Joined\<rparr>)"

inductive_cases timer_stepE: "timer_step s s'"

definition timer_sys_start :: "'a TimerSys \<Rightarrow> bool" where
  "timer_sys_start s \<longleftrightarrow>
     (\<exists>t. s = \<lparr>tt_timer = timer_start t, tt_thread = AtCheck, tt_stop = NotStopping,
        tt_client = True\<rparr>)"

definition timer_stuck :: "'a TimerSys \<Rightarrow> bool" where
  "timer_stuck s \<longleftrightarrow> (\<forall>s'. \<not> timer_step s s')"

text \<open>The flag is clear exactly when \<open>stop\<close> has cleared it; the thread ends only then; it waits
  without a deadline only with no event.\<close>

definition timer_sys_inv :: "'a TimerSys \<Rightarrow> bool" where
  "timer_sys_inv s \<longleftrightarrow>
     (timer_running (tt_timer s) \<longleftrightarrow> tt_stop s = NotStopping) \<and>
     (tt_thread s = Exited \<longrightarrow> tt_stop s \<noteq> NotStopping) \<and>
     (tt_stop s = Joined \<longrightarrow> tt_thread s = Exited) \<and>
     (tt_thread s = Waiting \<longrightarrow> events (tt_timer s) = []) \<and>
     timer_inv (tt_timer s)"

lemma turn_running: "timer_running (snd (thread_turn clk t)) = timer_running t"
proof -
  have "timer_running (expire_loop clk k t) = timer_running t" for k
  proof (induction clk k t rule: expire_loop.induct)
    case (1 clk k t)
    then show ?case
      by (subst expire_loop.simps) (auto simp: expire_first_def split: list.splits)
  qed
  then show ?thesis by (simp add: thread_turn_def split: list.splits)
qed

lemma timer_sys_step: "timer_step s s' \<Longrightarrow> timer_sys_inv s \<Longrightarrow> timer_sys_inv s'"
proof (induction rule: timer_step.induct)
  case (thread_lock s clk turn t)
  have "timer_running t = timer_running (tt_timer s)" "timer_inv t"
    using turn_running [of clk "tt_timer s"] rt.invar_turn [of "tt_timer s" clk] thread_lock
    by (simp_all add: timer_sys_inv_def)
  with thread_lock show ?case
    by (auto simp: timer_sys_inv_def after_turn_def thread_turn_def
        split: timer_turn.splits list.splits if_splits)
next
  case (client_register s e timeout now)
  have "timer_running (register_event e timeout now (tt_timer s)) = timer_running (tt_timer s)"
    by (simp add: register_event_def Let_def split: option.splits)
  with client_register show ?case
    by (auto simp: timer_sys_inv_def notified_def inv_intros split: if_splits)
qed (auto simp: timer_sys_inv_def notified_def timer_stop_def timer_inv_def split: if_splits)

lemma timer_sys_start_inv: "timer_sys_start s \<Longrightarrow> timer_sys_inv s"
  by (auto simp: timer_sys_start_def timer_sys_inv_def timer_start_def timer_inv_def)

interpretation tsys: invariant_system timer_sys_start timer_step timer_sys_inv "\<lambda>s. True"
  by unfold_locales (blast intro: timer_sys_start_inv timer_sys_step)+

lemma stuck_cases:
  assumes "timer_sys_inv s" "timer_stuck s"
  shows "tt_stop s = Joined \<and> tt_thread s = Exited \<or>
    tt_stop s = Notified \<and> tt_thread s = Waiting \<and> \<not> tt_client s \<and> events (tt_timer s) = []"
proof (cases "tt_stop s")
  case NotStopping
  with stop_clear [OF NotStopping] assms(2) show ?thesis by (simp add: timer_stuck_def)
next
  case FlagCleared
  with stop_notify [OF FlagCleared] assms(2) show ?thesis by (simp add: timer_stuck_def)
next
  case Notified
  show ?thesis
  proof (cases "tt_thread s")
    case AtLock
    obtain turn t where "thread_turn (\<lambda>k. 0) (tt_timer s) = (turn, t)" by (metis surj_pair)
    with thread_lock [OF AtLock] assms(2) show ?thesis by (auto simp: timer_stuck_def)
  qed (use assms Notified thread_check [of s] thread_deadline [of s] stop_join [of s]
      client_leave [of s]
      in \<open>auto simp: timer_stuck_def timer_sys_inv_def\<close>)
next
  case Joined
  with assms(1) show ?thesis by (simp add: timer_sys_inv_def)
qed

text \<open>The run that ends in it: the thread has read the flag, then \<open>stop\<close> runs up to the join.\<close>

definition stopped_too_early :: "'a ConcurrentTimer \<Rightarrow> 'a TimerSys" where
  "stopped_too_early t =
     \<lparr>tt_timer = timer_stop (timer_start t), tt_thread = Waiting, tt_stop = Notified,
       tt_client = False\<rparr>"

lemma reach_stopped_too_early: "reach timer_sys_start timer_step (stopped_too_early t)"
proof -
  let ?s = "\<lambda>t th st b. \<lparr>tt_timer = t, tt_thread = th, tt_stop = st, tt_client = b\<rparr>"
  let ?t = "timer_start t" and ?u = "timer_stop (timer_start t)"
  let ?R = "reach timer_sys_start timer_step"
  have run: "timer_running ?t" "thread_turn (\<lambda>k. 0) ?u = (WaitForEvent, ?u)"
    by (simp_all add: timer_start_def timer_stop_def thread_turn_def)
  have 0: "?R (?s ?t AtCheck NotStopping True)"
    by (rule reach_start) (auto simp: timer_sys_start_def)
  have 1: "?R (?s ?t AtLock NotStopping True)"
    using reach_step [OF 0 thread_check] run(1) by simp
  have 2: "?R (?s ?u AtLock FlagCleared True)"
    using reach_step [OF 1 stop_clear] by simp
  have 3: "?R (?s ?u AtLock Notified True)"
    using reach_step [OF 2 stop_notify] by (simp add: notified_def)
  have 4: "?R (?s ?u Waiting Notified True)"
    using reach_step [OF 3 thread_lock [of _ "\<lambda>k. 0" WaitForEvent ?u]] run(2)
    by (simp add: after_turn_def)
  show ?thesis
    using reach_step [OF 4 client_leave] by (simp add: stopped_too_early_def)
qed

lemma stuck_stopped_too_early: "timer_stuck (stopped_too_early t)"
  by (auto simp: timer_stuck_def stopped_too_early_def elim!: timer_stepE)

text \<open>C32: \<open>stop\<close> can hang: there is a run in which the timing thread reads \<open>running_\<close>, the
  caller then clears it and notifies, and the thread waits for a notification that has
  passed, while the caller waits in \<open>join\<close>; no step is left.\<close>

theorem stop_can_hang:
  "\<exists>s :: nat TimerSys. reach timer_sys_start timer_step s \<and> timer_stuck s \<and> tt_stop s \<noteq> Joined"
proof -
  have "tt_stop (stopped_too_early t) \<noteq> Joined" for t :: "nat ConcurrentTimer"
    by (simp add: stopped_too_early_def)
  then show ?thesis using reach_stopped_too_early stuck_stopped_too_early by blast
qed

text \<open>C31: \<open>stop\<close> hangs in no other way than by a lost notification: a run that ends has joined the
  thread, or the caller has notified, the thread waits without a deadline, and the timer holds no event.\<close>

theorem stop_hangs_only_so:
  assumes "reach timer_sys_start timer_step s" "timer_stuck s"
  shows "tt_stop s = Joined \<and> tt_thread s = Exited \<or>
    tt_stop s = Notified \<and> tt_thread s = Waiting \<and> events (tt_timer s) = []"
  using stuck_cases [OF tsys.reach_inv [OF assms(1) TrueI] assms(2)] by blast

theorem stop_hangs_only_so_witness:
  "events (tt_timer (stopped_too_early timer_example)) = []"
  using stop_hangs_only_so [OF reach_stopped_too_early stuck_stopped_too_early, of timer_example]
  by (auto simp: stopped_too_early_def)

end
