(* ===== verification/Deadlines.thy ===== *)
theory Deadlines
  imports ConcTimer
begin

text \<open>
  What the timer promises its users, without the multimap: a map from the registered events to
  their deadlines and a set of the events whose deadline has passed. Every operation of
  ConcTimer, and every turn of the timing thread, does on its state what the specification does
  on the map and the set. The locale \<open>data_refinement\<close> carries one operation over to sequences.
\<close>

subsection \<open>Data refinement\<close>

text \<open>A sequence of operations of the specification, each of which may leave a choice.\<close>

primrec spec_run :: "('op \<Rightarrow> 'a \<Rightarrow> 'a \<Rightarrow> bool) \<Rightarrow> 'op list \<Rightarrow> 'a \<Rightarrow> 'a \<Rightarrow> bool" where
  "spec_run spec [] a a' \<longleftrightarrow> a' = a"
| "spec_run spec (op # ops) a a' \<longleftrightarrow> (\<exists>b. spec op a b \<and> spec_run spec ops b a')"

locale data_refinement =
  fixes conc :: "'op \<Rightarrow> 's \<Rightarrow> 's" and spec :: "'op \<Rightarrow> 'a \<Rightarrow> 'a \<Rightarrow> bool"
    and abstr :: "'s \<Rightarrow> 'a" and invar :: "'s \<Rightarrow> bool" and allowed :: "'op \<Rightarrow> bool"
  assumes invar_conc: "invar s \<Longrightarrow> invar (conc op s)"
    and commutes: "invar s \<Longrightarrow> allowed op \<Longrightarrow> spec op (abstr s) (abstr (conc op s))"
begin

lemma runs:
  "invar s \<Longrightarrow> list_all allowed ops \<Longrightarrow> spec_run spec ops (abstr s) (abstr (fold conc ops s))"
  by (induction ops arbitrary: s) (auto intro: commutes invar_conc)

lemma invar_runs: "invar s \<Longrightarrow> invar (fold conc ops s)"
  by (induction ops arbitrary: s) (auto intro: invar_conc)

end

subsection \<open>The specification of the timer\<close>

record 'a Deadlines =
  due :: "'a \<rightharpoonup> time_point"
  late :: "'a set"

definition deadlines :: "'a ConcurrentTimer \<Rightarrow> 'a Deadlines" where
  "deadlines t = \<lparr>due = registered_events t, late = timed_out_events t\<rparr>"

datatype 'a timer_op =
    RegisterEvent 'a int time_point
  | RemoveEvent 'a
  | TimerTurn "nat \<Rightarrow> time_point"
  | CollectEvents

fun timer_do :: "'a timer_op \<Rightarrow> 'a ConcurrentTimer \<Rightarrow> 'a ConcurrentTimer" where
  "timer_do (RegisterEvent e timeout now) t = register_event e timeout now t"
| "timer_do (RemoveEvent e) t = remove_event e t"
| "timer_do (TimerTurn clk) t = snd (thread_turn clk t)"
| "timer_do CollectEvents t = timer_collect t"

text \<open>All deadlines up to a limit pass.\<close>

definition pass_until :: "time_point \<Rightarrow> 'a Deadlines \<Rightarrow> 'a Deadlines" where
  "pass_until lim d =
     \<lparr>due = (\<lambda>e. case due d e of Some tp \<Rightarrow> if tp \<le> lim then None else Some tp | None \<Rightarrow> None),
      late = late d \<union> {e. \<exists>tp. due d e = Some tp \<and> tp \<le> lim}\<rparr>"

text \<open>A turn does nothing while no deadline has been reached; otherwise all deadlines pass up to
  some limit, which is at least 100 milliseconds after the turn began and at most 100
  milliseconds after a reading of the clock in it.\<close>

definition deadlines_turn :: "(nat \<Rightarrow> time_point) \<Rightarrow> 'a Deadlines \<Rightarrow> 'a Deadlines \<Rightarrow> bool" where
  "deadlines_turn clk d d' \<longleftrightarrow>
     (if \<forall>e tp. due d e = Some tp \<longrightarrow> clk 0 < tp then d' = d
      else \<exists>lim k. clk 0 + ms 100 \<le> lim \<and> lim \<le> clk k + ms 100 \<and> d' = pass_until lim d)"

fun deadlines_do :: "'a timer_op \<Rightarrow> 'a Deadlines \<Rightarrow> 'a Deadlines \<Rightarrow> bool" where
  "deadlines_do (RegisterEvent e timeout now) d d' \<longleftrightarrow> d' = d\<lparr>due := (due d)(e \<mapsto> now + ms timeout)\<rparr>"
| "deadlines_do (RemoveEvent e) d d' \<longleftrightarrow>
     d' = (if due d e = None then d else d\<lparr>due := (due d)(e := None), late := late d - {e}\<rparr>)"
| "deadlines_do (TimerTurn clk) d d' \<longleftrightarrow> deadlines_turn clk d d'"
| "deadlines_do CollectEvents d d' \<longleftrightarrow> d' = d\<lparr>late := {}\<rparr>"

definition deadlines_query :: "'a \<Rightarrow> 'a Deadlines \<Rightarrow> TimerState" where
  "deadlines_query e d = (if e \<in> late d then TimedOut else if e \<in> dom (due d) then Normal else Unregistered)"

text \<open>The clock is steady.\<close>

fun steady :: "'a timer_op \<Rightarrow> bool" where
  "steady (TimerTurn clk) \<longleftrightarrow> mono clk"
| "steady _ \<longleftrightarrow> True"

subsection \<open>The refinement\<close>

lemma deadlines_register:
  "deadlines (register_event e timeout now t) =
     (deadlines t)\<lparr>due := (due (deadlines t))(e \<mapsto> now + ms timeout)\<rparr>"
  by (auto simp: deadlines_def register_event_def Let_def fun_eq_iff map_emplace_apply split: option.splits)

lemma deadlines_remove:
  "deadlines (remove_event e t) =
     (if due (deadlines t) e = None then deadlines t
      else (deadlines t)\<lparr>due := (due (deadlines t))(e := None), late := late (deadlines t) - {e}\<rparr>)"
  by (auto simp: deadlines_def remove_event_def fun_eq_iff split: option.splits)

lemma deadlines_collect: "deadlines (timer_collect t) = (deadlines t)\<lparr>late := {}\<rparr>"
  by (simp add: deadlines_def timer_collect_def map_timed_out_events_def)

lemma option_ext: "(\<And>v. x = Some v \<longleftrightarrow> y = Some v) \<Longrightarrow> x = y"
  by (cases x; cases y) auto

lemma due_pass_until: "due (pass_until lim d) e = Some tp \<longleftrightarrow> due d e = Some tp \<and> lim < tp"
  by (auto simp: pass_until_def split: option.splits)

text \<open>What the inner loop takes off the front of the multimap is what lies up to a limit.\<close>

lemma deadlines_expire:
  assumes inv: "timer_inv t" and mono: "mono clk"
  shows "\<exists>lim k. clk 0 + ms 100 \<le> lim \<and> lim \<le> clk k + ms 100 \<and>
    deadlines (expire_loop clk 0 t) = pass_until lim (deadlines t)"
proof (rule expire_loop_prefix [of t clk 0])
  fix xs ys
  assume split: "events t = xs @ ys" and left: "events (expire_loop clk 0 t) = ys"
    and out: "timed_out_events (expire_loop clk 0 t) = timed_out_events t \<union> snd ` set xs"
    and due: "\<forall>i < length xs. fst (xs ! i) \<le> clk (0 + i) + ms 100"
    and rest: "ys = [] \<or> clk (0 + length xs) + ms 100 < fst (hd ys)"
  define lim where "lim = clk (length xs - 1) + ms 100"
  have front: "tp \<le> lim" if "(tp, e) \<in> set xs" for tp e
  proof -
    from that obtain i where i: "i < length xs" "xs ! i = (tp, e)" unfolding in_set_conv_nth by blast
    then have "clk i \<le> clk (length xs - 1)" by (intro monoD [OF mono]) simp
    with due i show ?thesis by (fastforce simp: lim_def)
  qed
  have sorted: "sorted (map fst ys)" using inv by (simp add: timer_inv_def split sorted_append)
  have behind: "lim < tp" if "(tp, e) \<in> set ys" for tp e
  proof -
    have "fst (hd ys) \<le> tp" using that sorted by (cases ys) auto
    moreover have "clk (length xs - 1) \<le> clk (length xs)" by (intro monoD [OF mono]) simp
    ultimately show ?thesis using rest that by (auto simp: lim_def)
  qed
  have reg: "registered_events t e = Some tp \<longleftrightarrow> (tp, e) \<in> set xs \<or> (tp, e) \<in> set ys" for e tp
    using inv by (auto simp: timer_inv_def split)
  have reg': "registered_events (expire_loop clk 0 t) e = Some tp \<longleftrightarrow> (tp, e) \<in> set ys" for e tp
    using timer_inv_expire [OF inv, of clk 0] left by (auto simp: timer_inv_def)
  have "registered_events (expire_loop clk 0 t) e = due (pass_until lim (deadlines t)) e" for e
  proof (rule option_ext)
    fix tp
    show "registered_events (expire_loop clk 0 t) e = Some tp \<longleftrightarrow>
        due (pass_until lim (deadlines t)) e = Some tp"
      unfolding due_pass_until reg' using reg [of e tp] front [of tp e] behind [of tp e]
      by (auto simp: deadlines_def)
  qed
  moreover have "late (pass_until lim (deadlines t)) = timed_out_events t \<union> snd ` set xs"
  proof -
    have "(\<exists>tp. registered_events t e = Some tp \<and> tp \<le> lim) \<longleftrightarrow> (\<exists>tp. (tp, e) \<in> set xs)" for e
      unfolding reg using front behind by (meson not_le)
    then show ?thesis by (force simp: pass_until_def deadlines_def)
  qed
  ultimately have "deadlines (expire_loop clk 0 t) = pass_until lim (deadlines t)"
    by (simp add: deadlines_def out fun_eq_iff pass_until_def)
  moreover have "clk 0 + ms 100 \<le> lim" by (simp add: lim_def monoD [OF mono])
  moreover have "lim \<le> clk (length xs - 1) + ms 100" by (simp add: lim_def)
  ultimately show ?thesis by blast
qed

lemma deadlines_turn:
  assumes inv: "timer_inv t" and mono: "mono clk"
  shows "deadlines_turn clk (deadlines t) (deadlines (snd (thread_turn clk t)))"
proof (cases "events t")
  case Nil
  then have "due (deadlines t) e \<noteq> Some tp" for e tp
    using inv by (auto simp: timer_inv_def deadlines_def)
  with Nil show ?thesis by (simp add: deadlines_turn_def thread_turn_def)
next
  case (Cons x evs)
  obtain tp e where x: "x = (tp, e)" by (cases x)
  have first: "tp \<le> tp'" if "due (deadlines t) e' = Some tp'" for e' tp'
  proof -
    have "(tp', e') \<in> set (events t)" "sorted (map fst (events t))"
      using inv that by (auto simp: timer_inv_def deadlines_def)
    then show ?thesis by (auto simp: Cons x)
  qed
  have reg: "due (deadlines t) e = Some tp" using inv by (auto simp: timer_inv_def deadlines_def Cons x)
  show ?thesis
  proof (cases "tp > clk 0")
    case True
    then show ?thesis using first by (force simp: deadlines_turn_def thread_turn_def Cons x)
  next
    case False
    with reg have reached: "(\<forall>e tp. due (deadlines t) e = Some tp \<longrightarrow> clk 0 < tp) = False" by blast
    from False deadlines_expire [OF inv mono] show ?thesis
      unfolding deadlines_turn_def reached by (simp add: thread_turn_def Cons x)
  qed
qed

interpretation timer_spec: data_refinement timer_do deadlines_do deadlines timer_inv steady
proof
  fix op :: "'a timer_op" and t :: "'a ConcurrentTimer"
  assume inv: "timer_inv t"
  then show "timer_inv (timer_do op t)"
    by (cases op) (simp_all add: inv_intros timer_collect_def)
  show "deadlines_do op (deadlines t) (deadlines (timer_do op t))" if "steady op"
    using inv that
    by (cases op) (simp_all add: deadlines_register deadlines_remove deadlines_collect deadlines_turn)
qed

text \<open>C29: the timer, with its multimap, its map and its thread, is a map of deadlines and a set of
  what is late: any sequence of registrations, removals, collections and turns of the timing
  thread is one of the specification, and \<open>query_event\<close> answers as the specification does. While
  the clock does not run backwards within a turn.\<close>

theorem timer_refines_deadlines:
  assumes "timer_inv t" "list_all steady ops"
  shows "spec_run deadlines_do ops (deadlines t) (deadlines (fold timer_do ops t)) \<and>
    query_event e (fold timer_do ops t) = deadlines_query e (deadlines (fold timer_do ops t))"
  using timer_spec.runs [OF assms]
  by (auto simp: deadlines_query_def query_event_def deadlines_def)

theorem timer_refines_deadlines_witness:
  "spec_run deadlines_do [TimerTurn (\<lambda>k. 10), RemoveEvent 2, CollectEvents] (deadlines timer_example)
     (deadlines (fold timer_do [TimerTurn (\<lambda>k. 10), RemoveEvent 2, CollectEvents] timer_example))"
  using timer_refines_deadlines [OF timer_inv_example, of "[TimerTurn (\<lambda>k. 10), RemoveEvent 2, CollectEvents]"]
  by (simp add: monoI)

end
