(* ===== verification/Wire.thy ===== *)
theory Wire
  imports Limits
begin

text \<open>
  The types of the wire: what a datagram of either end can be. The enumeration \<open>PacketKind\<close> of
  the code has a fixed underlying type, so a decoded packet can carry any octet as its kind
  (\<open>OtherKind\<close>); what the two ends send is much narrower.
\<close>

definition request_kinds :: "PacketKind set" where
  "request_kinds = {ConnReq, DataPush, Data, DataStop, DisconnReq}"

definition answer_kinds :: "PacketKind set" where
  "answer_kinds = {ConnAck, DataPushAck, DataAck, DataStopAck, DisconnAck}"

text \<open>The datagrams of the sender and of the receiver.\<close>

definition request_datagram :: "bytes \<Rightarrow> bool" where
  "request_datagram d \<longleftrightarrow>
     (\<exists>k sq pl. d = to_bytes (mk_packet NKURDT_VERSION k sq pl) \<and> k \<in> request_kinds \<and>
        (pl = [] \<or> k = Data) \<and> length pl \<le> NKURDT_MAX_PAYLOAD_SIZE \<and> length d \<le> NKURDT_MAX_PACKET_SIZE)"

definition answer_datagram :: "bytes \<Rightarrow> bool" where
  "answer_datagram d \<longleftrightarrow>
     (\<exists>k sq. d = to_bytes (mk_packet NKURDT_VERSION k sq []) \<and> k \<in> answer_kinds \<and> length d = 12)"

lemma answered_kind: "get_ack_kind k \<noteq> None \<longleftrightarrow> k \<in> request_kinds"
  by (auto simp: get_ack_kind_def request_kinds_def)

lemma answering_kind: "get_ack_kind k = Some k' \<Longrightarrow> k' \<in> answer_kinds"
  by (auto simp: get_ack_kind_def answer_kinds_def split: if_splits)

lemma length_datagram: "length pl \<le> NKURDT_MAX_PAYLOAD_SIZE \<Longrightarrow>
    length (to_bytes (mk_packet v k sq pl)) \<le> NKURDT_MAX_PACKET_SIZE"
  by (simp add: length_to_bytes reserve_size_def mk_packet_def NKURDT_MAX_PAYLOAD_SIZE_def
      NKURDT_MAX_PACKET_SIZE_def)

text \<open>The invariant beside the one of the system.\<close>

definition typed_inv :: "System \<Rightarrow> bool" where
  "typed_inv y \<longleftrightarrow>
     sys_inv y \<and> (\<forall>p \<in> set (y_hist y). version p = NKURDT_VERSION) \<and>
     (\<forall>d \<in> snd ` set (outbox (r_channel (y_receiver y))). answer_datagram d)"

lemma client_step_version:
  assumes "client_step l c c'" "\<forall>p \<in> set (c_hist c). version p = NKURDT_VERSION"
  shows "\<forall>p \<in> set (c_hist c'). version p = NKURDT_VERSION"
  using assms(1)
proof (cases rule: client_step.cases)
  case (client_api duration pc s)
  from client_api(3) have "\<forall>p \<in> set (new_packets (c_api c) pc). version p = NKURDT_VERSION"
    by (cases rule: api_step_cases)
      (auto simp: new_packets_def send_packet_reserve_def mk_packet_def Let_def)
  with assms(2) client_api(2) show ?thesis by auto
qed (use assms(2) in simp_all)

lemma turn_answers:
  assumes "one_ack r r'" "\<forall>d \<in> snd ` set (outbox (r_channel r)). answer_datagram d"
  shows "\<forall>d \<in> snd ` set (outbox (r_channel r')). answer_datagram d"
proof
  fix d assume "d \<in> snd ` set (outbox (r_channel r'))"
  with assms(1) consider "d \<in> snd ` set (outbox (r_channel r))"
    | k k' sq where "get_ack_kind k = Some k'" "d = to_bytes (ack_packet k' sq)"
    unfolding one_ack_def by blast
  then show "answer_datagram d"
  proof cases
    case 1
    with assms(2) show ?thesis by blast
  next
    case 2
    then have "d = to_bytes (mk_packet NKURDT_VERSION k' sq [])" "length d = 12"
      by (simp_all add: ack_packet_def length_to_bytes reserve_size_def mk_packet_def)
    with answering_kind [OF 2(1)] show ?thesis unfolding answer_datagram_def by blast
  qed
qed

lemma typed_step:
  assumes "sys_step y y'" "typed_inv y" "sys_bound y'"
  shows "typed_inv y'"
proof -
  have inv: "sys_inv y" "sys_inv y'"
    using assms sys_step_inv by (auto simp: typed_inv_def)
  from assms(1) show ?thesis
  proof (cases rule: sys_step.cases)
    case (sys_client l c)
    with assms(2) inv(2) client_step_version [OF sys_client(2)] show ?thesis by (simp add: typed_inv_def)
  next
    case (sys_receiver d a ctl r)
    have "one_ack (y_receiver y) r"
      using inv(1) sys_receiver(5,4)
    proof (cases rule: sys_turn_cases)
      case quiet
      then show ?thesis by (auto simp: one_ack_def)
    next
      case (packet p addr)
      with inv(1) show ?thesis
        by (intro recv_packet_turn(1) [OF sys_inv_hist [OF inv(1)] _ _ packet(2) _ packet(3)])
          (simp_all add: sys_inv_def receiver_inv_def)
    qed
    from turn_answers [OF this] assms(2) inv(2) show ?thesis
      by (simp add: typed_inv_def sys_receiver(1))
  qed
qed

lemma typed_start: "sys_start y \<Longrightarrow> typed_inv y"
  using sys_inv_start [of y] by (auto simp: typed_inv_def sys_start_def receiver_fresh_def recv_start_def)

interpretation typed: invariant_system sys_start sys_step typed_inv sys_bound
  by unfold_locales (blast intro: typed_start typed_step sys_bound_back)+

text \<open>C39: the types of the wire. In every run of fewer than 2^32 packets, each datagram the sender
  has put on the network is the encoding of a packet of version 1 whose kind is one of the five
  requests, with a payload only if it is a data packet, of at most the maximum payload size, and
  the datagram has at most the maximum packet size; and each datagram of the receiver is the
  encoding, in 12 octets, of a packet of version 1 without payload whose kind is one of the five
  acknowledgements.\<close>

theorem datagrams_typed:
  assumes "sys_reach y" "length (y_hist y) < 4294967296"
  shows "(\<forall>(addr, d) \<in> set (outbox (s_channel (y_sender y))). request_datagram d) \<and>
    (\<forall>(addr, d) \<in> set (outbox (r_channel (y_receiver y))). answer_datagram d)"
proof -
  have inv: "typed_inv y" using assms by (intro typed.reach_inv) (simp_all add: sys_bound_def)
  then have out: "outbox_ok (y_hist y) (y_sender y)" and hist: "hist_ok (y_hist y)"
    by (simp_all add: typed_inv_def sys_inv_def client_inv_def sender_inv_def)
  have "request_datagram d" if "(addr, d) \<in> set (outbox (s_channel (y_sender y)))" for addr d
  proof -
    from that have "d \<in> snd ` set (outbox (s_channel (y_sender y)))" by force
    with out obtain p where "in_hist (y_hist y) p" and d: "d = to_bytes p"
      unfolding outbox_ok_def by blast
    then have p: "p \<in> set (y_hist y)" by (metis in_hist_def nth_mem)
    have s: "sendable (kind p) (payload p)" using hist p by (simp add: hist_ok_def)
    have "version p = NKURDT_VERSION" using inv p by (simp add: typed_inv_def)
    then have "p = mk_packet NKURDT_VERSION (kind p) (seq p) (payload p)" by (simp add: mk_packet_def)
    with d s length_datagram [of "payload p" NKURDT_VERSION "kind p" "seq p"] show ?thesis
      unfolding request_datagram_def sendable_def answered_kind by metis
  qed
  with inv show ?thesis by (fastforce simp: typed_inv_def)
qed

theorem datagrams_typed_witness:
  "outbox (s_channel (y_sender (after_transfer True))) \<noteq> [] \<and>
   request_datagram (snd (hd (outbox (s_channel (y_sender (after_transfer True))))))"
proof -
  have "outbox (s_channel (y_sender (after_transfer True))) \<noteq> []"
    using after_transfer [of True] by (auto simp: transfer_summary_def)
  then have "hd (outbox (s_channel (y_sender (after_transfer True)))) \<in>
      set (outbox (s_channel (y_sender (after_transfer True))))" by simp
  with datagrams_typed [OF reach_after_transfer, of True] show ?thesis
    by (auto simp: after_transfer_simps)
qed

end
