(* ===== verification/Spec2Isabelle.thy ===== *)
theory Spec2Isabelle
  imports ProgramRuns CommandLine FromStart TimerThread Deadlines Wire
begin

text \<open>
  A verification of nkurdt, a reliable transport over UDP with go-back-n and selective
  repeat, written in C++ (src/nkurdt), and of the two programs that use it to transfer files
  (src/app).

  The program. A \<open>Sender\<close> has a caller's thread (\<open>connect\<close>, \<open>send\<close>, \<open>disconnect\<close>), a send
  thread, a receive thread, a timeout thread, and the timing thread of its \<open>ConcurrentTimer\<close>.
  The caller takes a number from the \<open>ConcurrentWindow\<close>, enters the packet into a pool and its
  number into a \<open>ConcurrentQueue\<close>; the send thread pops numbers, sends the packets through the
  \<open>Socket\<close> and registers them with the timer; the timeout thread queues the expired numbers
  again; the receive thread decodes acknowledgements, drives the state machine and slides
  the window. A \<open>Receiver\<close> has one thread and is a coroutine: it buffers packets in order of
  their numbers, slides its window over the front of the buffer, writes the payloads to a
  stream, and answers each packet.

  Theories and sources.
  \<^item> Prelude: integer widths, the faults of C++ expressions as a sum type, lemma collections.
  \<^item> SeqNum, Packet: packet.hpp and packet.cpp. Sequence numbers, packet kinds, the checksum,
    \<open>to_bytes\<close> and \<open>from_bytes\<close>. Decoding inverts encoding, any damaged octet is noticed, and
    the inputs that make the decoder read outside its buffer are characterised.
  \<^item> ConcQueue, ConcWindow, ConcTimer: the classes of concurrency.hpp, one atomic operation for
    each member function; the interfaces \<open>ordered_queue\<close> and \<open>retransmit_timer\<close> are locales
    interpreted on them. Deadlines: the timer refines a map of deadlines. TimerThread: the
    control points of \<open>thread_func\<close> against \<open>stop\<close>.
  \<^item> Socket: socket.hpp and socket.cpp; the answers of the system calls are arguments.
    SocketPlatform: \<open>show_info\<close> and the branches for Windows.
  \<^item> Logging: logging.hpp and logging.cpp.
  \<^item> Sender: sender.hpp and sender.cpp. A function for each piece of each thread that other
    threads cannot come between. SenderInv: the invariant of the sender, kept by every piece.
  \<^item> Receiver: receiver.hpp and receiver.cpp, with the coroutine wrapper. ReceiverInv: what a
    turn does to the buffer, the window and the stream.
  \<^item> Transition: reachable states and the locales \<open>invariant_system\<close> and \<open>simulation\<close>.
  \<^item> Client: all interleavings of the threads of one sender. System: a sender, a receiver and a
    network that loses, repeats, delays, reorders and damages datagrams. Delivery: what holds
    between the two ends. Wire: the types of the datagrams. EndToEnd: what \<open>send\<close> has achieved when it returns. Pipe: the system
    refines a pipe of octets. Posting, Progress: the window can always move on. Completion: a
    transfer can always be completed.
  \<^item> Schedule: executable runs, which evaluate to the states the witnesses use. SenderProps,
    ReceiverProps: what single steps do on every branch, and where the code leaves its own
    contract. Races: a lost change of state and two deadlocks, each a predicate no step leaves
    (the locale \<open>trap\<close>). Limits: what a second or a later opening and the last
    sequence number do.
    Workers: the heads of the threads' loops and the locks \<open>timeout_handler\<close> takes by hand;
    they refine the system. Stopping: the joins of \<open>stop\<close>. FromStart: from two fresh ends any
    file can be sent, and with a window of 2^32 nothing is.
  \<^item> ArgParser, App: src/app/argparser.hpp and the programs of src/app/file_transfer. Programs:
    the main loops of the two programs on top of the system, from the words typed and the
    files read to the files written. CommandLine: what a command line means. ProgramRuns: executable runs of the programs, and the
    theorems from files to files.

  How the code is read. An object is a record, a member function a function on it; an
  operation that has no value in C++ (an access outside a vector, \<open>value()\<close> on an empty
  optional, a division by zero, a thrown exception) yields a fault on the left of a sum.
  Numbers of the wire and sizes keep their width, so they wrap as they do in the code. A
  member function that holds one mutex is one step. Three mutexes are held across steps and are
  in the state: the state mutex, which the caller holds inside \<open>send_packet\<close> and which the
  receive thread needs to assign the state and the send thread to give a packet up; and the
  mutexes of the pool and of the acknowledged set, which the send thread takes in a step of
  its own for the number it has popped, and which the caller needs to enter a packet and the
  receive thread to handle an acknowledgement. A timed wait is its predicate at the moment the
  wait ends. Every reading of the clock, the order of unordered containers and every answer of the operating
  system is an argument, so the theorems hold for all of them. The loops that end are
  functions with a measure; the loops of the threads are step relations; \<open>command_loop\<close> takes
  the number of turns as an argument and is proved never to return without the word exit.

  Bounds. The theorems about runs speak of fewer than 2^32 packets, because the code
  compares sequence numbers as plain numbers and is not correct across the wrap-around; and
  of at most one opening of a connection, because a connect request the network repeats can
  open the connection again and move the window back. Some say for selective repeat that
  the connection was opened by packet 0, because packets that an idle receiver has buffered
  before can otherwise block its buffer. Each property says which of these bounds it has.
  Time points are unbounded: they are those of the code while the clock and the timeouts stay below
  2^63 nanoseconds.

  Not modelled. Creating threads other than the timing thread; the texts that are logged, but
  for \<open>show_info\<close>; what the programs print, and the argument parser to standard error; the
  router script, which is not part of the library. Datagrams that make the decoder read
  outside its buffer are characterised, but are no steps of a run, nor is what a thread does after
  such a read; spurious wake-ups of the timing thread; writes to files that fail, and that a file
  written twice under one name is replaced. What \<open>std::stof\<close> and \<open>std::stod\<close> make of a
  text is a parameter, which no program uses.
\<close>

section \<open>The whole system\<close>




lemma reach_session:
  assumes "sys_reach y" "length (y_hist y) < 4294967296" "y_opened y \<le> 1"
  shows "session_inv y"
  using assms by (intro session.reach_inv) (simp_all add: session_bound_def sys_bound_def)

lemma reach_sys:
  assumes "sys_reach y" "length (y_hist y) < 4294967296"
  shows "sys_inv y"
  using assms by (intro sys.reach_inv) (simp_all add: sys_bound_def)

text \<open>C6: while fewer than 2^32 packets are made and the receiver has opened at most one connection,
  the system refines a pipe of octets: what it starts as is the empty pipe, what it has reached is
  reachable for the pipe, and every step of a thread, of the network and of the receiver that does
  not lead out of these bounds is one step of the pipe, which puts octets in at one end or gets
  them out, in order and once, at the other. (A second opening can put out octets again, see
  \<open>replay_writes_twice\<close>, and is no step of the pipe.)\<close>

theorem system_refines_pipe:
  assumes "sys_reach y" "sys_step y y'" "length (y_hist y') < 4294967296" "y_opened y' \<le> 1"
  shows "pipe_step (pipe_of y) (pipe_of y') \<and>
    reach ((=) pipe_empty) pipe_step (pipe_of y) \<and> (sys_start y \<longrightarrow> pipe_of y = pipe_empty)"
proof -
  have b: "session_bound y'" using assms(3,4) by (simp add: session_bound_def sys_bound_def)
  note b0 = session_bound_back [OF assms(2) b]
  from pipe_simulation [OF assms(2) session.reach_inv [OF assms(1) b0] b] pipe_reach [OF assms(1) b0]
  show ?thesis by (simp add: pipe_of_start)
qed

theorem system_refines_pipe_witness:
  "\<exists>y. sys_step (after_transfer True) y \<and> pipe_step (pipe_of (after_transfer True)) (pipe_of y)"
proof -
  let ?y = "after_transfer True"
  let ?c = "(y_client ?y)\<lparr>c_sender := sender_timer_turn (\<lambda>k. 0) (y_sender ?y)\<rparr>"
  have "sys_step ?y (?y\<lparr>y_client := ?c\<rparr>)"
    by (rule sys_client [OF client_timer]) simp
  moreover from this have "pipe_step (pipe_of ?y) (pipe_of (?y\<lparr>y_client := ?c\<rparr>))"
    by (rule system_refines_pipe [OF reach_after_transfer, THEN conjunct1])
      (simp_all add: after_transfer_simps)
  ultimately show ?thesis by blast
qed

text \<open>C9: at any moment of a run of fewer than 2^32 packets, as long as the receiver has opened at most
  one connection, the stream is the payloads of the packets numbered below the receiver's window,
  in the order they were made: nothing is lost, repeated or swapped. (After a second opening
  the stream can repeat them, see \<open>replay_writes_twice\<close>.)\<close>

theorem stream_is_prefix:
  assumes "sys_reach y" "length (y_hist y) < 4294967296" "y_opened y \<le> 1"
  shows "sn (r_window_first (y_receiver y)) \<le> length (y_hist y) \<and>
    r_os (y_receiver y) =
      Some (concat (map payload (take (sn (r_window_first (y_receiver y))) (y_hist y))))"
  using reach_session [OF assms] session_stream [of y]
  by (simp add: session_inv_def sys_inv_def receiver_inv_def)

theorem stream_is_prefix_witness:
  "r_os (y_receiver (after_transfer False)) =
     Some (concat (map payload (take 3 (y_hist (after_transfer False)))))"
  using stream_is_prefix [of "after_transfer False"] by (simp add: after_transfer_simps sn_def)

text \<open>When the sender's window is empty, the stream is all the payloads ever made; in
  selective repeat, if nothing below the window is left in the receiver's buffer.\<close>

theorem empty_window_delivered:
  assumes "sys_reach y" "length (y_hist y) < 4294967296" "y_opened y \<le> 1"
    and "window_zero (s_window (y_sender y))"
    and "r_selective_repeat (y_receiver y) \<longrightarrow>
      (\<forall>q \<in> set (r_recv_buffer (y_receiver y)). r_window_first (y_receiver y) < seq q)"
  shows "r_os (y_receiver y) = Some (concat (map payload (y_hist y)))"
  using whole_first [OF reach_session [OF assms(1-3)]]
    window_empty_first [OF reach_session [OF assms(1-3)] assms(4)] assms(5)
  by (simp add: whole_def unblocked_def)

theorem empty_window_delivered_witness:
  "r_os (y_receiver (after_transfer True)) = Some (concat (map payload (y_hist (after_transfer True))))"
  using empty_window_delivered [of "after_transfer True"]
  by (simp add: after_transfer_simps window_zero_def)

text \<open>C11: in a run of fewer than 2^32 packets, as long as the receiver has opened at most one
  connection (a second opening can move its window back), what the sender takes for acknowledged
  has arrived: in selective repeat every number acknowledged or passed is in the receiver's buffer
  or behind its window; in go-back-n every number the sender's window has passed is.\<close>

theorem acknowledged_received:
  assumes "sys_reach y" "length (y_hist y) < 4294967296" "y_opened y \<le> 1"
    and "r_selective_repeat (y_receiver y) \<longrightarrow>
      sq < lower_bound (s_window (y_sender y)) \<or> sq \<in> s_acked_seq_set (y_sender y)"
    and "\<not> r_selective_repeat (y_receiver y) \<longrightarrow> sq < lower_bound (s_window (y_sender y))"
  shows "sq < r_window_first (y_receiver y) \<or> sq \<in> seq ` set (r_recv_buffer (y_receiver y))"
  using reach_session [OF assms(1-3)] assms(4,5)
  by (auto simp: session_inv_def acks_true_def received_def split: if_splits)

theorem acknowledged_received_witness:
  "SequenceNumber 2 < r_window_first (y_receiver (after_transfer True)) \<or>
   SequenceNumber 2 \<in> seq ` set (r_recv_buffer (y_receiver (after_transfer True)))"
  using acknowledged_received [of "after_transfer True" "SequenceNumber 2"]
  by (simp add: after_transfer_simps less_SequenceNumber_def)

text \<open>C10: no packet is forgotten by any interleaving of the threads, in any run of fewer than 2^32
  packets. A number of the window that is not acknowledged has its packet in the pool or in the
  hands of the caller, and it is in the pending queue, registered or timed out with the timer, held
  by the send thread or the caller, or has used up its retries.\<close>

theorem no_packet_forgotten:
  assumes "sys_reach y" "length (y_hist y) < 4294967296"
    and "lower_bound (s_window (y_sender y)) \<le> sq" "sq < upper_bound (s_window (y_sender y))"
    and "\<not> (s_selective_repeat (y_sender y) \<and> sq \<in> s_acked_seq_set (y_sender y))"
  shows "(sq \<in> dom (s_packet_pool (y_sender y)) \<or>
      map_option seq (reserved_of (c_api (y_client y))) = Some sq) \<and>
    (sq \<in> container (s_pending_queue (y_sender y)) \<or>
      query_event sq (s_timer (y_sender y)) \<noteq> Unregistered \<or>
      c_popped (y_client y) = Some sq \<or>
      map_option seq (reserved_of (c_api (y_client y))) = Some sq \<or>
      (\<exists>n. s_retry_count (y_sender y) sq = Some n \<and> s_max_retry_count (y_sender y) \<le> n))"
proof -
  have "none_lost (reserved_of (c_api (y_client y))) (c_popped (y_client y)) (y_sender y)"
    using reach_sys [OF assms(1,2)] by (simp add: sys_inv_def client_inv_def sender_inv_def)
  with assms(3-5) show ?thesis
    by (auto simp: none_lost_def outstanding_def stored_def tracked_def retries_used_def
        pending_def query_event_def)
qed

theorem no_packet_forgotten_witness:
  "SequenceNumber 1 \<in> dom (s_packet_pool (y_sender in_transit)) \<or>
   map_option seq (reserved_of (c_api (y_client in_transit))) = Some (SequenceNumber 1)"
  using no_packet_forgotten [of in_transit "SequenceNumber 1"]
  by (simp add: in_transit_simps less_SequenceNumber_def less_eq_SequenceNumber_def)

text \<open>C12: in any run of fewer than 2^32 packets the sender's window is ordered and never holds more
  numbers than the configured size, counted modulo 2^32, and the packets are numbered consecutively
  from 0 up to its upper bound.\<close>

theorem window_bounded:
  assumes "sys_reach y" "length (y_hist y) < 4294967296"
  shows "lower_bound (s_window (y_sender y)) \<le> upper_bound (s_window (y_sender y)) \<and>
    sn (upper_bound (s_window (y_sender y))) - sn (lower_bound (s_window (y_sender y))) \<le>
      unat (max_window_size (s_window (y_sender y))) mod 4294967296 \<and>
    sn (upper_bound (s_window (y_sender y))) = length (y_hist y) \<and>
    (\<forall>i < length (y_hist y). sn (seq (y_hist y ! i)) = i)"
proof -
  have "window_ok (y_hist y) (y_sender y)"
    using reach_sys [OF assms] by (simp add: sys_inv_def client_inv_def sender_inv_def)
  then show ?thesis
    using in_flight_ordered [of "s_window (y_sender y)"]
    by (simp add: window_ok_def numbered_def window_limit_def)
qed

theorem window_bounded_witness:
  "lower_bound (s_window (y_sender in_transit)) \<le> upper_bound (s_window (y_sender in_transit)) \<and>
   sn (seq (y_hist in_transit ! 1)) = 1"
  using window_bounded [of in_transit] by (simp add: in_transit_simps)

text \<open>C15: in any run of fewer than 2^32 packets every datagram the sender has put on the network
  decodes to the packet with its number, whatever the encoding of the payload.\<close>

theorem datagrams_decode:
  assumes "sys_reach y" "length (y_hist y) < 4294967296"
    and "(addr, d) \<in> set (outbox (s_channel (y_sender y)))"
  shows "\<exists>i < length (y_hist y). from_bytes d = Inr (Some (y_hist y ! i)) \<and> sn (seq (y_hist y ! i)) = i"
proof -
  have inv: "client_inv (y_client y)" using reach_sys [OF assms(1,2)] by (simp add: sys_inv_def)
  then obtain p where p: "in_hist (y_hist y) p" "d = to_bytes p"
    using assms(3) by (fastforce simp: client_inv_def sender_inv_def outbox_ok_def)
  moreover have "packet_ok p" using inv p(1) by (simp add: client_inv_def hist_ok_packet [of "y_hist y"])
  ultimately show ?thesis by (auto simp: in_hist_def decode_encode_ok)
qed

theorem datagrams_decode_witness:
  "\<exists>i < 3. from_bytes (snd (hd (outbox (s_channel (y_sender (after_transfer True)))))) =
     Inr (Some (y_hist (after_transfer True) ! i))"
proof -
  have "outbox (s_channel (y_sender (after_transfer True))) \<noteq> []"
    using after_transfer [of True] by (auto simp: transfer_summary_def)
  then have "(fst (hd (outbox (s_channel (y_sender (after_transfer True))))),
      snd (hd (outbox (s_channel (y_sender (after_transfer True)))))) \<in>
      set (outbox (s_channel (y_sender (after_transfer True))))" by simp
  from datagrams_decode [OF reach_after_transfer _ this] after_transfer_hist [of True]
  show ?thesis by auto
qed

text \<open>C13: in any run of fewer than 2^32 packets a receiver that hears only this sender never faults:
  no datagram of the sender, and no datagram damaged so that the decoder notices and drops it, makes
  \<open>get_ack_kind(...).value()\<close> throw or the decoder read outside the datagram. (Datagrams that make
  the decoder itself read outside are those of \<open>decoder_faults_exactly\<close>; the sender never sends
  one.)\<close>

theorem receiver_never_faults:
  assumes "sys_reach y" "length (y_hist y) < 4294967296"
    and "deliverable (s_channel (y_sender y)) (r_channel (y_receiver y)) (RecvDatagram bs addr)"
  shows "recv_iter a (RecvDatagram bs addr) (y_receiver y) \<noteq> Inl e"
proof -
  let ?b = "take (unat (max_buf_size (r_channel (y_receiver y)))) bs"
  have inv: "sys_inv y" by (rule reach_sys [OF assms(1,2)])
  have it: "recv_iter a (RecvDatagram bs addr) (y_receiver y) =
      bind_result (from_bytes ?b) (\<lambda>po. case po of None \<Rightarrow> Inr (NextTurn, y_receiver y)
        | Some p \<Rightarrow> recv_packet a p addr (y_receiver y))"
    by (simp add: recv_iter_def socket_recv_def)
  have pk: "recv_packet a p addr (y_receiver y) \<noteq> Inl e" if "in_hist (y_hist y) p" for p
  proof -
    have "p \<in> set (y_hist y)" using that by (metis in_hist_def nth_mem)
    then have "get_ack_kind (kind p) \<noteq> None"
      using inv by (auto simp: sys_inv_def client_inv_def hist_ok_def sendable_def)
    then show ?thesis by (auto simp: recv_packet_fault)
  qed
  from delivered_outcome [OF inv assms(3)] show ?thesis
    using pk by (auto simp: it)
qed

theorem receiver_never_faults_witness:
  "recv_iter os_ok (RecvDatagram (snd (hd (outbox (s_channel (y_sender in_transit))))) addr_zero)
     (y_receiver in_transit) \<noteq> Inl BadOptionalAccess"
proof (rule receiver_never_faults [OF reach_in_transit])
  show "length (y_hist in_transit) < 4294967296" by (simp add: in_transit_simps)
  have "outbox (s_channel (y_sender in_transit)) \<noteq> []" using in_transit_outbox by auto
  then show "deliverable (s_channel (y_sender in_transit)) (r_channel (y_receiver in_transit))
      (RecvDatagram (snd (hd (outbox (s_channel (y_sender in_transit))))) addr_zero)"
    by (simp add: deliverable_def)
qed

text \<open>C14: in any run of fewer than 2^32 packets every datagram of the receiver decodes to an
  acknowledgement of a packet the sender has made (selective repeat) or of a prefix of its
  packets (go-back-n): the sender's window cannot be pushed past its upper bound.\<close>

theorem answers_known:
  assumes "sys_reach y" "length (y_hist y) < 4294967296"
    and "(addr, d) \<in> set (outbox (r_channel (y_receiver y)))"
  shows "\<exists>p. from_bytes d = Inr (Some p) \<and> is_ack p \<and>
    (if s_selective_repeat (y_sender y) then seq p < upper_bound (s_window (y_sender y))
     else seq p \<le> upper_bound (s_window (y_sender y)))"
proof -
  have inv: "sys_inv y" by (rule reach_sys [OF assms(1,2)])
  obtain p where p: "d = to_bytes p" "ack_known (y_hist y) (r_selective_repeat (y_receiver y)) p"
    using inv assms(3) by (fastforce simp: sys_inv_def receiver_inv_def acks_known_def)
  have win: "window_ok (y_hist y) (y_sender y)" "s_selective_repeat (y_sender y) = r_selective_repeat (y_receiver y)"
    using inv by (simp_all add: sys_inv_def client_inv_def sender_inv_def)
  from ack_known_range [OF p(2) win] p show ?thesis
    by (auto simp: ack_in_range_def ack_known_def decode_encode_ok)
qed

theorem answers_known_witness:
  "\<exists>p. from_bytes (snd (hd (outbox (r_channel (y_receiver (after_transfer True)))))) = Inr (Some p) \<and> is_ack p"
proof -
  have "outbox (r_channel (y_receiver (after_transfer True))) \<noteq> []"
    using after_transfer [of True] by (auto simp: transfer_summary_def)
  then have "(fst (hd (outbox (r_channel (y_receiver (after_transfer True))))),
      snd (hd (outbox (r_channel (y_receiver (after_transfer True)))))) \<in>
      set (outbox (r_channel (y_receiver (after_transfer True))))" by simp
  from answers_known [OF reach_after_transfer _ this] show ?thesis
    by (auto simp: after_transfer_simps)
qed

text \<open>No retry counter ever exceeds the configured maximum.\<close>

theorem retries_bounded:
  assumes "sys_reach y" "length (y_hist y) < 4294967296"
    and "s_retry_count (y_sender y) sq = Some n"
  shows "n \<le> s_max_retry_count (y_sender y)"
  using reach_sys [OF assms(1,2)] assms(3)
  by (simp add: sys_inv_def client_inv_def sender_inv_def retry_ok_def)

theorem retries_bounded_witness: "(0 :: size_t) \<le> s_max_retry_count (y_sender in_transit)"
  using retries_bounded [of in_transit "SequenceNumber 1" 0] by (simp add: in_transit_simps)

text \<open>C8: the window can move on. After one opening, by packet 0, with the receiver not idle, its window
  size above zero modulo 2^32 and that many numbers to spare below 2^32; while sender and receiver
  run; when the sender's window is not empty, the caller does not hold the state mutex, the send
  thread is not just sending the packet at the lower bound of the window, neither that packet nor
  the one whose number the send thread has popped has used up its retries, and the datagram of the
  packet at the lower bound fits the buffer of the socket: then, whatever else was lost, repeated or
  delayed and whichever timers are pending, the threads and the network can go on so that the
  window moves past that packet, in both modes.\<close>

theorem progress_possible:
  assumes "sys_reach y" "y_opened y \<le> 1" "y_base y = Some 0"
    and "s_running (y_sender y)" "r_running (y_receiver y)" "\<not> y_done y" "r_state (y_receiver y) \<noteq> RIdle"
    and "0 < unat (r_max_window_size (y_receiver y)) mod 4294967296"
    and "length (y_hist y) + unat (r_max_window_size (y_receiver y)) mod 4294967296 < 4294967296"
    and "\<not> window_zero (s_window (y_sender y))" "\<not> holds_state_mutex (c_api (y_client y))"
    and "\<forall>sq n. (sq = lower_bound (s_window (y_sender y)) \<or> c_popped (y_client y) = Some sq) \<and>
      s_retry_count (y_sender y) sq = Some n \<longrightarrow> n < s_max_retry_count (y_sender y)"
    and "length (to_bytes (y_hist y ! sn (lower_bound (s_window (y_sender y))))) \<le>
      unat (max_buf_size (s_channel (y_sender y)))"
    and "c_locked (y_client y) \<longrightarrow> c_popped (y_client y) \<noteq> Some (lower_bound (s_window (y_sender y)))"
  shows "\<exists>y'. sys_step\<^sup>*\<^sup>* y y' \<and>
    lower_bound (s_window (y_sender y)) < lower_bound (s_window (y_sender y'))"
proof -
  have "link_up (y\<lparr>y_client := (y_client y)\<lparr>c_locked := False\<rparr>\<rparr>)" "can_retry (y_client y)"
    using assms(4-9,11,12) by (simp_all add: link_up_def can_retry_def)
  from progress_locked [OF assms(1-3) this assms(10,13,14)] show ?thesis by blast
qed

theorem progress_possible_witness:
  "\<exists>y'. sys_step\<^sup>*\<^sup>* in_transit y' \<and> SequenceNumber 1 < lower_bound (s_window (y_sender y'))"
proof -
  have "payload (y_hist in_transit ! 1) = []"
    using in_transit_simps nth_map [of 1 "y_hist in_transit" payload] by simp
  then have "length (to_bytes (y_hist in_transit ! 1)) = 12"
    by (simp add: length_to_bytes reserve_size_def)
  then show ?thesis
    using progress_possible [of in_transit] by (simp add: in_transit_simps window_zero_def sn_def)
qed

end
